(* ===== verification/Prelude.thy ===== *)
theory Prelude
  imports Main "HOL-Library.AList" "HOL-Library.Word" "HOL-Library.List_Lexorder"
    "HOL-Library.Char_ord" "HOL-Library.Product_Lexorder" "HOL-Library.Multiset"
begin

text \<open>
  Shared vocabulary of the development: Go's byte strings, error values and
  fallible results, the string functions of Go's standard library the program
  uses, decimal formatting, index-carrying traversals (the shape of every
  \<^verbatim>\<open>for i, x := range xs { ...; if err != nil { return ... } }\<close> loop), and the
  generic facts about them that the component theories use.
\<close>

named_theorems error_defs \<open>defining equations of the error predicates\<close>

section \<open>Byte strings and errors\<close>

text \<open>Go strings and byte slices are sequences of bytes; a HOL character is a byte.\<close>

type_synonym bytes = string

text \<open>
  Instants: nanoseconds since Go's zero time (1 January of year 1, UTC), so that
  \<open>IsZero\<close> is equality with 0, \<open>Before\<close> is \<open><\<close> and \<open>Equal\<close> is equality.
\<close>

type_synonym time = int

abbreviation second :: time where
  "second \<equiv> 1000000000"

text \<open>
  Error values compared by identity (\<open>errors.Is\<close>), then the ways an error value is
  built: a message (\<open>errors.New\<close>, \<open>fmt.Errorf\<close> without \<open>%w\<close>), a wrapped error
  (\<open>fmt.Errorf("...: %w", err)\<close>), the client's two wrapper types, echo's HTTP error,
  and a value made by code outside the repository.
\<close>

datatype sentinel =
    Canceled | DeadlineExceeded | NotFound | NoRows | EventTooLong | BufTooLong
  | StreamStopped | NotExist | NameTooLong | LimitExceeded | UnexpectedEOF

datatype error =
    Sentinel sentinel
  | Msg string
  | Wrap string error
  | ConnectError error
  | CorruptError error
  | HTTPError nat string
  | Foreign string

type_synonym 'a result = "error + 'a"

primrec errors_is :: "error \<Rightarrow> sentinel \<Rightarrow> bool" where
  "errors_is (Sentinel x) t = (x = t)"
| "errors_is (Msg m) t = False"
| "errors_is (Wrap m e) t = errors_is e t"
| "errors_is (ConnectError e) t = errors_is e t"
| "errors_is (CorruptError e) t = errors_is e t"
| "errors_is (HTTPError c m) t = False"
| "errors_is (Foreign m) t = False"

text \<open>
  \<open>Error()\<close>, the text of an error value; the texts of the identity errors, most of
  which belong to libraries, are a parameter.
\<close>

primrec error_text :: "(sentinel \<Rightarrow> string) \<Rightarrow> error \<Rightarrow> string" where
  "error_text st (Sentinel x) = st x"
| "error_text st (Msg m) = m"
| "error_text st (Wrap m e) = m @ '': '' @ error_text st e"
| "error_text st (ConnectError e) = error_text st e"
| "error_text st (CorruptError e) = error_text st e"
| "error_text st (HTTPError c m) = m"
| "error_text st (Foreign m) = m"

section \<open>Decimal formatting\<close>

definition digit :: "nat \<Rightarrow> char" where
  "digit d = char_of (48 + d)"

fun show_nat :: "nat \<Rightarrow> string" where
  "show_nat n = (if n < 10 then [digit n] else show_nat (n div 10) @ [digit (n mod 10)])"

declare show_nat.simps [simp del]

lemma show_nat_small [simp]: "n < 10 \<Longrightarrow> show_nat n = [digit n]"
  by (simp add: show_nat.simps)

section \<open>Standard library strings\<close>

text \<open>\<open>strings.CutPrefix\<close>: \<open>None\<close> is the second result \<open>false\<close>.\<close>

fun cut_prefix :: "string \<Rightarrow> string \<Rightarrow> string option" where
  "cut_prefix [] s = Some s"
| "cut_prefix (p # ps) [] = None"
| "cut_prefix (p # ps) (c # cs) = (if p = c then cut_prefix ps cs else None)"

definition trim_prefix :: "string \<Rightarrow> string \<Rightarrow> string" where
  "trim_prefix p s = (case cut_prefix p s of None \<Rightarrow> s | Some v \<Rightarrow> v)"

fun strings_join :: "string \<Rightarrow> string list \<Rightarrow> string" where
  "strings_join sep [] = []"
| "strings_join sep [x] = x"
| "strings_join sep (x # y # xs) = x @ sep @ strings_join sep (y # xs)"

lemma cut_prefix_Some: "cut_prefix p s = Some v \<longleftrightarrow> s = p @ v"
  by (induction p s rule: cut_prefix.induct) auto

lemma cut_prefix_append [simp]: "cut_prefix p (p @ v) = Some v"
  by (simp add: cut_prefix_Some)

lemma trim_prefix_append [simp]: "trim_prefix p (p @ v) = v"
  by (simp add: trim_prefix_def)

lemma length_trim_prefix: "length (trim_prefix p s) \<le> length s"
  by (cases "cut_prefix p s") (auto simp: trim_prefix_def cut_prefix_Some)

lemma length_strings_join:
  "length (strings_join sep xs)
     = sum_list (map length xs) + (length xs - 1) * length sep"
  by (induction sep xs rule: strings_join.induct) auto

lemma strings_join_snoc:
  "strings_join sep (xs @ [x]) = (if xs = [] then x else strings_join sep xs @ sep @ x)"
  by (induction sep xs rule: strings_join.induct) auto

text \<open>
  \<open>strings.TrimSpace\<close>: the UTF-8 encodings of Unicode white space, removed from the
  front and, read backwards, from the back.
\<close>

definition byte_string :: "nat list \<Rightarrow> string" where
  "byte_string ns = map char_of ns"

definition white_space :: "string list" where
  "white_space = map byte_string
     [[9], [10], [11], [12], [13], [32], [194, 133], [194, 160], [225, 154, 128],
      [226, 128, 128], [226, 128, 129], [226, 128, 130], [226, 128, 131],
      [226, 128, 132], [226, 128, 133], [226, 128, 134], [226, 128, 135],
      [226, 128, 136], [226, 128, 137], [226, 128, 138], [226, 128, 168],
      [226, 128, 169], [226, 128, 175], [226, 129, 159], [227, 128, 128]]"

fun strip_one :: "string list \<Rightarrow> string \<Rightarrow> string option" where
  "strip_one [] s = None"
| "strip_one (w # ws) s = (case cut_prefix w s of Some v \<Rightarrow> Some v | None \<Rightarrow> strip_one ws s)"

lemma strip_one_shorter:
  "strip_one ws s = Some v \<Longrightarrow> [] \<notin> set ws \<Longrightarrow> length v < length s"
  by (induction ws s rule: strip_one.induct)
    (auto simp: cut_prefix_Some split: option.splits)

lemma white_space_nonempty: "[] \<notin> set white_space" "[] \<notin> set (map rev white_space)"
  by (simp_all add: white_space_def byte_string_def)

function trim_front :: "string list \<Rightarrow> string \<Rightarrow> string" where
  "trim_front ws s =
     (if [] \<in> set ws then s
      else case strip_one ws s of None \<Rightarrow> s | Some v \<Rightarrow> trim_front ws v)"
  by pat_completeness auto
termination
  by (relation "measure (\<lambda>(ws, s). length s)") (auto dest: strip_one_shorter)

declare trim_front.simps [simp del]

definition trim_space :: "string \<Rightarrow> string" where
  "trim_space s = rev (trim_front (map rev white_space) (rev (trim_front white_space s)))"

lemma trim_front_no_strip:
  "strip_one ws s = None \<Longrightarrow> trim_front ws s = s"
  by (simp add: trim_front.simps)

lemma trim_front_strip:
  "strip_one ws s = Some v \<Longrightarrow> [] \<notin> set ws \<Longrightarrow> trim_front ws s = trim_front ws v"
  by (simp add: trim_front.simps [of ws s])

text \<open>\<open>strings.TrimRight(s, cutset)\<close> for a cutset of one byte.\<close>

definition trim_right :: "char \<Rightarrow> string \<Rightarrow> string" where
  "trim_right c s = rev (dropWhile (\<lambda>x. x = c) (rev s))"

section \<open>Traversals with an index\<close>

text \<open>
  A loop that computes one value per element and returns at the first error. The
  body sees the index, which the source puts into its messages.
\<close>

fun traverse :: "nat \<Rightarrow> (nat \<Rightarrow> 'a \<Rightarrow> 'b result) \<Rightarrow> 'a list \<Rightarrow> 'b list result" where
  "traverse i f [] = Inr []"
| "traverse i f (x # xs) =
     (case f i x of
        Inl e \<Rightarrow> Inl e
      | Inr y \<Rightarrow> (case traverse (Suc i) f xs of Inl e \<Rightarrow> Inl e | Inr ys \<Rightarrow> Inr (y # ys)))"

lemma traverse_Inr_length: "traverse i f xs = Inr ys \<Longrightarrow> length ys = length xs"
  by (induction xs arbitrary: i ys) (auto split: sum.splits)

lemma traverse_Inr_nth:
  "traverse i f xs = Inr ys \<Longrightarrow> k < length xs \<Longrightarrow> f (i + k) (xs ! k) = Inr (ys ! k)"
proof (induction xs arbitrary: i ys k)
  case Nil
  then show ?case by simp
next
  case (Cons x xs)
  then show ?case
    using Cons.IH [of "Suc i" _ "k - 1"]
    by (cases k) (fastforce split: sum.splits)+
qed

text \<open>When success of the body does not depend on the index, the loop is a map.\<close>

lemma traverse_lookup:
  assumes "\<And>j x y. f j x = Inr y \<longleftrightarrow> g x = Some y"
  shows "traverse i f xs = Inr ys \<longleftrightarrow> map g xs = map Some ys"
proof (induction xs arbitrary: i ys)
  case Nil
  then show ?case by auto
next
  case (Cons x xs)
  show ?case
  proof (cases "f i x")
    case (Inl e)
    with assms [of i x] have "g x = None" by (cases "g x") auto
    with Inl show ?thesis by (auto simp: Cons_eq_map_conv)
  next
    case (Inr y)
    with assms have g: "g x = Some y" by blast
    show ?thesis
    proof (cases "traverse (Suc i) f xs")
      case (Inl e)
      then have "map g xs \<noteq> map Some zs" for zs
        using Cons.IH [of "Suc i" zs] by simp
      with Inl Inr g show ?thesis by (auto simp: Cons_eq_map_conv)
    next
      case (Inr zs)
      then have "map g xs = map Some zs" using Cons.IH [of "Suc i" zs] by simp
      with Inr g \<open>f i x = Inr y\<close> show ?thesis
        by (auto simp: Cons_eq_map_conv inj_map_eq_map)
    qed
  qed
qed

lemma traverse_map_Inr:
  "(\<And>j x. x \<in> set xs \<Longrightarrow> f j x = Inr (g x)) \<Longrightarrow> traverse i f xs = Inr (map g xs)"
  by (induction xs arbitrary: i) auto

lemma traverse_Inl:
  "traverse i f xs = Inl e \<Longrightarrow>
     \<exists>k < length xs. f (i + k) (xs ! k) = Inl e \<and>
        (\<forall>j < k. \<exists>y. f (i + j) (xs ! j) = Inr y)"
proof (induction xs arbitrary: i)
  case Nil
  then show ?case by simp
next
  case (Cons x xs)
  show ?case
  proof (cases "f i x")
    case (Inl e')
    with Cons.prems show ?thesis by (intro exI [of _ 0]) simp
  next
    case (Inr y)
    with Cons.prems have "traverse (Suc i) f xs = Inl e"
      by (auto split: sum.splits)
    then obtain k where "k < length xs" "f (Suc i + k) (xs ! k) = Inl e"
      "\<forall>j < k. \<exists>y. f (Suc i + j) (xs ! j) = Inr y"
      using Cons.IH by blast
    with Inr show ?thesis by (intro exI [of _ "Suc k"]) (auto simp: All_less_Suc2)
  qed
qed

lemma traverse_cong_result:
  "(\<And>j. j < length xs \<Longrightarrow> f (i + j) (xs ! j) = g (i + j) (xs ! j)) \<Longrightarrow>
     traverse i f xs = traverse i g xs"
proof (induction xs arbitrary: i)
  case Nil
  then show ?case by simp
next
  case (Cons x xs)
  have "f i x = g i x" using Cons.prems [of 0] by simp
  moreover have "traverse (Suc i) f xs = traverse (Suc i) g xs"
    using Cons.prems [of "Suc j" for j] by (intro Cons.IH) simp
  ultimately show ?case by (simp split: sum.split)
qed

text \<open>The first element a test holds for, with its index.\<close>

fun find_index :: "nat \<Rightarrow> ('a \<Rightarrow> bool) \<Rightarrow> 'a list \<Rightarrow> nat option" where
  "find_index i p [] = None"
| "find_index i p (x # xs) = (if p x then Some i else find_index (Suc i) p xs)"

lemma find_index_None: "find_index i p xs = None \<longleftrightarrow> (\<forall>x \<in> set xs. \<not> p x)"
  by (induction i p xs rule: find_index.induct) auto

lemma find_index_Some_ex: "find_index i p xs = Some k \<Longrightarrow> \<exists>x \<in> set xs. p x"
  by (induction i p xs rule: find_index.induct) (auto split: if_splits)

lemma find_index_Some:
  "find_index i p xs = Some k \<longleftrightarrow>
     i \<le> k \<and> k - i < length xs \<and> p (xs ! (k - i)) \<and> (\<forall>j < k - i. \<not> p (xs ! j))"
proof (induction i p xs rule: find_index.induct)
  case (1 i p)
  then show ?case by simp
next
  case (2 i p x xs)
  show ?case
  proof (cases "p x")
    case True
    then show ?thesis by (cases "k - i") auto
  next
    case False
    show ?thesis
    proof (cases "k - i")
      case 0
      with False 2 show ?thesis by (cases "k = i") auto
    next
      case (Suc n)
      then have "k - Suc i = n" "i \<le> k \<longleftrightarrow> Suc i \<le> k" by auto
      with False 2 Suc show ?thesis by (auto simp: All_less_Suc2)
    qed
  qed
qed

section \<open>Association lists and words\<close>

lemma map_of_update: "map_of (AList.update k v al) = (map_of al)(k \<mapsto> v)"
  by (simp add: update_conv' fun_eq_iff)

lemma map_of_map_const:
  "map_of (map (\<lambda>(i, p). (i, c)) al) i = map_option (\<lambda>_. c) (map_of al i)"
  by (induction al) auto

lemma unat_Suc_word:
  fixes w :: "64 word"
  assumes "Suc (unat w) < 2 ^ 64"
  shows "unat (w + 1) = Suc (unat w)"
  using assms by (simp add: unat_word_ariths)

end
