(* ===== verification/Ucan.thy ===== *)
theory Ucan
  imports Prelude
begin

text \<open>
  The data the service moves around. CIDs, DIDs, delegations and invocations are
  values of the ucantone and go-cid libraries; the program reads them only through
  comparison and the accessors \<open>Link\<close>, \<open>Issuer\<close>, \<open>Audience\<close>, \<open>Subject\<close> and
  \<open>Command\<close>, which are the fields of the records below. The records and the store
  interface of \<^verbatim>\<open>pkg/store/store.go\<close> follow, with the contract every
  revocation store has to meet stated as a locale.
\<close>

section \<open>Tokens\<close>

text \<open>A CID is an opaque comparable value; its string form is a codec parameter.\<close>

datatype cid = Cid string

primrec cid_bytes :: "cid \<Rightarrow> string" where
  "cid_bytes (Cid s) = s"

lemma cid_bytes_inject [simp]: "cid_bytes a = cid_bytes b \<longleftrightarrow> a = b"
  by (cases a; cases b) simp

instantiation cid :: linorder
begin

definition less_eq_cid :: "cid \<Rightarrow> cid \<Rightarrow> bool" where
  "less_eq_cid a b \<longleftrightarrow> cid_bytes a \<le> cid_bytes b"

definition less_cid :: "cid \<Rightarrow> cid \<Rightarrow> bool" where
  "less_cid a b \<longleftrightarrow> cid_bytes a < cid_bytes b"

instance
  by standard (auto simp: less_eq_cid_def less_cid_def simp flip: cid_bytes_inject)

end

text \<open>\<open>did.Undef\<close> is the DID of a delegation that names no subject.\<close>

datatype did = Undef | Did string

record delegation =
  dlg_link :: cid
  dlg_issuer :: did
  dlg_audience :: did
  dlg_subject :: did

record invocation =
  inv_link :: cid
  inv_task :: cid
  inv_issuer :: did
  inv_command :: string

text \<open>The arguments of a \<^verbatim>\<open>/ucan/revoke\<close> invocation.\<close>

record revoke_arguments =
  arg_revoke :: cid
  arg_path :: "cid list"

section \<open>Records of the store\<close>

record revocation_record =
  rr_revoke :: cid
  rr_path :: "delegation list"
  rr_cause :: invocation
  rr_recorded_at :: time

record revocation =
  rv_cause :: invocation
  rv_path :: "delegation list"

text \<open>The delegation a revocation is about: the last one of its path.\<close>

definition revoked_link :: "revocation \<Rightarrow> cid" where
  "revoked_link r = dlg_link (last (rv_path r))"

definition cause_link :: "revocation \<Rightarrow> cid" where
  "cause_link r = inv_link (rv_cause r)"

definition record_of :: "time \<Rightarrow> revocation \<Rightarrow> revocation_record" where
  "record_of t r =
     \<lparr>rr_revoke = revoked_link r, rr_path = rv_path r, rr_cause = rv_cause r,
      rr_recorded_at = t\<rparr>"

lemma record_of_simps [simp]:
  "rr_revoke (record_of t r) = revoked_link r"
  "rr_path (record_of t r) = rv_path r"
  "rr_cause (record_of t r) = rv_cause r"
  "rr_recorded_at (record_of t r) = t"
  by (simp_all add: record_of_def)

text \<open>The error both stores return for a revocation with no path.\<close>

definition empty_path_error :: "nat \<Rightarrow> error" where
  "empty_path_error i =
     Msg (''revocation at batch index '' @ show_nat i @
          '': revocation path must contain the revoked delegation'')"

section \<open>The contract of a revocation store\<close>

text \<open>A history of writes to a store, each with its context, its clock and its batch.\<close>

fun write_all ::
  "(error option \<Rightarrow> time \<Rightarrow> revocation list \<Rightarrow> 's \<Rightarrow> error option \<times> 's) \<Rightarrow>
     (error option \<times> time \<times> revocation list) list \<Rightarrow> 's \<Rightarrow> 's" where
  "write_all add [] s = s"
| "write_all add ((c, t, b) # ws) s = write_all add ws (snd (add c t b s))"

fun admissible_all ::
  "(revocation list \<Rightarrow> 's \<Rightarrow> bool) \<Rightarrow>
     (error option \<Rightarrow> time \<Rightarrow> revocation list \<Rightarrow> 's \<Rightarrow> error option \<times> 's) \<Rightarrow>
     (error option \<times> time \<times> revocation list) list \<Rightarrow> 's \<Rightarrow> bool" where
  "admissible_all adm add [] s = True"
| "admissible_all adm add ((c, t, b) # ws) s =
     (adm b s \<and> admissible_all adm add ws (snd (add c t b s)))"

lemma admissible_all_trivial [simp]: "admissible_all (\<lambda>_ _. True) add ws s"
  by (induction ws arbitrary: s) auto

text \<open>
  What the service relies on, whichever backend it was started with. \<open>invar\<close> is the
  backend's own invariant and \<open>admissible b s\<close> what it asks of a batch beyond that.
  The first argument of an operation is \<open>ctx.Err()\<close>, the second of \<open>add_batch\<close> the
  clock. After a successful write every delegation of the batch is revoked; no write ever un-revokes a delegation; and a record that is
  read back is about the delegation asked for and was put there by a write.
\<close>

locale revocation_store =
  fixes invar :: "'s \<Rightarrow> bool"
    and admissible :: "revocation list \<Rightarrow> 's \<Rightarrow> bool"
    and add_batch :: "error option \<Rightarrow> time \<Rightarrow> revocation list \<Rightarrow> 's \<Rightarrow> error option \<times> 's"
    and get :: "error option \<Rightarrow> cid \<Rightarrow> 's \<Rightarrow> revocation_record result"
  assumes add_invar:
      "invar s \<Longrightarrow> admissible b s \<Longrightarrow> invar (snd (add_batch c t b s))"
    and add_rejects:
      "r \<in> set b \<Longrightarrow> rv_path r = [] \<Longrightarrow> fst (add_batch c t b s) \<noteq> None"
    and add_canceled:
      "fst (add_batch (Some e) t b s) = Some e"
    and add_stored:
      "invar s \<Longrightarrow> admissible b s \<Longrightarrow> fst (add_batch c t b s) = None \<Longrightarrow> r \<in> set b \<Longrightarrow>
         \<exists>x. get None (revoked_link r) (snd (add_batch c t b s)) = Inr x"
    and add_keeps:
      "invar s \<Longrightarrow> admissible b s \<Longrightarrow> get None k s = Inr x \<Longrightarrow>
         \<exists>y. get None k (snd (add_batch c t b s)) = Inr y"
    and add_nothing_else:
      "invar s \<Longrightarrow> admissible b s \<Longrightarrow> get None k (snd (add_batch c t b s)) = Inr x \<Longrightarrow>
         get None k s = Inr x \<or> (\<exists>r \<in> set b. x = record_of t r \<and> revoked_link r = k)"
    and get_about:
      "invar s \<Longrightarrow> get None k s = Inr x \<Longrightarrow>
         rr_revoke x = k \<and> rr_path x \<noteq> [] \<and> dlg_link (last (rr_path x)) = k"
begin

lemma write_all_invar:
  "invar s \<Longrightarrow> admissible_all admissible add_batch ws s \<Longrightarrow> invar (write_all add_batch ws s)"
proof (induction ws arbitrary: s)
  case Nil
  then show ?case by simp
next
  case (Cons w ws)
  obtain c t b where w: "w = (c, t, b)" by (cases w)
  with Cons.prems have "invar (snd (add_batch c t b s))" by (auto intro: add_invar)
  with Cons w show ?case by simp
qed

lemma write_all_keeps:
  "invar s \<Longrightarrow> admissible_all admissible add_batch ws s \<Longrightarrow> get None k s = Inr x \<Longrightarrow>
     \<exists>y. get None k (write_all add_batch ws s) = Inr y"
proof (induction ws arbitrary: s x)
  case Nil
  then show ?case by simp
next
  case (Cons w ws)
  obtain c t b where w: "w = (c, t, b)" by (cases w)
  with Cons.prems have "admissible b s" by simp
  with Cons.prems obtain y where "get None k (snd (add_batch c t b s)) = Inr y"
    using add_keeps by blast
  with Cons.prems Cons.IH \<open>admissible b s\<close> w show ?case by (auto intro: add_invar)
qed

text \<open>Revocation is permanent: what a write stored, later writes keep revoked.\<close>

lemma stored_stays:
  assumes "invar s" "admissible b s" "fst (add_batch c t b s) = None" "r \<in> set b"
    and "admissible_all admissible add_batch ws (snd (add_batch c t b s))"
  shows "\<exists>y. get None (revoked_link r) (write_all add_batch ws (snd (add_batch c t b s))) = Inr y"
  using assms add_stored add_invar write_all_keeps by blast

text \<open>A record read from a store was there at the start or was written by one of its writes.\<close>

lemma read_was_written:
  "invar s \<Longrightarrow> admissible_all admissible add_batch ws s \<Longrightarrow>
     get None k (write_all add_batch ws s) = Inr x \<Longrightarrow>
     get None k s = Inr x \<or>
     (\<exists>(c, t, b) \<in> set ws. \<exists>r \<in> set b. x = record_of t r \<and> revoked_link r = k)"
proof (induction ws arbitrary: s)
  case Nil
  then show ?case by simp
next
  case (Cons w ws)
  obtain c t b where w: "w = (c, t, b)" by (cases w)
  with Cons.prems have "admissible b s" "invar (snd (add_batch c t b s))"
    by (auto intro: add_invar)
  with Cons w show ?case using add_nothing_else [of s b k c t x] by fastforce
qed

end

text \<open>
  A store whose failed writes change nothing. The in-memory store is one; a database
  can commit a write whose acknowledgement is lost, so the other one is not.
\<close>

locale atomic_store = revocation_store +
  assumes add_failed:
      "fst (add_batch c t b s) = Some e \<Longrightarrow> snd (add_batch c t b s) = s"
begin

text \<open>A retry after a failed write is the write itself.\<close>

lemma retry_after_failure:
  "fst (add_batch c t b s) = Some e \<Longrightarrow>
     write_all add_batch [(c, t, b), (c', t', b)] s = snd (add_batch c' t' b s)"
  by (simp add: add_failed)

end

text \<open>
  A store with a log of what it holds, in the order of the times of recording: what its
  streams bring.
\<close>

locale logged_store = revocation_store +
  fixes log :: "'s \<Rightarrow> revocation_record list"
  assumes get_in_log: "invar s \<Longrightarrow> get None k s = Inr x \<Longrightarrow> x \<in> set (log s)"
    and log_sorted: "invar s \<Longrightarrow> sorted (map rr_recorded_at (log s))"
begin

text \<open>A delegation that was stored is in the log of the store after any later writes.\<close>

lemma revoked_in_log:
  assumes "invar s" "get None k s = Inr x"
  shows "\<exists>r \<in> set (log s). rr_revoke r = k"
  using get_in_log [OF assms] get_about [OF assms] by blast

end

end
