(* ===== verification/Codec.thy ===== *)
theory Codec
  imports Ucan
begin

text \<open>
  The encodings the program borrows from the ucantone and go-cid libraries:
  \<open>invocation.Encode\<close> and \<open>Decode\<close>, \<open>delegation.Encode\<close> and \<open>Decode\<close>, and the text
  form of a CID. They are the fields of the record \<open>ucan_lib\<close>, a parameter of every
  definition that uses them; the locale \<open>ucan_codec\<close> says that they are inverse to
  each other. A concrete codec that keeps this promise closes the theory; the
  properties that assume the promise are evaluated with it.
\<close>

section \<open>The interface\<close>

record ucan_lib =
  encode_invocation :: "invocation \<Rightarrow> bytes result"
  decode_invocation :: "bytes \<Rightarrow> invocation result"
  encode_delegation :: "delegation \<Rightarrow> bytes result"
  decode_delegation :: "bytes \<Rightarrow> delegation result"
  cid_text :: "cid \<Rightarrow> string"
  cid_decode :: "string \<Rightarrow> cid result"

text \<open>\<open>cid.Undef\<close>, the CID of a field no input set, is the empty CID.\<close>

definition undef_cid :: cid where
  "undef_cid = Cid []"

locale ucan_codec =
  fixes ul :: ucan_lib
  assumes invocation_back:
      "encode_invocation ul v = Inr b \<Longrightarrow> decode_invocation ul b = Inr v"
    and delegation_back:
      "encode_delegation ul d = Inr b \<Longrightarrow> decode_delegation ul b = Inr d"
    and cid_back:
      "c \<noteq> undef_cid \<Longrightarrow> cid_decode ul (cid_text ul c) = Inr c"
    and cid_text_inject:
      "cid_text ul c1 = cid_text ul c2 \<Longrightarrow> c1 = c2"

text \<open>
  A path encoded or decoded entry by entry, the first failure reported with its index;
  \<open>delegation.Encode\<close> and \<open>Decode\<close> are called this way by both stores' clients.
\<close>

definition encode_path :: "ucan_lib \<Rightarrow> (nat \<Rightarrow> string) \<Rightarrow> delegation list \<Rightarrow> bytes list result" where
  "encode_path ul msg path =
     traverse 0 (\<lambda>j d. case encode_delegation ul d of Inl e \<Rightarrow> Inl (Wrap (msg j) e) | Inr w \<Rightarrow> Inr w) path"

definition decode_path :: "ucan_lib \<Rightarrow> bytes list \<Rightarrow> delegation list result" where
  "decode_path ul witnesses =
     traverse 0 (\<lambda>i b. case decode_delegation ul b of
         Inl e \<Rightarrow> Inl (Wrap (''decoding delegation at path index '' @ show_nat i) e)
       | Inr d \<Rightarrow> Inr d) witnesses"

lemma encode_path_length: "encode_path ul msg path = Inr ws \<Longrightarrow> length ws = length path"
  by (simp add: encode_path_def traverse_Inr_length)

context ucan_codec
begin

lemma cid_text_eq [simp]: "cid_text ul a = cid_text ul b \<longleftrightarrow> a = b"
  using cid_text_inject by auto

lemma path_back:
  assumes "encode_path ul msg path = Inr ws"
  shows "decode_path ul ws = Inr path"
proof -
  let ?enc = "\<lambda>d. case encode_delegation ul d of Inl e \<Rightarrow> None | Inr w \<Rightarrow> Some w"
  let ?dec = "\<lambda>b. case decode_delegation ul b of Inl e \<Rightarrow> None | Inr d \<Rightarrow> Some d"
  have enc: "map ?enc path = map Some ws"
    using assms unfolding encode_path_def
    by (subst (asm) traverse_lookup [where g = ?enc]) (auto split: sum.splits)
  have "map ?dec ws = map Some path"
    using enc
  proof (induction path arbitrary: ws)
    case Nil
    then show ?case by simp
  next
    case (Cons d path)
    then show ?case using delegation_back by (auto split: sum.splits)
  qed
  then show ?thesis
    unfolding decode_path_def
    by (subst traverse_lookup [where g = ?dec]) (auto split: sum.splits)
qed

end

section \<open>Base 16 and a concrete codec\<close>

definition hex_char :: "char \<Rightarrow> string" where
  "hex_char c = [char_of (65 + of_char c div 16 :: nat), char_of (65 + of_char c mod 16 :: nat)]"

definition unhex_pair :: "char \<Rightarrow> char \<Rightarrow> char" where
  "unhex_pair a b = char_of ((of_char a - 65) * 16 + (of_char b - 65) :: nat)"

fun hex :: "string \<Rightarrow> string" where
  "hex [] = ''.''"
| "hex (c # cs) = hex_char c @ hex cs"

fun unhex :: "string \<Rightarrow> (string \<times> string) option" where
  "unhex [] = None"
| "unhex (a # r) =
     (if a = CHR ''.'' then Some ([], r)
      else case r of
          [] \<Rightarrow> None
        | b # r' \<Rightarrow> (case unhex r' of None \<Rightarrow> None | Some (s, q) \<Rightarrow> Some (unhex_pair a b # s, q)))"

lemma unhex_pair_hex: "hex_char c = [a, b] \<Longrightarrow> unhex_pair a b = c \<and> a \<noteq> CHR ''.''"
proof -
  assume "hex_char c = [a, b]"
  moreover have c: "(of_char c :: nat) < 256" by simp
  moreover from c have "65 + (of_char c :: nat) div 16 < 256"
    using c div_le_mono [of "of_char c :: nat" 255 16] by linarith
  ultimately have "of_char a = 65 + (of_char c :: nat) div 16" "of_char b = 65 + (of_char c :: nat) mod 16"
    by (auto simp: hex_char_def of_char_of)
  then have "unhex_pair a b = char_of (of_char c :: nat)" "(of_char a :: nat) \<noteq> 46"
    by (simp_all add: unhex_pair_def mult.commute)
  then show ?thesis by auto
qed

lemma unhex_hex: "unhex (hex s @ r) = Some (s, r)"
proof (induction s)
  case Nil
  then show ?case by simp
next
  case (Cons c s)
  obtain a b where ab: "hex_char c = [a, b]" by (simp add: hex_char_def)
  with Cons unhex_pair_hex [OF ab] show ?case by simp
qed

lemma cid_cid_bytes: "Cid (cid_bytes c) = c"
  by (cases c) simp

definition did_text :: "did \<Rightarrow> string" where
  "did_text d = (case d of Undef \<Rightarrow> ''u'' | Did s \<Rightarrow> CHR ''d'' # hex s)"

definition take_did :: "string \<Rightarrow> (did \<times> string) option" where
  "take_did r =
     (case r of
        [] \<Rightarrow> None
      | c # q \<Rightarrow> if c = CHR ''u'' then Some (Undef, q)
                 else map_option (\<lambda>(s, q'). (Did s, q')) (unhex q))"

definition delegation_text :: "delegation \<Rightarrow> string" where
  "delegation_text d =
     hex (cid_bytes (dlg_link d)) @ did_text (dlg_issuer d) @ did_text (dlg_audience d) @
     did_text (dlg_subject d)"

definition invocation_text :: "invocation \<Rightarrow> string" where
  "invocation_text v =
     hex (cid_bytes (inv_link v)) @ hex (cid_bytes (inv_task v)) @ did_text (inv_issuer v) @
     hex (inv_command v)"

definition text_delegation :: "string \<Rightarrow> delegation option" where
  "text_delegation r =
     Option.bind (unhex r) (\<lambda>(l, r1). Option.bind (take_did r1) (\<lambda>(i, r2).
     Option.bind (take_did r2) (\<lambda>(a, r3). Option.bind (take_did r3) (\<lambda>(s, r4).
       Some \<lparr>dlg_link = Cid l, dlg_issuer = i, dlg_audience = a, dlg_subject = s\<rparr>))))"

definition text_invocation :: "string \<Rightarrow> invocation option" where
  "text_invocation r =
     Option.bind (unhex r) (\<lambda>(l, r1). Option.bind (unhex r1) (\<lambda>(t, r2).
     Option.bind (take_did r2) (\<lambda>(i, r3). Option.bind (unhex r3) (\<lambda>(c, r4).
       Some \<lparr>inv_link = Cid l, inv_task = Cid t, inv_issuer = i, inv_command = c\<rparr>))))"

definition or_malformed :: "'a option \<Rightarrow> 'a result" where
  "or_malformed x = (case x of None \<Rightarrow> Inl (Foreign ''malformed'') | Some v \<Rightarrow> Inr v)"

definition sample_ucan :: ucan_lib where
  "sample_ucan =
     \<lparr>encode_invocation = (\<lambda>v. Inr (invocation_text v)),
      decode_invocation = (\<lambda>b. or_malformed (text_invocation b)),
      encode_delegation = (\<lambda>d. Inr (delegation_text d)),
      decode_delegation = (\<lambda>b. or_malformed (text_delegation b)),
      cid_text = cid_bytes,
      cid_decode = (\<lambda>s. if s = [] then Inl (Foreign ''cid too short'') else Inr (Cid s))\<rparr>"

lemma take_did_text: "take_did (did_text d @ r) = Some (d, r)"
  by (cases d) (simp_all add: take_did_def did_text_def unhex_hex)

lemma text_delegation_text: "text_delegation (delegation_text d) = Some d"
  using take_did_text [where r = "[]"]
  by (simp add: text_delegation_def delegation_text_def unhex_hex take_did_text cid_cid_bytes)

lemma text_invocation_text: "text_invocation (invocation_text v) = Some v"
  using unhex_hex [where r = "[]"]
  by (simp add: text_invocation_def invocation_text_def unhex_hex take_did_text cid_cid_bytes)

interpretation sample_ucan: ucan_codec sample_ucan
proof (unfold_locales, goal_cases)
  case (3 c)
  then show ?case by (cases c) (simp add: sample_ucan_def undef_cid_def)
next
  case (4 a b)
  then show ?case by (simp add: sample_ucan_def)
qed (auto simp: sample_ucan_def or_malformed_def text_delegation_text text_invocation_text)

end
