(* ===== verification/Dag_Json.thy ===== *)
theory Dag_Json
  imports Codec
begin

text \<open>
  The DAG-JSON records of \<^verbatim>\<open>pkg/api\<close>: the two record types of \<^verbatim>\<open>types.go\<close> and their
  encoders and decoders in \<^verbatim>\<open>json_gen.go\<close>. The token writer and reader they drive are
  the dag-json-gen library, a parameter of the definitions: the record \<open>json_lib\<close> has
  one field per method the code calls. The locale \<open>dag_json\<close> states what the library
  documents (what was written is what is read), and the round trips are proved in it.
\<close>

section \<open>The library the code calls\<close>

text \<open>The tokens of the writer; \<open>TimeTok\<close> stands for \<open>DagJsonTime.MarshalDagJSON\<close>.\<close>

datatype jtok =
    ObjectOpen | ObjectClose | Colon | Comma | ArrayOpen | ArrayClose | NullTok
  | Str string | BytesTok bytes | CidTok cid | TimeTok time

type_synonym ('a, 'r) reading = "'r \<Rightarrow> ('a \<times> 'r) result"

record ('w, 'r) json_lib =
  new_writer :: 'w
  write_tok :: "jtok \<Rightarrow> 'w \<Rightarrow> 'w result"
  written_text :: "'w \<Rightarrow> bytes"
  open_reader :: "bytes \<Rightarrow> 'r"
  read_object_open :: "(unit, 'r) reading"
  peek_object_close :: "(bool, 'r) reading"
  read_object_close :: "(unit, 'r) reading"
  read_object_close_or_comma :: "(bool, 'r) reading"
  read_object_colon :: "(unit, 'r) reading"
  read_array_open :: "(unit, 'r) reading"
  peek_array_close :: "(bool, 'r) reading"
  read_array_close :: "(unit, 'r) reading"
  read_array_close_or_comma :: "(bool, 'r) reading"
  read_string_lim :: "nat \<Rightarrow> (string, 'r) reading"
  read_bytes_lim :: "nat \<Rightarrow> (bytes, 'r) reading"
  read_cid :: "(cid, 'r) reading"
  read_time :: "(time, 'r) reading"
  discard_type :: "(unit, 'r) reading"

fun write_tokens :: "('w, 'r) json_lib \<Rightarrow> jtok list \<Rightarrow> 'w \<Rightarrow> 'w result" where
  "write_tokens lib [] w = Inr w"
| "write_tokens lib (t # ts) w =
     (case write_tok lib t w of Inl e \<Rightarrow> Inl e | Inr w' \<Rightarrow> write_tokens lib ts w')"

text \<open>Sequencing of fallible reads, and rewording of their errors.\<close>

definition and_then :: "('a, 'r) reading \<Rightarrow> ('a \<Rightarrow> ('b, 'r) reading) \<Rightarrow> ('b, 'r) reading" where
  "and_then p q r = (case p r of Inl e \<Rightarrow> Inl e | Inr (v, r') \<Rightarrow> q v r')"

definition done_with :: "'a \<Rightarrow> ('a, 'r) reading" where
  "done_with v r = Inr (v, r)"

definition fail_with :: "error \<Rightarrow> ('a, 'r) reading" where
  "fail_with e r = Inl e"

definition rewording :: "(error \<Rightarrow> error) \<Rightarrow> ('a, 'r) reading \<Rightarrow> ('a, 'r) reading" where
  "rewording f p r = (case p r of Inl e \<Rightarrow> Inl (f e) | Inr x \<Rightarrow> Inr x)"

text \<open>\<open>if errors.Is(err, jsg.ErrLimitExceeded) { ... }\<close> of the generated readers.\<close>

definition limit_or :: "string \<Rightarrow> string \<Rightarrow> error \<Rightarrow> error" where
  "limit_or m big e = (if errors_is e LimitExceeded then Msg (m @ '': '' @ big) else Wrap m e)"

section \<open>The records\<close>

record api_revocation =
  ar_revoke :: cid
  ar_path :: "bytes list"
  ar_cause :: bytes
  ar_recorded_at :: time

record api_firehose =
  af_revoke :: cid
  af_path :: "cid list"
  af_cause :: cid
  af_recorded_at :: time

definition zero_revocation :: api_revocation where
  "zero_revocation =
     \<lparr>ar_revoke = undef_cid, ar_path = [], ar_cause = [], ar_recorded_at = 0\<rparr>"

definition zero_firehose :: api_firehose where
  "zero_firehose =
     \<lparr>af_revoke = undef_cid, af_path = [], af_cause = undef_cid, af_recorded_at = 0\<rparr>"

section \<open>Encoders\<close>

text \<open>
  An encoder is a sequence of steps: a token with the wrapping its error gets, or a
  length check with the error it returns.
\<close>

datatype jstep = Emit jtok "error \<Rightarrow> error" | Check bool error

fun run_steps :: "('w, 'r) json_lib \<Rightarrow> jstep list \<Rightarrow> 'w \<Rightarrow> 'w result" where
  "run_steps lib [] w = Inr w"
| "run_steps lib (Emit t f # ss) w =
     (case write_tok lib t w of Inl e \<Rightarrow> Inl (f e) | Inr w' \<Rightarrow> run_steps lib ss w')"
| "run_steps lib (Check ok e # ss) w = (if ok then run_steps lib ss w else Inl e)"

abbreviation plain :: "jtok \<Rightarrow> jstep" where
  "plain t \<equiv> Emit t (\<lambda>e. e)"

definition quoted :: "string \<Rightarrow> string" where
  "quoted s = CHR 0x22 # s @ [CHR 0x22]"

definition max_key :: nat where
  "max_key = 8192"

definition max_byte_array :: nat where
  "max_byte_array = 2097152"

definition key_steps :: "string \<Rightarrow> jstep list" where
  "key_steps key =
     [Check (length key \<le> max_key) (Msg (''string in field '' @ quoted key @ '' was too long'')),
      Emit (Str key) (Wrap (''writing string for field '' @ quoted key)),
      plain Colon]"

definition bytes_steps :: "string \<Rightarrow> bytes \<Rightarrow> jstep list" where
  "bytes_steps field b =
     [Check (length b \<le> max_byte_array) (Msg (''byte array in field '' @ field @ '' was too long'')),
      Emit (BytesTok b) (Wrap (''writing bytes for field '' @ field))]"

definition cid_steps :: "string \<Rightarrow> cid \<Rightarrow> jstep list" where
  "cid_steps field c = [Emit (CidTok c) (Wrap (''writing CID for field '' @ field))]"

fun item_steps :: "(string \<Rightarrow> 'a \<Rightarrow> jstep list) \<Rightarrow> nat \<Rightarrow> 'a list \<Rightarrow> jstep list" where
  "item_steps item i [] = []"
| "item_steps item i (v # vs) =
     (if i > 0 then [Emit Comma (Wrap ''writing comma for field t.Path'')] else []) @
     item ''v'' v @ item_steps item (Suc i) vs"

definition path_steps :: "(string \<Rightarrow> 'a \<Rightarrow> jstep list) \<Rightarrow> 'a list \<Rightarrow> jstep list" where
  "path_steps item path =
     key_steps ''path'' @
     [Check (length path \<le> max_key) (Msg ''slice value in field t.Path was too long''),
      Emit ArrayOpen (Wrap ''writing array open for field t.Path'')] @
     item_steps item 0 path @
     [Emit ArrayClose (Wrap ''writing array close for field t.Path'')]"

definition recorded_at_steps :: "time \<Rightarrow> jstep list" where
  "recorded_at_steps t =
     key_steps ''recorded_at'' @ [Emit (TimeTok t) (Wrap ''marshaling field t.RecordedAt'')]"

text \<open>A \<open>nil\<close> receiver is \<open>None\<close>.\<close>

definition marshal_revocation_steps :: "api_revocation option \<Rightarrow> jstep list" where
  "marshal_revocation_steps v =
     (case v of
        None \<Rightarrow> [plain NullTok]
      | Some t \<Rightarrow>
          [plain ObjectOpen] @
          key_steps ''cause'' @ bytes_steps ''t.Cause'' (ar_cause t) @ [plain Comma] @
          path_steps bytes_steps (ar_path t) @ [plain Comma] @
          recorded_at_steps (ar_recorded_at t) @ [plain Comma] @
          key_steps ''revoke'' @ cid_steps ''t.Revoke'' (ar_revoke t) @
          [plain ObjectClose])"

definition marshal_firehose_steps :: "api_firehose option \<Rightarrow> jstep list" where
  "marshal_firehose_steps v =
     (case v of
        None \<Rightarrow> [plain NullTok]
      | Some t \<Rightarrow>
          [plain ObjectOpen] @
          key_steps ''cause'' @ cid_steps ''t.Cause'' (af_cause t) @ [plain Comma] @
          path_steps cid_steps (af_path t) @ [plain Comma] @
          recorded_at_steps (af_recorded_at t) @ [plain Comma] @
          key_steps ''revoke'' @ cid_steps ''t.Revoke'' (af_revoke t) @
          [plain ObjectClose])"

definition marshal_with :: "('w, 'r) json_lib \<Rightarrow> jstep list \<Rightarrow> bytes result" where
  "marshal_with lib steps =
     (case run_steps lib steps (new_writer lib) of
        Inl e \<Rightarrow> Inl e | Inr w \<Rightarrow> Inr (written_text lib w))"

definition marshal_revocation :: "('w, 'r) json_lib \<Rightarrow> api_revocation \<Rightarrow> bytes result" where
  "marshal_revocation lib t = marshal_with lib (marshal_revocation_steps (Some t))"

definition marshal_firehose :: "('w, 'r) json_lib \<Rightarrow> api_firehose \<Rightarrow> bytes result" where
  "marshal_firehose lib t = marshal_with lib (marshal_firehose_steps (Some t))"

section \<open>Decoders\<close>

definition read_bytes_field :: "('w, 'r) json_lib \<Rightarrow> string \<Rightarrow> (bytes, 'r) reading" where
  "read_bytes_field lib field =
     rewording (limit_or (''reading bytes for field '' @ field) ''byte array too large'')
       (read_bytes_lim lib max_byte_array)"

definition read_cid_field :: "('w, 'r) json_lib \<Rightarrow> string \<Rightarrow> (cid, 'r) reading" where
  "read_cid_field lib field = rewording (Wrap (''reading CID for field '' @ field)) (read_cid lib)"

text \<open>The loop over the items of an array, \<open>n\<close> of which may still be read.\<close>

fun read_items ::
  "('w, 'r) json_lib \<Rightarrow> (string \<Rightarrow> ('a, 'r) reading) \<Rightarrow> nat \<Rightarrow> 'a list \<Rightarrow> ('a list, 'r) reading" where
  "read_items lib item n acc =
     (if n = 0 then done_with acc
      else and_then (item ''item[0]'') (\<lambda>v.
        and_then (rewording (Wrap ''reading array close or comma for field t.Path'')
                    (read_array_close_or_comma lib)) (\<lambda>close.
          if close then done_with (acc @ [v])
          else if n = 1 then fail_with (Msg ''reading array for field t.Path: slice too large'')
          else read_items lib item (n - 1) (acc @ [v]))))"

declare read_items.simps [simp del]

definition read_path ::
  "('w, 'r) json_lib \<Rightarrow> (string \<Rightarrow> ('a, 'r) reading) \<Rightarrow> 'a list \<Rightarrow> ('a list, 'r) reading" where
  "read_path lib item path =
     and_then (rewording (Wrap ''reading array open for field t.Path'') (read_array_open lib)) (\<lambda>_.
     and_then (rewording (Wrap ''peeking array close for field t.Path'') (peek_array_close lib)) (\<lambda>close.
       if close
       then and_then (rewording (Wrap ''reading array close for field t.Path'') (read_array_close lib))
              (\<lambda>_. done_with path)
       else read_items lib item max_key path))"

text \<open>The loop over the fields of an object, \<open>n\<close> of which may still be read.\<close>

fun read_fields ::
  "('w, 'r) json_lib \<Rightarrow> string \<Rightarrow> (string \<Rightarrow> 't \<Rightarrow> ('t, 'r) reading) \<Rightarrow> nat \<Rightarrow> 't \<Rightarrow> ('t, 'r) reading"
  where
  "read_fields lib type field n t =
     (if n = 0 then done_with t
      else and_then (rewording (limit_or (''reading string for field '' @ type) ''string too large'')
                       (read_string_lim lib max_key)) (\<lambda>name.
        and_then (rewording (Wrap (''reading object colon for field '' @ type))
                    (read_object_colon lib)) (\<lambda>_.
        and_then (field name t) (\<lambda>t'.
        and_then (rewording (Wrap (''reading object close or comma for field '' @ type))
                    (read_object_close_or_comma lib)) (\<lambda>close.
          if close then done_with t'
          else if n = 1 then fail_with (Msg (''map too large for '' @ type))
          else read_fields lib type field (n - 1) t')))))"

declare read_fields.simps [simp del]

definition read_record ::
  "('w, 'r) json_lib \<Rightarrow> string \<Rightarrow> (string \<Rightarrow> 't \<Rightarrow> ('t, 'r) reading) \<Rightarrow> 't \<Rightarrow> ('t, 'r) reading" where
  "read_record lib type field zero =
     and_then (rewording (Wrap (''reading object open for '' @ type)) (read_object_open lib)) (\<lambda>_.
     and_then (rewording (Wrap (''peeking object close for '' @ type)) (peek_object_close lib)) (\<lambda>close.
       if close
       then and_then (rewording (Wrap (''reading object close for '' @ type)) (read_object_close lib))
              (\<lambda>_. done_with zero)
       else read_fields lib type field max_key zero))"

definition ignore_field ::
  "('w, 'r) json_lib \<Rightarrow> string \<Rightarrow> string \<Rightarrow> 't \<Rightarrow> ('t, 'r) reading" where
  "ignore_field lib type name t =
     and_then (rewording (Wrap (''ignoring field '' @ name @ '' for '' @ type)) (discard_type lib))
       (\<lambda>_. done_with t)"

definition revocation_field ::
  "('w, 'r) json_lib \<Rightarrow> string \<Rightarrow> api_revocation \<Rightarrow> (api_revocation, 'r) reading" where
  "revocation_field lib name t =
     (if name = ''cause'' then
        and_then (read_bytes_field lib ''t.Cause'')
          (\<lambda>b. done_with (if b \<noteq> [] then t\<lparr>ar_cause := b\<rparr> else t))
      else if name = ''path'' then
        and_then (read_path lib (read_bytes_field lib) (ar_path t))
          (\<lambda>path. done_with (t\<lparr>ar_path := path\<rparr>))
      else if name = ''recorded_at'' then
        and_then (rewording (Wrap ''unmarshaling t.RecordedAt'') (read_time lib))
          (\<lambda>at. done_with (t\<lparr>ar_recorded_at := at\<rparr>))
      else if name = ''revoke'' then
        and_then (read_cid_field lib ''t.Revoke'') (\<lambda>c. done_with (t\<lparr>ar_revoke := c\<rparr>))
      else ignore_field lib ''Revocation'' name t)"

definition firehose_field ::
  "('w, 'r) json_lib \<Rightarrow> string \<Rightarrow> api_firehose \<Rightarrow> (api_firehose, 'r) reading" where
  "firehose_field lib name t =
     (if name = ''cause'' then
        and_then (read_cid_field lib ''t.Cause'') (\<lambda>c. done_with (t\<lparr>af_cause := c\<rparr>))
      else if name = ''path'' then
        and_then (read_path lib (read_cid_field lib) (af_path t))
          (\<lambda>path. done_with (t\<lparr>af_path := path\<rparr>))
      else if name = ''recorded_at'' then
        and_then (rewording (Wrap ''unmarshaling t.RecordedAt'') (read_time lib))
          (\<lambda>at. done_with (t\<lparr>af_recorded_at := at\<rparr>))
      else if name = ''revoke'' then
        and_then (read_cid_field lib ''t.Revoke'') (\<lambda>c. done_with (t\<lparr>af_revoke := c\<rparr>))
      else ignore_field lib ''FirehoseRevocation'' name t)"

definition unmarshal_revocation :: "('w, 'r) json_lib \<Rightarrow> bytes \<Rightarrow> api_revocation result" where
  "unmarshal_revocation lib doc =
     (case read_record lib ''Revocation'' (revocation_field lib) zero_revocation (open_reader lib doc) of
        Inl e \<Rightarrow> Inl e | Inr (t, _) \<Rightarrow> Inr t)"

definition unmarshal_firehose :: "('w, 'r) json_lib \<Rightarrow> bytes \<Rightarrow> api_firehose result" where
  "unmarshal_firehose lib doc =
     (case read_record lib ''FirehoseRevocation'' (firehose_field lib) zero_firehose (open_reader lib doc) of
        Inl e \<Rightarrow> Inl e | Inr (t, _) \<Rightarrow> Inr t)"


section \<open>The tokens of a record\<close>

fun steps_toks :: "jstep list \<Rightarrow> jtok list" where
  "steps_toks [] = []"
| "steps_toks (Emit t f # ss) = t # steps_toks ss"
| "steps_toks (Check ok e # ss) = steps_toks ss"

fun checks_pass :: "jstep list \<Rightarrow> bool" where
  "checks_pass [] = True"
| "checks_pass (Emit t f # ss) = checks_pass ss"
| "checks_pass (Check ok e # ss) = (ok \<and> checks_pass ss)"

lemma steps_toks_append [simp]: "steps_toks (ss @ ss') = steps_toks ss @ steps_toks ss'"
  by (induction ss rule: steps_toks.induct) auto

lemma checks_pass_append [simp]: "checks_pass (ss @ ss') \<longleftrightarrow> checks_pass ss \<and> checks_pass ss'"
  by (induction ss rule: checks_pass.induct) auto

lemma run_steps_Inr:
  "run_steps lib ss w = Inr w' \<longleftrightarrow> checks_pass ss \<and> write_tokens lib (steps_toks ss) w = Inr w'"
  by (induction lib ss w rule: run_steps.induct) (auto split: sum.splits)

fun items_toks :: "jtok list \<Rightarrow> jtok list" where
  "items_toks [] = [ArrayClose]"
| "items_toks (x # xs) = x # concat (map (\<lambda>y. [Comma, y]) xs) @ [ArrayClose]"

lemma items_toks_Cons2: "items_toks (x # y # xs) = x # Comma # items_toks (y # xs)"
  by simp

fun fields_toks :: "(string \<times> jtok list) list \<Rightarrow> jtok list" where
  "fields_toks [] = [ObjectClose]"
| "fields_toks [(k, ts)] = Str k # Colon # ts @ [ObjectClose]"
| "fields_toks ((k, ts) # f # fs) = Str k # Colon # ts @ Comma # fields_toks (f # fs)"

definition path_toks :: "('a \<Rightarrow> jtok) \<Rightarrow> 'a list \<Rightarrow> jtok list" where
  "path_toks f xs = ArrayOpen # items_toks (map f xs)"

lemma key_steps_toks [simp]:
  "steps_toks (key_steps k) = [Str k, Colon]" "checks_pass (key_steps k) \<longleftrightarrow> length k \<le> max_key"
  by (simp_all add: key_steps_def)

lemma value_steps_toks [simp]:
  "steps_toks (bytes_steps f b) = [BytesTok b]"
  "checks_pass (bytes_steps f b) \<longleftrightarrow> length b \<le> max_byte_array"
  "steps_toks (cid_steps f c) = [CidTok c]" "checks_pass (cid_steps f c)"
  by (simp_all add: bytes_steps_def cid_steps_def)

lemma item_steps_toks:
  assumes "\<And>fl v. steps_toks (item fl v) = [f v]"
  shows "steps_toks (item_steps item (Suc i) vs) = concat (map (\<lambda>v. [Comma, f v]) vs)"
  by (induction vs arbitrary: i) (simp_all add: assms)

lemma checks_pass_item_steps:
  "checks_pass (item_steps item i vs) \<longleftrightarrow> (\<forall>v \<in> set vs. checks_pass (item ''v'' v))"
  by (induction item i vs rule: item_steps.induct) auto

lemma path_steps_toks:
  assumes "\<And>fl v. steps_toks (item fl v) = [f v]"
  shows "steps_toks (path_steps item vs) = Str ''path'' # Colon # path_toks f vs"
proof (cases vs)
  case Nil
  then show ?thesis by (simp add: path_steps_def path_toks_def)
next
  case (Cons v vs')
  then show ?thesis
    by (simp add: path_steps_def path_toks_def assms item_steps_toks [OF assms] comp_def)
qed

lemma checks_pass_path_steps:
  "checks_pass (path_steps item vs) \<longleftrightarrow>
     length vs \<le> max_key \<and> (\<forall>v \<in> set vs. checks_pass (item ''v'' v))"
  by (auto simp: path_steps_def checks_pass_item_steps max_key_def)

text \<open>The four fields of each record, as the decoders read them.\<close>

datatype field_key = CauseKey | PathKey | RecordedAtKey | RevokeKey

primrec key_name :: "field_key \<Rightarrow> string" where
  "key_name CauseKey = ''cause''"
| "key_name PathKey = ''path''"
| "key_name RecordedAtKey = ''recorded_at''"
| "key_name RevokeKey = ''revoke''"

primrec revocation_value :: "api_revocation \<Rightarrow> field_key \<Rightarrow> jtok list" where
  "revocation_value t CauseKey = [BytesTok (ar_cause t)]"
| "revocation_value t PathKey = path_toks BytesTok (ar_path t)"
| "revocation_value t RecordedAtKey = [TimeTok (ar_recorded_at t)]"
| "revocation_value t RevokeKey = [CidTok (ar_revoke t)]"

primrec firehose_value :: "api_firehose \<Rightarrow> field_key \<Rightarrow> jtok list" where
  "firehose_value t CauseKey = [CidTok (af_cause t)]"
| "firehose_value t PathKey = path_toks CidTok (af_path t)"
| "firehose_value t RecordedAtKey = [TimeTok (af_recorded_at t)]"
| "firehose_value t RevokeKey = [CidTok (af_revoke t)]"

definition object_toks :: "(field_key \<Rightarrow> jtok list) \<Rightarrow> field_key list \<Rightarrow> jtok list" where
  "object_toks val ks = ObjectOpen # fields_toks (map (\<lambda>k. (key_name k, val k)) ks)"

definition written_order :: "field_key list" where
  "written_order = [CauseKey, PathKey, RecordedAtKey, RevokeKey]"

lemma marshal_revocation_toks:
  "steps_toks (marshal_revocation_steps (Some t)) = object_toks (revocation_value t) written_order"
  "checks_pass (marshal_revocation_steps (Some t)) \<longleftrightarrow>
     length (ar_cause t) \<le> max_byte_array \<and> length (ar_path t) \<le> max_key \<and>
     (\<forall>b \<in> set (ar_path t). length b \<le> max_byte_array)"
  by (simp_all add: marshal_revocation_steps_def object_toks_def written_order_def
      path_steps_toks [where f = BytesTok] recorded_at_steps_def checks_pass_path_steps max_key_def)

lemma marshal_firehose_toks:
  "steps_toks (marshal_firehose_steps (Some t)) = object_toks (firehose_value t) written_order"
  "checks_pass (marshal_firehose_steps (Some t)) \<longleftrightarrow> length (af_path t) \<le> max_key"
  by (simp_all add: marshal_firehose_steps_def object_toks_def written_order_def
      path_steps_toks [where f = CidTok] recorded_at_steps_def checks_pass_path_steps max_key_def)

section \<open>What the library promises\<close>

definition key_text :: "string \<Rightarrow> bool" where
  "key_text s \<longleftrightarrow> list_all (\<lambda>c. c \<in> set ''abcdefghijklmnopqrstuvwxyz_'') s"

primrec scalar :: "jtok \<Rightarrow> bool" where
  "scalar ObjectOpen = False"
| "scalar ObjectClose = False"
| "scalar Colon = False"
| "scalar Comma = False"
| "scalar ArrayOpen = False"
| "scalar ArrayClose = False"
| "scalar NullTok = True"
| "scalar (Str s) = True"
| "scalar (BytesTok b) = True"
| "scalar (CidTok c) = True"
| "scalar (TimeTok t) = True"

text \<open>
  \<open>accepts t\<close>: the format can represent the token (a time or a CID may be out of its
  range). \<open>holds r ts\<close>: the reader's remaining input is a writing of the tokens \<open>ts\<close>.
  The law \<open>reads_back\<close> joins the two ends, the others say what each read does.
\<close>

locale dag_json =
  fixes lib :: "('w, 'r) json_lib"
    and accepts :: "jtok \<Rightarrow> bool"
    and holds :: "'r \<Rightarrow> jtok list \<Rightarrow> bool"
  assumes accepts_plain: "(\<nexists>c. t = CidTok c) \<Longrightarrow> (\<nexists>x. t = TimeTok x) \<Longrightarrow> (\<nexists>s. t = Str s) \<Longrightarrow> accepts t"
    and accepts_key: "key_text k \<Longrightarrow> accepts (Str k)"
    and reads_back:
      "list_all accepts ts \<Longrightarrow> write_tokens lib ts (new_writer lib) = Inr w \<Longrightarrow>
         holds (open_reader lib (written_text lib w)) ts"
    and object_open:
      "holds r (ObjectOpen # ts) \<Longrightarrow> \<exists>r'. read_object_open lib r = Inr ((), r') \<and> holds r' ts"
    and object_peek:
      "holds r (t # ts) \<Longrightarrow>
         \<exists>r'. peek_object_close lib r = Inr (t = ObjectClose, r') \<and> holds r' (t # ts)"
    and object_close:
      "holds r (ObjectClose # ts) \<Longrightarrow> \<exists>r'. read_object_close lib r = Inr ((), r') \<and> holds r' ts"
    and object_close_or_comma:
      "t \<in> {ObjectClose, Comma} \<Longrightarrow> holds r (t # ts) \<Longrightarrow>
         \<exists>r'. read_object_close_or_comma lib r = Inr (t = ObjectClose, r') \<and> holds r' ts"
    and object_colon:
      "holds r (Colon # ts) \<Longrightarrow> \<exists>r'. read_object_colon lib r = Inr ((), r') \<and> holds r' ts"
    and array_open:
      "holds r (ArrayOpen # ts) \<Longrightarrow> \<exists>r'. read_array_open lib r = Inr ((), r') \<and> holds r' ts"
    and array_peek:
      "holds r (t # ts) \<Longrightarrow>
         \<exists>r'. peek_array_close lib r = Inr (t = ArrayClose, r') \<and> holds r' (t # ts)"
    and array_close:
      "holds r (ArrayClose # ts) \<Longrightarrow> \<exists>r'. read_array_close lib r = Inr ((), r') \<and> holds r' ts"
    and array_close_or_comma:
      "t \<in> {ArrayClose, Comma} \<Longrightarrow> holds r (t # ts) \<Longrightarrow>
         \<exists>r'. read_array_close_or_comma lib r = Inr (t = ArrayClose, r') \<and> holds r' ts"
    and string_value:
      "holds r (Str s # ts) \<Longrightarrow> length s \<le> n \<Longrightarrow>
         \<exists>r'. read_string_lim lib n r = Inr (s, r') \<and> holds r' ts"
    and bytes_value:
      "holds r (BytesTok b # ts) \<Longrightarrow> length b \<le> n \<Longrightarrow>
         \<exists>r'. read_bytes_lim lib n r = Inr (b, r') \<and> holds r' ts"
    and cid_value:
      "holds r (CidTok c # ts) \<Longrightarrow> \<exists>r'. read_cid lib r = Inr (c, r') \<and> holds r' ts"
    and time_value:
      "holds r (TimeTok x # ts) \<Longrightarrow> \<exists>r'. read_time lib r = Inr (x, r') \<and> holds r' ts"
    and discard:
      "scalar t \<Longrightarrow> holds r (t # ts) \<Longrightarrow> \<exists>r'. discard_type lib r = Inr ((), r') \<and> holds r' ts"
begin

text \<open>A read that consumes the tokens \<open>ts\<close> and yields \<open>v\<close>, whatever follows them.\<close>

definition reads :: "('a, 'r) reading \<Rightarrow> jtok list \<Rightarrow> 'a \<Rightarrow> bool" where
  "reads p ts v \<longleftrightarrow>
     (\<forall>r rest. holds r (ts @ rest) \<longrightarrow> (\<exists>r'. p r = Inr (v, r') \<and> holds r' rest))"

lemma reads_then:
  "reads p ts v \<Longrightarrow> reads (q v) us w \<Longrightarrow> reads (and_then p q) (ts @ us) w"
  unfolding reads_def and_then_def by fastforce

lemma reads_done: "reads (done_with v) [] v"
  by (simp add: reads_def done_with_def)

lemma reads_then_done: "reads p ts v \<Longrightarrow> reads (and_then p (\<lambda>x. done_with (f x))) ts (f v)"
  by (metis append_Nil2 reads_done reads_then)

lemma reads_rewording: "reads p ts v \<Longrightarrow> reads (rewording f p) ts v"
  unfolding reads_def rewording_def by fastforce

lemma reads_then_tok:
  "reads p [t] v \<Longrightarrow> reads (q v) us w \<Longrightarrow> reads (and_then (rewording f p) q) (t # us) w"
  using reads_then [OF reads_rewording, of p "[t]" v q us w f] by simp

lemma reads_tokens:
  "reads (read_object_open lib) [ObjectOpen] ()"
  "reads (read_object_close lib) [ObjectClose] ()"
  "reads (read_object_close_or_comma lib) [ObjectClose] True"
  "reads (read_object_close_or_comma lib) [Comma] False"
  "reads (read_object_colon lib) [Colon] ()"
  "reads (read_array_open lib) [ArrayOpen] ()"
  "reads (read_array_close lib) [ArrayClose] ()"
  "reads (read_array_close_or_comma lib) [ArrayClose] True"
  "reads (read_array_close_or_comma lib) [Comma] False"
  "length s \<le> n \<Longrightarrow> reads (read_string_lim lib n) [Str s] s"
  "length b \<le> n \<Longrightarrow> reads (read_bytes_lim lib n) [BytesTok b] b"
  "reads (read_cid lib) [CidTok c] c"
  "reads (read_time lib) [TimeTok x] x"
  "scalar t \<Longrightarrow> reads (discard_type lib) [t] ()"
  unfolding reads_def
  using object_open object_close object_close_or_comma [of ObjectClose]
    object_close_or_comma [of Comma] object_colon array_open array_close
    array_close_or_comma [of ArrayClose] array_close_or_comma [of Comma] string_value bytes_value
    cid_value time_value discard
  by simp_all

lemma reads_peek:
  "reads (q (t = ObjectClose)) (t # us) w \<Longrightarrow>
     reads (and_then (rewording f (peek_object_close lib)) q) (t # us) w"
  "reads (q (t = ArrayClose)) (t # us) w \<Longrightarrow>
     reads (and_then (rewording f (peek_array_close lib)) q) (t # us) w"
  unfolding reads_def and_then_def rewording_def
  using object_peek array_peek by (fastforce split: sum.splits)+

lemma reads_items:
  assumes "xs \<noteq> []" "length xs \<le> n" "\<And>x fl. x \<in> set xs \<Longrightarrow> reads (item fl) [f x] x"
  shows "reads (read_items lib item n acc) (items_toks (map f xs)) (acc @ xs)"
  using assms
proof (induction xs arbitrary: n acc)
  case Nil
  then show ?case by simp
next
  case (Cons x xs)
  have x: "reads (item fl) [f x] x" for fl using Cons.prems by simp
  have n: "n \<noteq> 0" using Cons.prems by auto
  show ?case
  proof (cases xs)
    case Nil
    have "reads (read_items lib item n acc) ([f x] @ ArrayClose # []) (acc @ [x])"
      unfolding read_items.simps [of lib item n] if_not_P [OF n]
      by (intro reads_then [OF x] reads_then_tok [OF reads_tokens(8)]) (simp add: reads_done)
    with Nil show ?thesis by simp
  next
    case (Cons y ys)
    have "reads (read_items lib item (n - 1) (acc @ [x])) (items_toks (map f xs)) ((acc @ [x]) @ xs)"
      using Cons Cons.prems by (intro Cons.IH) auto
    then have "reads (read_items lib item n acc) ([f x] @ Comma # items_toks (map f xs)) (acc @ x # xs)"
      unfolding read_items.simps [of lib item n] if_not_P [OF n]
      by (intro reads_then [OF x] reads_then_tok [OF reads_tokens(9)])
        (use Cons Cons.prems(2) in auto)
    then show ?thesis using Cons by simp
  qed
qed

lemma reads_path:
  assumes "length xs \<le> max_key" "\<And>x fl. x \<in> set xs \<Longrightarrow> reads (item fl) [f x] x"
    and "\<And>x. f x \<noteq> ArrayClose"
  shows "reads (read_path lib item acc) (path_toks f xs) (acc @ xs)"
proof (cases xs)
  case Nil
  then show ?thesis
    unfolding read_path_def path_toks_def
    by (auto intro!: reads_then_tok [OF reads_tokens(6)] reads_peek(2)
        reads_then_tok [OF reads_tokens(7)] simp: reads_done)
next
  case (Cons y ys)
  then have toks: "items_toks (map f xs) = f y # tl (items_toks (map f xs))" by simp
  have "reads (if f y = ArrayClose
      then and_then (rewording (Wrap ''reading array close for field t.Path'') (read_array_close lib))
             (\<lambda>_. done_with acc)
      else read_items lib item max_key acc) (items_toks (map f xs)) (acc @ xs)"
    using assms reads_items [of xs max_key item f acc] Cons by simp
  then show ?thesis
    unfolding read_path_def path_toks_def
    by (subst (asm) toks, subst toks)
      (intro reads_then_tok [OF reads_tokens(6)] reads_peek(2), simp)
qed

text \<open>An object with the fields \<open>ks\<close>, in that order, whose readers apply the updates \<open>upd\<close>.\<close>

lemma reads_fields:
  assumes "ks \<noteq> []" "length ks \<le> n"
    and "\<And>k t. k \<in> set ks \<Longrightarrow> length (nm k) \<le> max_key \<and> reads (field (nm k) t) (val k) (upd k t)"
  shows "reads (read_fields lib type field n t)
           (fields_toks (map (\<lambda>k. (nm k, val k)) ks)) (fold upd ks t)"
  using assms
proof (induction ks arbitrary: n t)
  case Nil
  then show ?case by simp
next
  case (Cons k ks)
  have k: "length (nm k) \<le> max_key" "reads (field (nm k) t) (val k) (upd k t)"
    using Cons.prems by auto
  have n: "n \<noteq> 0" using Cons.prems by auto
  note head = reads_then_tok [OF reads_tokens(10) [OF k(1)]] reads_then_tok [OF reads_tokens(5)]
    reads_then [OF k(2)]
  show ?case
  proof (cases ks)
    case Nil
    have "reads (read_fields lib type field n t) (Str (nm k) # Colon # val k @ [ObjectClose]) (upd k t)"
      unfolding read_fields.simps [of lib type field n] if_not_P [OF n]
      by (intro head reads_then_tok [OF reads_tokens(3)]) (simp add: reads_done)
    with Nil show ?thesis by simp
  next
    case (Cons k' ks')
    let ?rest = "fields_toks (map (\<lambda>k. (nm k, val k)) ks)"
    have "reads (read_fields lib type field (n - 1) (upd k t)) ?rest (fold upd ks (upd k t))"
      using Cons Cons.prems by (intro Cons.IH) auto
    moreover have "n \<noteq> 1" using Cons Cons.prems(2) by auto
    ultimately have "reads (read_fields lib type field n t)
        (Str (nm k) # Colon # val k @ Comma # ?rest) (fold upd ks (upd k t))"
      unfolding read_fields.simps [of lib type field n] if_not_P [OF n]
      by (intro head reads_then_tok [OF reads_tokens(4)]) simp
    with Cons show ?thesis by simp
  qed
qed

lemma reads_record:
  assumes "length ks \<le> max_key"
    and "\<And>k t. k \<in> set ks \<Longrightarrow> length (nm k) \<le> max_key \<and> reads (field (nm k) t) (val k) (upd k t)"
  shows "reads (read_record lib type field zero)
           (ObjectOpen # fields_toks (map (\<lambda>k. (nm k, val k)) ks)) (fold upd ks zero)"
proof (cases ks)
  case Nil
  then show ?thesis
    unfolding read_record_def
    by (auto intro!: reads_then_tok [OF reads_tokens(1)] reads_peek(1)
        reads_then_tok [OF reads_tokens(2)] simp: reads_done)
next
  case (Cons k ks')
  let ?toks = "fields_toks (map (\<lambda>k. (nm k, val k)) ks)"
  have toks: "?toks = Str (nm k) # tl ?toks" using Cons by (cases ks') simp_all
  have fields: "reads (read_fields lib type field max_key zero) ?toks (fold upd ks zero)"
    using Cons assms by (intro reads_fields) auto
  show ?thesis
    unfolding read_record_def
    by (subst toks) (intro reads_then_tok [OF reads_tokens(1)] reads_peek(1),
        use fields in \<open>simp flip: toks\<close>)
qed

lemma reads_cid_field: "reads (read_cid_field lib f) [CidTok c] c"
  unfolding read_cid_field_def by (intro reads_rewording reads_tokens)

lemma reads_bytes_field: "length b \<le> max_byte_array \<Longrightarrow> reads (read_bytes_field lib f) [BytesTok b] b"
  unfolding read_bytes_field_def by (intro reads_rewording reads_tokens)

lemma reads_ignored:
  "scalar x \<Longrightarrow> reads (ignore_field lib type name t) [x] t"
  unfolding ignore_field_def
  by (rule reads_then_done [where f = "\<lambda>_. t", OF reads_rewording [OF reads_tokens(14)]])

end

text \<open>What reading a field does to the record read so far; a path is appended.\<close>

primrec set_revocation :: "api_revocation \<Rightarrow> field_key \<Rightarrow> api_revocation \<Rightarrow> api_revocation" where
  "set_revocation v CauseKey t = (if ar_cause v \<noteq> [] then t\<lparr>ar_cause := ar_cause v\<rparr> else t)"
| "set_revocation v PathKey t = t\<lparr>ar_path := ar_path t @ ar_path v\<rparr>"
| "set_revocation v RecordedAtKey t = t\<lparr>ar_recorded_at := ar_recorded_at v\<rparr>"
| "set_revocation v RevokeKey t = t\<lparr>ar_revoke := ar_revoke v\<rparr>"

primrec set_firehose :: "api_firehose \<Rightarrow> field_key \<Rightarrow> api_firehose \<Rightarrow> api_firehose" where
  "set_firehose v CauseKey t = t\<lparr>af_cause := af_cause v\<rparr>"
| "set_firehose v PathKey t = t\<lparr>af_path := af_path t @ af_path v\<rparr>"
| "set_firehose v RecordedAtKey t = t\<lparr>af_recorded_at := af_recorded_at v\<rparr>"
| "set_firehose v RevokeKey t = t\<lparr>af_revoke := af_revoke v\<rparr>"

definition within_limits :: "api_revocation \<Rightarrow> bool" where
  "within_limits t \<longleftrightarrow>
     length (ar_cause t) \<le> max_byte_array \<and> length (ar_path t) \<le> max_key \<and>
     (\<forall>b \<in> set (ar_path t). length b \<le> max_byte_array)"

text \<open>
  An object as some other encoder may write it: known fields in any order, and unknown
  ones with scalar values.
\<close>

type_synonym entry = "field_key + string \<times> jtok"

definition entry_name :: "entry \<Rightarrow> string" where
  "entry_name e = (case e of Inl k \<Rightarrow> key_name k | Inr (s, _) \<Rightarrow> s)"

definition entry_value :: "(field_key \<Rightarrow> jtok list) \<Rightarrow> entry \<Rightarrow> jtok list" where
  "entry_value val e = (case e of Inl k \<Rightarrow> val k | Inr (_, t) \<Rightarrow> [t])"

definition entry_effect :: "(field_key \<Rightarrow> 't \<Rightarrow> 't) \<Rightarrow> entry \<Rightarrow> 't \<Rightarrow> 't" where
  "entry_effect eff e = (case e of Inl k \<Rightarrow> eff k | Inr _ \<Rightarrow> (\<lambda>t. t))"

definition entry_ok :: "entry \<Rightarrow> bool" where
  "entry_ok e \<longleftrightarrow> (case e of Inl k \<Rightarrow> True
     | Inr (s, t) \<Rightarrow> s \<notin> {''cause'', ''path'', ''recorded_at'', ''revoke''} \<and>
         length s \<le> max_key \<and> scalar t)"

fun known_keys :: "entry list \<Rightarrow> field_key list" where
  "known_keys [] = []"
| "known_keys (Inl k # es) = k # known_keys es"
| "known_keys (Inr u # es) = known_keys es"

definition entries_toks :: "(field_key \<Rightarrow> jtok list) \<Rightarrow> entry list \<Rightarrow> jtok list" where
  "entries_toks val es = ObjectOpen # fields_toks (map (\<lambda>e. (entry_name e, entry_value val e)) es)"

lemma fold_entries: "fold (entry_effect eff) es t = fold eff (known_keys es) t"
  by (induction es arbitrary: t rule: known_keys.induct) (auto simp: entry_effect_def)

lemma object_toks_entries: "object_toks val ks = entries_toks val (map Inl ks)"
  by (simp add: object_toks_def entries_toks_def entry_name_def entry_value_def comp_def)

lemma known_keys_Inl [simp]: "known_keys (map Inl ks) = ks"
  by (induction ks) auto

lemma key_name_length: "length (key_name k) \<le> max_key"
  by (cases k) (simp_all add: max_key_def)

lemma fold_set_revocation:
  "distinct ks \<Longrightarrow> fold (set_revocation v) ks zero_revocation =
     \<lparr>ar_revoke = if RevokeKey \<in> set ks then ar_revoke v else undef_cid,
      ar_path = if PathKey \<in> set ks then ar_path v else [],
      ar_cause = if CauseKey \<in> set ks then ar_cause v else [],
      ar_recorded_at = if RecordedAtKey \<in> set ks then ar_recorded_at v else 0\<rparr>"
proof (induction ks rule: rev_induct)
  case Nil
  then show ?case by (simp add: zero_revocation_def)
next
  case (snoc k ks)
  then show ?case by (cases k) auto
qed

lemma fold_set_firehose:
  "distinct ks \<Longrightarrow> fold (set_firehose v) ks zero_firehose =
     \<lparr>af_revoke = if RevokeKey \<in> set ks then af_revoke v else undef_cid,
      af_path = if PathKey \<in> set ks then af_path v else [],
      af_cause = if CauseKey \<in> set ks then af_cause v else undef_cid,
      af_recorded_at = if RecordedAtKey \<in> set ks then af_recorded_at v else 0\<rparr>"
proof (induction ks rule: rev_induct)
  case Nil
  then show ?case by (simp add: zero_firehose_def)
next
  case (snoc k ks)
  then show ?case by (cases k) auto
qed

lemma all_keys: "UNIV = {CauseKey, PathKey, RecordedAtKey, RevokeKey}"
  by (auto intro: field_key.exhaust)

lemma written_order_complete: "distinct written_order" "set written_order = UNIV"
  by (simp_all add: written_order_def all_keys)

lemma key_text_names: "key_text (key_name k)"
  by (cases k) (simp_all add: key_text_def)

context dag_json
begin

lemma reads_revocation_entry:
  assumes "entry_ok e" "within_limits v"
  shows "reads (revocation_field lib (entry_name e) t) (entry_value (revocation_value v) e)
           (entry_effect (set_revocation v) e t)"
proof (cases e)
  case (Inl k)
  have bytes: "reads (read_bytes_field lib f) [BytesTok (ar_cause v)] (ar_cause v)" for f
    using assms(2) by (intro reads_bytes_field) (simp add: within_limits_def)
  have path: "reads (read_path lib (read_bytes_field lib) (ar_path t)) (path_toks BytesTok (ar_path v))
      (ar_path t @ ar_path v)"
    using assms(2) by (intro reads_path reads_bytes_field) (simp_all add: within_limits_def)
  have time: "reads (rewording f (read_time lib)) [TimeTok x] x" for f x
    by (intro reads_rewording reads_tokens)
  show ?thesis
    using Inl reads_then_done [OF bytes, where f = "\<lambda>b. if b \<noteq> [] then t\<lparr>ar_cause := b\<rparr> else t"]
      reads_then_done [OF path] reads_then_done [OF time] reads_then_done [OF reads_cid_field]
    by (cases k) (simp_all add: revocation_field_def entry_name_def entry_value_def entry_effect_def)
next
  case (Inr u)
  then show ?thesis
    using assms(1) reads_ignored
    by (auto simp: revocation_field_def entry_name_def entry_value_def entry_effect_def entry_ok_def)
qed

lemma reads_firehose_entry:
  assumes "entry_ok e" "length (af_path v) \<le> max_key"
  shows "reads (firehose_field lib (entry_name e) t) (entry_value (firehose_value v) e)
           (entry_effect (set_firehose v) e t)"
proof (cases e)
  case (Inl k)
  have path: "reads (read_path lib (read_cid_field lib) (af_path t)) (path_toks CidTok (af_path v))
      (af_path t @ af_path v)"
    using assms(2) by (intro reads_path reads_cid_field) simp_all
  have time: "reads (rewording f (read_time lib)) [TimeTok x] x" for f x
    by (intro reads_rewording reads_tokens)
  show ?thesis
    using Inl reads_then_done [OF path] reads_then_done [OF time] reads_then_done [OF reads_cid_field]
    by (cases k) (simp_all add: firehose_field_def entry_name_def entry_value_def entry_effect_def)
next
  case (Inr u)
  then show ?thesis
    using assms(1) reads_ignored
    by (auto simp: firehose_field_def entry_name_def entry_value_def entry_effect_def entry_ok_def)
qed

lemma entry_name_length: "entry_ok e \<Longrightarrow> length (entry_name e) \<le> max_key"
  using key_name_length by (auto simp: entry_name_def entry_ok_def split: sum.splits)

lemma read_document:
  assumes "reads p ts v" "holds r ts"
  shows "\<exists>r'. p r = Inr (v, r')"
  using assms unfolding reads_def by (metis append_Nil2)

lemma unmarshal_revocation_entries:
  assumes "holds (open_reader lib doc) (entries_toks (revocation_value v) es)"
    and "length es \<le> max_key" "\<forall>e \<in> set es. entry_ok e" "within_limits v"
  shows "unmarshal_revocation lib doc = Inr (fold (set_revocation v) (known_keys es) zero_revocation)"
proof -
  have "reads (read_record lib ''Revocation'' (revocation_field lib) zero_revocation)
      (entries_toks (revocation_value v) es)
      (fold (entry_effect (set_revocation v)) es zero_revocation)"
    unfolding entries_toks_def using assms
    by (intro reads_record) (auto intro: entry_name_length reads_revocation_entry)
  from read_document [OF this assms(1)] show ?thesis
    by (auto simp: unmarshal_revocation_def fold_entries)
qed

lemma unmarshal_firehose_entries:
  assumes "holds (open_reader lib doc) (entries_toks (firehose_value v) es)"
    and "length es \<le> max_key" "\<forall>e \<in> set es. entry_ok e" "length (af_path v) \<le> max_key"
  shows "unmarshal_firehose lib doc = Inr (fold (set_firehose v) (known_keys es) zero_firehose)"
proof -
  have "reads (read_record lib ''FirehoseRevocation'' (firehose_field lib) zero_firehose)
      (entries_toks (firehose_value v) es)
      (fold (entry_effect (set_firehose v)) es zero_firehose)"
    unfolding entries_toks_def using assms
    by (intro reads_record) (auto intro: entry_name_length reads_firehose_entry)
  from read_document [OF this assms(1)] show ?thesis
    by (auto simp: unmarshal_firehose_def fold_entries)
qed

lemma accepts_keys: "accepts (Str (key_name k))"
  by (intro accepts_key key_text_names)

lemma accepts_items: "list_all accepts (items_toks ts) \<longleftrightarrow> list_all accepts ts"
proof -
  have "accepts Comma" "accepts ArrayClose" by (simp_all add: accepts_plain)
  then have "list_all accepts (concat (map (\<lambda>y. [Comma, y]) ts)) \<longleftrightarrow> list_all accepts ts" for ts
    by (induction ts) auto
  with \<open>accepts ArrayClose\<close> show ?thesis by (cases ts) auto
qed

lemma accepts_path: "list_all accepts (path_toks f xs) \<longleftrightarrow> list_all (\<lambda>x. accepts (f x)) xs"
  by (simp add: path_toks_def accepts_items accepts_plain list.pred_map comp_def)

lemma accepts_fields:
  assumes "\<And>k. k \<in> set ks \<Longrightarrow> list_all accepts (val k)"
  shows "list_all accepts (object_toks val ks)"
proof -
  have punct: "accepts Comma" "accepts ObjectClose" "accepts ObjectOpen" "accepts Colon"
    by (simp_all add: accepts_plain)
  have "list_all accepts (fields_toks (map (\<lambda>k. (key_name k, val k)) ks))"
    using assms
  proof (induction ks)
    case Nil
    then show ?case using punct by simp
  next
    case (Cons k ks)
    then show ?case using punct accepts_keys by (cases ks) simp_all
  qed
  with punct show ?thesis by (simp add: object_toks_def)
qed

lemma revocation_roundtrip:
  assumes "accepts (CidTok (ar_revoke t))" "accepts (TimeTok (ar_recorded_at t))"
    and "marshal_revocation lib t = Inr doc"
  shows "unmarshal_revocation lib doc = Inr t"
proof -
  from assms(3) obtain w where w: "doc = written_text lib w" "within_limits t"
    "write_tokens lib (object_toks (revocation_value t) written_order) (new_writer lib) = Inr w"
    by (auto simp: marshal_revocation_def marshal_with_def run_steps_Inr marshal_revocation_toks
        within_limits_def split: sum.splits)
  have "list_all accepts (revocation_value t k)" for k
    using assms(1,2) accepts_plain
    by (cases k) (simp_all add: accepts_path list.pred_True)
  then have "holds (open_reader lib doc) (entries_toks (revocation_value t) (map Inl written_order))"
    unfolding w(1) object_toks_entries [symmetric] by (intro reads_back accepts_fields w(3))
  then have "unmarshal_revocation lib doc = Inr (fold (set_revocation t) written_order zero_revocation)"
    using unmarshal_revocation_entries [of doc t "map Inl written_order"] w(2)
    by (simp add: entry_ok_def written_order_def max_key_def)
  then show ?thesis using written_order_complete by (simp add: fold_set_revocation)
qed

lemma firehose_roundtrip:
  assumes "list_all (\<lambda>c. accepts (CidTok c)) (af_revoke t # af_cause t # af_path t)"
    and "accepts (TimeTok (af_recorded_at t))" "marshal_firehose lib t = Inr doc"
  shows "unmarshal_firehose lib doc = Inr t"
proof -
  from assms(3) obtain w where w: "doc = written_text lib w" "length (af_path t) \<le> max_key"
    "write_tokens lib (object_toks (firehose_value t) written_order) (new_writer lib) = Inr w"
    by (auto simp: marshal_firehose_def marshal_with_def run_steps_Inr marshal_firehose_toks
        split: sum.splits)
  have "list_all accepts (firehose_value t k)" for k
    using assms(1,2) accepts_plain
    by (cases k) (simp_all add: accepts_path list.pred_True)
  then have "holds (open_reader lib doc) (entries_toks (firehose_value t) (map Inl written_order))"
    unfolding w(1) object_toks_entries [symmetric] by (intro reads_back accepts_fields w(3))
  then have "unmarshal_firehose lib doc = Inr (fold (set_firehose t) written_order zero_firehose)"
    using unmarshal_firehose_entries [of doc t "map Inl written_order"] w(2)
    by (simp add: entry_ok_def written_order_def max_key_def)
  then show ?thesis using written_order_complete by (simp add: fold_set_firehose)
qed

end


section \<open>A small codec that keeps the promise\<close>

text \<open>
  Tokens as text: punctuation is itself, a scalar is a letter, its bytes in base 16
  (or the digits of a time in base 1) and a full stop. It shows that the laws can
  hold, and the properties are evaluated with it.
\<close>

definition tally :: "time \<Rightarrow> string" where
  "tally t = (if t < 0 then CHR ''-'' else CHR ''+'') # replicate (nat \<bar>t\<bar>) (CHR ''I'') @ ''.''"

definition count_tally :: "string \<Rightarrow> (time \<times> string) option" where
  "count_tally r =
     (case r of
        [] \<Rightarrow> None
      | sign # q \<Rightarrow>
          (let n = int (length (takeWhile (\<lambda>c. c = CHR ''I'') q));
               q' = dropWhile (\<lambda>c. c = CHR ''I'') q
           in Some (if sign = CHR ''-'' then - n else n, tl q')))"

fun tok_text :: "jtok \<Rightarrow> string" where
  "tok_text ObjectOpen = ''{''"
| "tok_text ObjectClose = ''}''"
| "tok_text Colon = '':''"
| "tok_text Comma = '',''"
| "tok_text ArrayOpen = ''[''"
| "tok_text ArrayClose = '']''"
| "tok_text NullTok = ''0''"
| "tok_text (Str s) = CHR ''s'' # hex s"
| "tok_text (BytesTok b) = CHR ''b'' # hex b"
| "tok_text (CidTok c) = CHR ''c'' # hex (cid_bytes c)"
| "tok_text (TimeTok t) = CHR ''t'' # tally t"

definition map_tok :: "('a \<Rightarrow> jtok) \<Rightarrow> ('a \<times> string) option \<Rightarrow> (jtok \<times> string) option" where
  "map_tok f x = map_option (\<lambda>(v, r). (f v, r)) x"

definition take_tok :: "string \<Rightarrow> (jtok \<times> string) option" where
  "take_tok r =
     (case r of
        [] \<Rightarrow> None
      | c # q \<Rightarrow>
          if c = CHR ''{'' then Some (ObjectOpen, q)
          else if c = CHR ''}'' then Some (ObjectClose, q)
          else if c = CHR '':'' then Some (Colon, q)
          else if c = CHR '','' then Some (Comma, q)
          else if c = CHR ''['' then Some (ArrayOpen, q)
          else if c = CHR '']'' then Some (ArrayClose, q)
          else if c = CHR ''0'' then Some (NullTok, q)
          else if c = CHR ''s'' then map_tok Str (unhex q)
          else if c = CHR ''b'' then map_tok BytesTok (unhex q)
          else if c = CHR ''c'' then map_tok (CidTok \<circ> Cid) (unhex q)
          else if c = CHR ''t'' then map_tok TimeTok (count_tally q)
          else None)"

definition bad_json :: error where
  "bad_json = Foreign ''malformed JSON''"

definition take_if :: "(jtok \<Rightarrow> 'a option) \<Rightarrow> ('a, string) reading" where
  "take_if f r =
     (case take_tok r of
        None \<Rightarrow> Inl bad_json
      | Some (t, q) \<Rightarrow> (case f t of None \<Rightarrow> Inl bad_json | Some v \<Rightarrow> Inr (v, q)))"

definition exactly :: "jtok \<Rightarrow> jtok \<Rightarrow> unit option" where
  "exactly t t' = (if t' = t then Some () else None)"

definition sample_json :: "(string, string) json_lib" where
  "sample_json =
     \<lparr>new_writer = [],
      write_tok = (\<lambda>t w. Inr (w @ tok_text t)),
      written_text = (\<lambda>w. w),
      open_reader = (\<lambda>doc. doc),
      read_object_open = take_if (exactly ObjectOpen),
      peek_object_close =
        (\<lambda>r. case take_tok r of None \<Rightarrow> Inl bad_json | Some (t, _) \<Rightarrow> Inr (t = ObjectClose, r)),
      read_object_close = take_if (exactly ObjectClose),
      read_object_close_or_comma =
        take_if (\<lambda>t. if t \<in> {ObjectClose, Comma} then Some (t = ObjectClose) else None),
      read_object_colon = take_if (exactly Colon),
      read_array_open = take_if (exactly ArrayOpen),
      peek_array_close =
        (\<lambda>r. case take_tok r of None \<Rightarrow> Inl bad_json | Some (t, _) \<Rightarrow> Inr (t = ArrayClose, r)),
      read_array_close = take_if (exactly ArrayClose),
      read_array_close_or_comma =
        take_if (\<lambda>t. if t \<in> {ArrayClose, Comma} then Some (t = ArrayClose) else None),
      read_string_lim =
        (\<lambda>n. take_if (\<lambda>t. case t of Str s \<Rightarrow> if length s \<le> n then Some s else None | _ \<Rightarrow> None)),
      read_bytes_lim =
        (\<lambda>n. take_if (\<lambda>t. case t of BytesTok b \<Rightarrow> if length b \<le> n then Some b else None | _ \<Rightarrow> None)),
      read_cid = take_if (\<lambda>t. case t of CidTok c \<Rightarrow> Some c | _ \<Rightarrow> None),
      read_time = take_if (\<lambda>t. case t of TimeTok x \<Rightarrow> Some x | _ \<Rightarrow> None),
      discard_type = take_if (\<lambda>t. if scalar t then Some () else None)\<rparr>"

definition sample_holds :: "string \<Rightarrow> jtok list \<Rightarrow> bool" where
  "sample_holds r ts \<longleftrightarrow> r = concat (map tok_text ts)"

lemma tally_run: "takeWhile (\<lambda>c. c = x) (replicate n x @ y # r) = replicate n x"
  "dropWhile (\<lambda>c. c = x) (replicate n x @ y # r) = y # r" if "y \<noteq> x"
  using that by (induction n) auto

lemma count_tally_tally: "count_tally (tally t @ r) = Some (t, r)"
  by (simp add: count_tally_def tally_def tally_run)

lemma take_tok_text: "take_tok (tok_text t @ r) = Some (t, r)"
  by (cases t) (simp_all add: take_tok_def map_tok_def unhex_hex count_tally_tally cid_cid_bytes)

lemma take_tok_holds:
  "sample_holds r (t # ts) \<Longrightarrow> \<exists>q. take_tok r = Some (t, q) \<and> sample_holds q ts"
  by (auto simp: sample_holds_def take_tok_text)

lemma sample_write_tokens: "write_tokens sample_json ts w = Inr (w @ concat (map tok_text ts))"
  by (induction ts arbitrary: w) (simp_all add: sample_json_def)

lemma take_if_holds:
  assumes "sample_holds r (t # ts)" "f t = Some v"
  shows "\<exists>q. take_if f r = Inr (v, q) \<and> sample_holds q ts"
  using take_tok_holds [OF assms(1)] assms(2) by (auto simp: take_if_def)

interpretation sample_json: dag_json sample_json "\<lambda>_. True" sample_holds
proof (unfold_locales, goal_cases)
  case (3 ts w)
  then show ?case by (simp add: sample_write_tokens sample_holds_def) (simp add: sample_json_def)
next
  case (5 r t ts)
  with take_tok_holds [OF this] show ?case by (auto simp: sample_json_def)
next
  case (10 r t ts)
  with take_tok_holds [OF this] show ?case by (auto simp: sample_json_def)
qed (simp_all add: sample_json_def take_if_holds exactly_def)


section \<open>Properties of the records\<close>

text \<open>C32: What the server encodes for a lookup, the client decodes to the same record: every
  encoding MarshalDagJSON produces for a Revocation is within the limits of
  UnmarshalDagJSON and gives back all four fields.\<close>

theorem revocation_json_roundtrip:
  assumes "dag_json lib accepts holds"
    and "accepts (CidTok (ar_revoke t))" and "accepts (TimeTok (ar_recorded_at t))"
    and "marshal_revocation lib t = Inr doc"
  shows "unmarshal_revocation lib doc = Inr t"
  using assms by (rule dag_json.revocation_roundtrip)

lemma sample_write_tok [simp]: "write_tok sample_json t w = Inr (w @ tok_text t)"
  by (simp add: sample_json_def)

lemma sample_marshal_firehose:
  assumes "length (af_path t) \<le> max_key"
  shows "marshal_firehose sample_json t =
     Inr (concat (map tok_text (object_toks (firehose_value t) written_order)))"
proof -
  have "run_steps sample_json (marshal_firehose_steps (Some t)) w =
      Inr (w @ concat (map tok_text (object_toks (firehose_value t) written_order)))" for w
    using assms by (simp add: run_steps_Inr marshal_firehose_toks sample_write_tokens)
  then show ?thesis
    by (simp add: marshal_firehose_def marshal_with_def) (simp add: sample_json_def)
qed

lemma sample_marshal_revocation:
  assumes "within_limits t"
  shows "marshal_revocation sample_json t =
     Inr (concat (map tok_text (object_toks (revocation_value t) written_order)))"
proof -
  have "run_steps sample_json (marshal_revocation_steps (Some t)) w =
      Inr (w @ concat (map tok_text (object_toks (revocation_value t) written_order)))" for w
    using assms
    by (simp add: run_steps_Inr marshal_revocation_toks sample_write_tokens within_limits_def)
  then show ?thesis
    by (simp add: marshal_revocation_def marshal_with_def) (simp add: sample_json_def)
qed

definition sample_api_revocation :: api_revocation where
  "sample_api_revocation =
     \<lparr>ar_revoke = Cid ''r'', ar_path = [''p'', []], ar_cause = ''c'', ar_recorded_at = 7\<rparr>"

lemma sample_marshals:
  "\<exists>doc. marshal_revocation sample_json sample_api_revocation = Inr doc"
  "length (af_path t) \<le> max_key \<Longrightarrow> \<exists>doc. marshal_firehose sample_json t = Inr doc"
proof -
  have "within_limits sample_api_revocation"
    by (simp add: within_limits_def sample_api_revocation_def max_byte_array_def max_key_def)
  then show "\<exists>doc. marshal_revocation sample_json sample_api_revocation = Inr doc"
    using sample_marshal_revocation by blast
qed (use sample_marshal_firehose in blast)

theorem revocation_json_roundtrip_witness:
  "\<exists>doc. marshal_revocation sample_json sample_api_revocation = Inr doc \<and>
     unmarshal_revocation sample_json doc = Inr sample_api_revocation"
  using sample_marshals(1) revocation_json_roundtrip [OF sample_json.dag_json_axioms] by blast

text \<open>C33: What the server writes into a firehose event, the client decodes to the same record.\<close>

theorem firehose_json_roundtrip:
  assumes "dag_json lib accepts holds"
    and "list_all (\<lambda>c. accepts (CidTok c)) (af_revoke t # af_cause t # af_path t)"
    and "accepts (TimeTok (af_recorded_at t))" and "marshal_firehose lib t = Inr doc"
  shows "unmarshal_firehose lib doc = Inr t"
  using assms by (rule dag_json.firehose_roundtrip)

definition sample_event :: "string \<Rightarrow> time \<Rightarrow> api_firehose" where
  "sample_event c t =
     \<lparr>af_revoke = Cid ''r'', af_path = [Cid ''p'', Cid ''r''], af_cause = Cid c, af_recorded_at = t\<rparr>"

theorem firehose_json_roundtrip_witness:
  "\<exists>doc. marshal_firehose sample_json (sample_event ''c'' 7) = Inr doc \<and>
     unmarshal_firehose sample_json doc = Inr (sample_event ''c'' 7)"
proof -
  have "length (af_path (sample_event ''c'' 7)) \<le> max_key"
    by (simp add: sample_event_def max_key_def)
  then obtain doc where "marshal_firehose sample_json (sample_event ''c'' 7) = Inr doc"
    using sample_marshals(2) by blast
  with firehose_json_roundtrip [OF sample_json.dag_json_axioms _ _ this] show ?thesis
    by (simp add: list.pred_True)
qed

text \<open>The decoder depends neither on the order of the fields nor on fields it does not
  know: any object that has each of the four fields once, in any order, among any other
  scalar fields, decodes to the record with those values.\<close>

theorem revocation_decoder_ignores_order:
  assumes "dag_json lib accepts holds"
    and "holds (open_reader lib doc) (entries_toks (revocation_value v) es)"
    and "length es \<le> max_key" and "\<forall>e \<in> set es. entry_ok e" and "within_limits v"
    and "distinct (known_keys es)" and "set (known_keys es) = UNIV"
  shows "unmarshal_revocation lib doc = Inr v"
  using dag_json.unmarshal_revocation_entries [OF assms(1-5)] assms(6,7)
  by (simp add: fold_set_revocation)

theorem revocation_decoder_ignores_order_witness:
  "unmarshal_revocation sample_json
     (concat (map tok_text (entries_toks (revocation_value sample_api_revocation)
        [Inl RevokeKey, Inr (''note'', NullTok), Inl PathKey, Inl CauseKey, Inl RecordedAtKey]))) =
   Inr sample_api_revocation"
proof (rule revocation_decoder_ignores_order [OF sample_json.dag_json_axioms])
  show "sample_holds (open_reader sample_json (concat (map tok_text ts))) ts" for ts
    by (simp add: sample_holds_def sample_json_def)
qed (simp_all add: entry_ok_def within_limits_def sample_api_revocation_def max_key_def
    max_byte_array_def all_keys insert_commute)

text \<open>A document that names no field is decoded without an error, to a record whose CIDs
  are undefined and whose time is zero: the decoders require no field.\<close>

theorem empty_object_decodes:
  assumes "dag_json lib accepts holds"
    and "holds (open_reader lib doc) [ObjectOpen, ObjectClose]"
  shows "unmarshal_revocation lib doc = Inr zero_revocation \<and>
         unmarshal_firehose lib doc = Inr zero_firehose"
proof -
  have "unmarshal_revocation lib doc = Inr zero_revocation"
    using dag_json.unmarshal_revocation_entries [OF assms(1), of doc zero_revocation "[]"] assms(2)
    by (simp add: entries_toks_def within_limits_def zero_revocation_def)
  moreover have "unmarshal_firehose lib doc = Inr zero_firehose"
    using dag_json.unmarshal_firehose_entries [OF assms(1), of doc zero_firehose "[]"] assms(2)
    by (simp add: entries_toks_def zero_firehose_def)
  ultimately show ?thesis by simp
qed

theorem empty_object_decodes_witness:
  "unmarshal_revocation sample_json ''{}'' = Inr zero_revocation"
  using empty_object_decodes [OF sample_json.dag_json_axioms, of "''{}''"]
  by (simp add: sample_holds_def sample_json_def)

text \<open>The encoder refuses exactly the records over a limit: with a writer that does not
  fail, MarshalDagJSON of a Revocation succeeds when the cause and every path entry
  have at most 2097152 bytes and the path at most 8192 entries, and only then.\<close>

theorem revocation_encoder_limits:
  assumes "\<And>t w. \<exists>w'. write_tok lib t w = Inr w'"
  shows "(\<exists>doc. marshal_revocation lib t = Inr doc) \<longleftrightarrow>
     length (ar_cause t) \<le> 2097152 \<and> length (ar_path t) \<le> 8192 \<and>
     list_all (\<lambda>b. length b \<le> 2097152) (ar_path t)"
proof -
  have "\<exists>w'. write_tokens lib ts w = Inr w'" for ts w
  proof (induction ts arbitrary: w)
    case (Cons t ts)
    then show ?case using assms [of t w] by auto
  qed simp
  then obtain w where
    w: "write_tokens lib (steps_toks (marshal_revocation_steps (Some t))) (new_writer lib) = Inr w"
    by blast
  have "(\<exists>doc. marshal_revocation lib t = Inr doc) \<longleftrightarrow>
      checks_pass (marshal_revocation_steps (Some t))"
  proof (cases "run_steps lib (marshal_revocation_steps (Some t)) (new_writer lib)")
    case (Inl e)
    with w run_steps_Inr [of lib "marshal_revocation_steps (Some t)" "new_writer lib" w]
    show ?thesis by (simp add: marshal_revocation_def marshal_with_def)
  next
    case (Inr w')
    then show ?thesis
      using run_steps_Inr [of lib "marshal_revocation_steps (Some t)" "new_writer lib" w']
      by (simp add: marshal_revocation_def marshal_with_def)
  qed
  then show ?thesis
    by (simp add: marshal_revocation_toks max_byte_array_def max_key_def list_all_iff)
qed

theorem revocation_encoder_limits_witness:
  "\<exists>doc. marshal_revocation sample_json sample_api_revocation = Inr doc"
  by (subst revocation_encoder_limits) (simp_all add: sample_api_revocation_def)

end
