(* ===== verification/Sse.thy ===== *)
theory Sse
  imports Prelude
begin

text \<open>
  Reading server-sent events, \<^verbatim>\<open>internal/sse/scanner.go\<close>: the line scanner of Go's
  \<^verbatim>\<open>bufio\<close> it is built on (with \<open>ScanLines\<close> and a bounded buffer), \<open>Scan\<close> and \<open>Err\<close>.
  A reader is the bytes it delivers before it fails or ends. The loops consume their
  input, so they are total functions; nothing is run with fuel.
\<close>

section \<open>The line scanner of bufio\<close>

abbreviation nl :: char where
  "nl \<equiv> CHR 0x0A"

abbreviation cr :: char where
  "cr \<equiv> CHR 0x0D"

definition max_event_bytes :: nat where
  "max_event_bytes = 4 * 1024 * 1024"

definition max_line_bytes :: nat where
  "max_line_bytes = max_event_bytes + 1024"

text \<open>
  \<open>ls_end\<close> is what the reader returns once drained, by a read of its own, \<open>None\<close> for
  \<open>io.EOF\<close>. A scanner is
  reading, or its error field is set (\<open>Ended None\<close> for \<open>io.EOF\<close>).
\<close>

datatype ls_state = Reading | Ended "error option"

record line_scanner =
  ls_pending :: bytes
  ls_end :: "error option"
  ls_state :: ls_state

definition drop_cr :: "string \<Rightarrow> string" where
  "drop_cr s = (if s \<noteq> [] \<and> last s = cr then butlast s else s)"

definition first_line :: "bytes \<Rightarrow> string" where
  "first_line b = takeWhile (\<lambda>c. c \<noteq> nl) b"

definition after_line :: "bytes \<Rightarrow> bytes" where
  "after_line b = tl (dropWhile (\<lambda>c. c \<noteq> nl) b)"

text \<open>
  \<open>bufio.Scanner.Scan\<close> with \<open>ScanLines\<close>: a line that ends within the buffer is the
  next token; the unterminated rest is a token once the reader has ended; a line that
  fills the buffer is an error, and what the buffer holds then stays in it.
\<close>

definition scan_line :: "line_scanner \<Rightarrow> string option \<times> line_scanner" where
  "scan_line s =
     (let b = ls_pending s in
      case ls_state s of
        Reading \<Rightarrow>
          if nl \<in> set b \<and> length (first_line b) < max_line_bytes
          then (Some (drop_cr (first_line b)), s\<lparr>ls_pending := after_line b\<rparr>)
          else if length (first_line b) < max_line_bytes
          then (if b = [] then (None, s\<lparr>ls_state := Ended (ls_end s)\<rparr>)
                else (Some (drop_cr b), s\<lparr>ls_pending := [], ls_state := Ended (ls_end s)\<rparr>))
          else (None, s\<lparr>ls_pending := take max_line_bytes b,
                        ls_state := Ended (Some (Sentinel BufTooLong))\<rparr>)
      | Ended e \<Rightarrow>
          if b = [] then (None, s)
          else if nl \<in> set b
          then (Some (drop_cr (first_line b)), s\<lparr>ls_pending := after_line b\<rparr>)
          else (Some (drop_cr b), s\<lparr>ls_pending := []\<rparr>))"

definition line_err :: "line_scanner \<Rightarrow> error option" where
  "line_err s = (case ls_state s of Reading \<Rightarrow> None | Ended e \<Rightarrow> e)"

definition new_line_scanner :: "bytes \<Rightarrow> error option \<Rightarrow> line_scanner" where
  "new_line_scanner b e = \<lparr>ls_pending = b, ls_end = e, ls_state = Reading\<rparr>"

lemma after_line_shorter: "nl \<in> set b \<Longrightarrow> length (after_line b) < length b"
  unfolding after_line_def by (induction b) auto

lemma line_split: "nl \<in> set b \<Longrightarrow> b = first_line b @ nl # after_line b"
  unfolding first_line_def after_line_def by (induction b) auto

lemma first_line_append [simp]:
  "nl \<notin> set l \<Longrightarrow> first_line (l @ nl # b) = l" "nl \<notin> set l \<Longrightarrow> after_line (l @ nl # b) = b"
  "nl \<notin> set l \<Longrightarrow> first_line l = l"
  unfolding first_line_def after_line_def by (induction l) auto

lemma scan_line_consumes:
  "scan_line s = (Some line, s') \<Longrightarrow> length (ls_pending s') < length (ls_pending s)"
  by (auto simp: scan_line_def Let_def after_line_shorter split: ls_state.splits if_splits)

lemma scan_line_never_grows:
  "scan_line s = (x, s') \<Longrightarrow> length (ls_pending s') \<le> length (ls_pending s)"
  by (auto simp: scan_line_def Let_def after_line_shorter less_imp_le
      split: ls_state.splits if_splits)

section \<open>The event scanner\<close>

record scanner =
  sc_lines :: line_scanner
  sc_event :: string
  sc_data :: string
  sc_err :: "error option"

definition new_scanner :: "bytes \<Rightarrow> error option \<Rightarrow> scanner" where
  "new_scanner b e =
     \<lparr>sc_lines = new_line_scanner b e, sc_event = [], sc_data = [], sc_err = None\<rparr>"

text \<open>
  The loop of \<open>Scan\<close>. Its result is the event read, if any, with the line scanner's
  new state and the error the loop set.
\<close>

function scan_loop ::
  "line_scanner \<Rightarrow> string \<Rightarrow> string list \<Rightarrow> nat \<Rightarrow>
     (string \<times> string) option \<times> line_scanner \<times> error option" where
  "scan_loop s event data sz =
     (case scan_line s of
        (None, s') \<Rightarrow> (None, s', None)
      | (Some line, s') \<Rightarrow>
          if line = [] then
            (if data \<noteq> [] then (Some (event, strings_join [nl] data), s', None)
             else scan_loop s' [] data sz)
          else
            (let event' = (case cut_prefix ''event:'' line of
                             Some v \<Rightarrow> trim_space v | None \<Rightarrow> event)
             in case cut_prefix ''data:'' line of
                  None \<Rightarrow> scan_loop s' event' data sz
                | Some v \<Rightarrow>
                    (let value = trim_prefix '' '' v;
                         sz' = (if data \<noteq> [] then sz + 1 else sz) + length value
                     in if sz' > max_event_bytes
                        then (None, s', Some (Sentinel EventTooLong))
                        else scan_loop s' event' (data @ [value]) sz')))"
  by pat_completeness auto
termination
  by (relation "measure (\<lambda>(s, event, data, sz). length (ls_pending s))")
    (auto dest!: scan_line_consumes [OF sym])

declare scan_loop.simps [simp del]

definition scan :: "scanner \<Rightarrow> bool \<times> scanner" where
  "scan s =
     (if sc_err s \<noteq> None then (False, s)
      else case scan_loop (sc_lines s) [] [] 0 of
          (Some (event, data), ls, _) \<Rightarrow> (True, s\<lparr>sc_lines := ls, sc_event := event, sc_data := data\<rparr>)
        | (None, ls, err) \<Rightarrow>
            (False, s\<lparr>sc_lines := ls, sc_event := [], sc_data := [], sc_err := err\<rparr>))"

definition scanner_err :: "scanner \<Rightarrow> error option" where
  "scanner_err s =
     (let err = (case sc_err s of Some e \<Rightarrow> Some e | None \<Rightarrow> line_err (sc_lines s)) in
      case err of
        Some e \<Rightarrow> if errors_is e BufTooLong then Some (Sentinel EventTooLong) else Some e
      | None \<Rightarrow> None)"

lemma scan_loop_consumes:
  "scan_loop s event data sz = (Some e, s', err) \<Longrightarrow> length (ls_pending s') < length (ls_pending s)"
proof (induction s event data sz rule: scan_loop.induct)
  case (1 s event data sz)
  obtain tok s1 where sl: "scan_line s = (tok, s1)" by (cases "scan_line s")
  show ?case
  proof (cases tok)
    case None
    with 1 sl show ?thesis by (simp add: scan_loop.simps [of s])
  next
    case (Some line)
    note shorter = scan_line_consumes [OF sl [unfolded Some]]
    from 1 sl Some shorter show ?thesis
      by (fastforce simp: scan_loop.simps [of s] Let_def split: if_splits option.splits)
  qed
qed

lemma scan_consumes:
  "scan s = (True, s') \<Longrightarrow> length (ls_pending (sc_lines s')) < length (ls_pending (sc_lines s))"
  by (auto simp: scan_def split: if_splits option.splits prod.splits dest: scan_loop_consumes)

text \<open>Scanning to the end: the events reported, and the scanner after the last \<open>Scan\<close>.\<close>

function scan_all :: "scanner \<Rightarrow> (string \<times> string) list \<times> scanner" where
  "scan_all s =
     (case scan s of
        (False, s') \<Rightarrow> ([], s')
      | (True, s') \<Rightarrow>
          (case scan_all s' of (es, z) \<Rightarrow> ((sc_event s', sc_data s') # es, z)))"
  by pat_completeness auto
termination
  by (relation "measure (\<lambda>s. length (ls_pending (sc_lines s)))") (auto dest!: scan_consumes [OF sym])

declare scan_all.simps [simp del]


section \<open>The reference reading of an event stream\<close>

text \<open>
  What the event stream format says, on whole streams and with no size limit: the
  stream is a sequence of lines, a blank line dispatches the event built so far if it
  has data, and a stream that stops in the middle of an event drops it.
\<close>

function split_lines :: "bytes \<Rightarrow> string list" where
  "split_lines b =
     (if nl \<in> set b then drop_cr (first_line b) # split_lines (after_line b)
      else if b = [] then [] else [drop_cr b])"
  by pat_completeness auto
termination
  by (relation "measure length") (auto simp: after_line_shorter)

declare split_lines.simps [simp del]

definition event_field :: "string \<Rightarrow> string \<Rightarrow> string" where
  "event_field line event =
     (case cut_prefix ''event:'' line of Some v \<Rightarrow> trim_space v | None \<Rightarrow> event)"

definition data_field :: "string \<Rightarrow> string list" where
  "data_field line =
     (case cut_prefix ''data:'' line of Some v \<Rightarrow> [trim_prefix '' '' v] | None \<Rightarrow> [])"

fun dispatch :: "string \<Rightarrow> string list \<Rightarrow> string list \<Rightarrow> (string \<times> string) list" where
  "dispatch event data [] = []"
| "dispatch event data (l # ls) =
     (if l = [] then
        (if data \<noteq> [] then (event, strings_join [nl] data) # dispatch [] [] ls
         else dispatch [] data ls)
      else dispatch (event_field l event) (data @ data_field l) ls)"

abbreviation event_too_long :: error where
  "event_too_long \<equiv> Sentinel EventTooLong"

abbreviation buf_too_long :: error where
  "buf_too_long \<equiv> Sentinel BufTooLong"

text \<open>A drained line scanner has ended; one that is reading may hold anything.\<close>

definition in_order :: "line_scanner \<Rightarrow> bool" where
  "in_order s \<longleftrightarrow> ls_state s = Reading \<or> ls_pending s = []"

lemma in_order_new [simp]: "in_order (new_line_scanner b e)"
  by (simp add: in_order_def new_line_scanner_def)

lemma split_lines_Nil [simp]: "split_lines [] = []"
  by (simp add: split_lines.simps)

lemma scan_line_Some:
  assumes "scan_line s = (Some l, s')" "in_order s"
  shows "split_lines (ls_pending s) = l # split_lines (ls_pending s')" "in_order s'"
  using assms
  by (auto simp: scan_line_def in_order_def Let_def split_lines.simps [of "ls_pending s"]
      split: ls_state.splits if_splits)

lemma scan_line_None:
  assumes "scan_line s = (None, s')" "in_order s"
  shows "ls_pending s = [] \<and> in_order s' \<or> line_err s' = Some buf_too_long"
  using assms
  by (auto simp: scan_line_def in_order_def Let_def line_err_def first_line_def
      split: ls_state.splits if_splits)

lemma scan_loop_reference:
  assumes "scan_loop s event data n = (r, s', err)" "in_order s"
  shows "case r of
           Some ev \<Rightarrow> err = None \<and> in_order s' \<and>
             dispatch event data (split_lines (ls_pending s)) =
               ev # dispatch [] [] (split_lines (ls_pending s'))
         | None \<Rightarrow> dispatch event data (split_lines (ls_pending s)) = [] \<or>
             err = Some event_too_long \<or> err = None \<and> line_err s' = Some buf_too_long"
  using assms
proof (induction s event data n rule: scan_loop.induct)
  case (1 s event data n)
  obtain tok s1 where sl: "scan_line s = (tok, s1)" by (cases "scan_line s")
  show ?case
  proof (cases tok)
    case None
    from scan_line_None [OF sl [unfolded None] 1(5)] 1(4) sl None show ?thesis
      by (auto simp: scan_loop.simps [of s])
  next
    case (Some l)
    note step = scan_line_Some [OF sl [unfolded Some] 1(5)]
    show ?thesis
    proof (cases "l = []")
      case True
      with 1(1) [OF sl [symmetric] Some True _ _ step(2)] 1(4) sl Some step show ?thesis
        by (cases "data = []"; cases r) (auto simp: scan_loop.simps [of s])
    next
      case False
      show ?thesis
      proof (cases "cut_prefix ''data:'' l")
        case None
        with 1(2) [OF sl [symmetric] Some False refl None _ step(2)] 1(4) sl Some step False
        show ?thesis
          by (cases r) (simp_all add: scan_loop.simps [of s] Let_def data_field_def event_field_def)
      next
        case v: (Some v)
        let ?n = "(if data \<noteq> [] then n + 1 else n) + length (trim_prefix '' '' v)"
        show ?thesis
        proof (cases "?n > max_event_bytes")
          case True
          with 1(4) sl Some False v show ?thesis
            by (auto simp: scan_loop.simps [of s] Let_def split: if_splits)
        next
          case small: False
          with 1(3) [OF sl [symmetric] Some False refl v refl refl small _ step(2)]
            1(4) sl Some step False v
          show ?thesis
            by (cases r) (simp_all add: scan_loop.simps [of s] Let_def data_field_def event_field_def)
        qed
      qed
    qed
  qed
qed


lemma scan_loop_data:
  assumes "scan_loop s event data n = (Some (ev, d), s', err)"
    and "data \<noteq> [] \<longrightarrow> length (strings_join [nl] data) = n" "n \<le> max_event_bytes"
    and "data = [] \<longrightarrow> n = 0"
  shows "length d \<le> max_event_bytes"
  using assms
proof (induction s event data n rule: scan_loop.induct)
  case (1 s event data n)
  obtain tok s1 where sl: "scan_line s = (tok, s1)" by (cases "scan_line s")
  show ?case
  proof (cases tok)
    case None
    with 1(4) sl show ?thesis by (auto simp: scan_loop.simps [of s])
  next
    case (Some l)
    show ?thesis
    proof (cases "l = []")
      case True
      with 1(1) [OF sl [symmetric] Some True] 1(4-) sl Some show ?thesis
        by (cases "data = []") (auto simp: scan_loop.simps [of s])
    next
      case False
      show ?thesis
      proof (cases "cut_prefix ''data:'' l")
        case None
        with 1(2) [OF sl [symmetric] Some False refl None] 1(4-) sl Some False show ?thesis
          by (simp add: scan_loop.simps [of s] Let_def)
      next
        case v: (Some v)
        let ?n = "(if data \<noteq> [] then n + 1 else n) + length (trim_prefix '' '' v)"
        have small: "\<not> ?n > max_event_bytes"
          using 1(4) sl Some False v by (auto simp: scan_loop.simps [of s] Let_def)
        have "length (strings_join [nl] (data @ [trim_prefix '' '' v])) = ?n"
          using 1(5,7) by (simp add: strings_join_snoc)
        with 1(3) [OF sl [symmetric] Some False refl v refl refl small] 1(4) sl Some False v small
        show ?thesis by (simp add: scan_loop.simps [of s] Let_def)
      qed
    qed
  qed
qed

section \<open>What the scanner promises\<close>

text \<open>The errors of the line scanner and of the event scanner, as \<open>Err\<close> reports them.\<close>

lemma scanner_err_cases:
  "sc_err s = Some event_too_long \<or> sc_err s = None \<and> line_err (sc_lines s) = Some buf_too_long \<Longrightarrow>
     scanner_err s = Some event_too_long"
  by (auto simp: scanner_err_def)

lemma scan_reference:
  assumes "scan s = (ok, s')" "in_order (sc_lines s)" "sc_err s = None"
  shows "ok \<Longrightarrow> in_order (sc_lines s') \<and> sc_err s' = None \<and>
           dispatch [] [] (split_lines (ls_pending (sc_lines s))) =
             (sc_event s', sc_data s') # dispatch [] [] (split_lines (ls_pending (sc_lines s')))"
    and "\<not> ok \<Longrightarrow> dispatch [] [] (split_lines (ls_pending (sc_lines s))) = [] \<or>
           scanner_err s' = Some event_too_long"
proof -
  obtain r ls err where run: "scan_loop (sc_lines s) [] [] 0 = (r, ls, err)"
    by (cases "scan_loop (sc_lines s) [] [] 0")
  note ref = scan_loop_reference [OF run assms(2)]
  show "ok \<Longrightarrow> in_order (sc_lines s') \<and> sc_err s' = None \<and>
      dispatch [] [] (split_lines (ls_pending (sc_lines s))) =
        (sc_event s', sc_data s') # dispatch [] [] (split_lines (ls_pending (sc_lines s')))"
    using ref assms run by (cases r) (auto simp: scan_def)
  show "\<not> ok \<Longrightarrow> dispatch [] [] (split_lines (ls_pending (sc_lines s))) = [] \<or>
      scanner_err s' = Some event_too_long"
    using ref assms run by (cases r) (auto simp: scan_def intro!: scanner_err_cases)
qed

lemma scan_all_reference:
  assumes "in_order (sc_lines s)" "sc_err s = None"
  shows "\<exists>rest. dispatch [] [] (split_lines (ls_pending (sc_lines s))) = fst (scan_all s) @ rest \<and>
           (rest = [] \<or> scanner_err (snd (scan_all s)) = Some event_too_long)"
  using assms
proof (induction s rule: scan_all.induct)
  case (1 s)
  obtain ok s' where run: "scan s = (ok, s')" by (cases "scan s")
  note ref = scan_reference [OF run 1(2,3)]
  show ?case
  proof (cases ok)
    case True
    with ref(1) 1(1) [OF run [symmetric]] obtain rest where
      "dispatch [] [] (split_lines (ls_pending (sc_lines s'))) = fst (scan_all s') @ rest"
      "rest = [] \<or> scanner_err (snd (scan_all s')) = Some event_too_long"
      by auto
    with True ref(1) run show ?thesis
      by (auto simp: scan_all.simps [of s] split: prod.splits)
  next
    case False
    with ref(2) run show ?thesis by (auto simp: scan_all.simps [of s])
  qed
qed


text \<open>No event larger than MaxEventBytes is ever reported, however many data lines it
  was assembled from.\<close>

theorem sse_event_is_bounded:
  assumes "scan s = (True, s')"
  shows "length (sc_data s') \<le> max_event_bytes"
proof -
  from assms obtain ev d ls err where
    "scan_loop (sc_lines s) [] [] 0 = (Some (ev, d), ls, err)" "sc_data s' = d"
    by (auto simp: scan_def split: if_splits option.splits prod.splits)
  with scan_loop_data show ?thesis by fastforce
qed

theorem sse_event_is_bounded_witness:
  "length (sc_data (snd (scan (new_scanner (''data: x'' @ [nl, nl]) None)))) \<le> max_event_bytes"
proof (rule sse_event_is_bounded)
  show "scan (new_scanner (''data: x'' @ [nl, nl]) None) =
      (True, snd (scan (new_scanner (''data: x'' @ [nl, nl]) None)))"
    by (simp add: scan_def new_scanner_def new_line_scanner_def scan_loop.simps scan_line_def
        Let_def first_line_def after_line_def drop_cr_def max_line_bytes_def max_event_bytes_def
        trim_prefix_def)
qed


lemma drop_cr_id: "last l \<noteq> cr \<Longrightarrow> drop_cr l = l"
  by (simp add: drop_cr_def)

lemma scan_line_at:
  assumes "ls_state s = Reading" "ls_pending s = l @ nl # b" "nl \<notin> set l"
    "length l < max_line_bytes"
  shows "scan_line s = (Some (drop_cr l), s\<lparr>ls_pending := b\<rparr>)"
  using assms by (simp add: scan_line_def Let_def)

lemma scan_line_over:
  assumes "ls_state s = Reading" "ls_pending s = l @ nl # b" "nl \<notin> set l"
    "\<not> length l < max_line_bytes"
  shows "fst (scan_line s) = None" "line_err (snd (scan_line s)) = Some buf_too_long"
  using assms by (simp_all add: scan_line_def Let_def line_err_def)

lemma max_sizes: "0 < max_line_bytes" "max_event_bytes + 1024 = max_line_bytes"
  by (simp_all add: max_line_bytes_def max_event_bytes_def)

lemma data_line:
  "d = [] \<or> last d \<noteq> cr \<Longrightarrow> drop_cr (''data: '' @ d) = ''data: '' @ d"
  by (cases d) (simp_all add: drop_cr_def)

lemma scan_blank_line:
  assumes "ls_state s = Reading" "ls_pending s = nl # b" "data \<noteq> []"
  shows "scan_loop s event data n =
    (Some (event, strings_join [nl] data), s\<lparr>ls_pending := b\<rparr>, None)"
  using scan_line_at [of s "[]" b] assms max_sizes(1)
  by (simp add: scan_loop.simps [of s] drop_cr_def)

lemma scan_data_line:
  assumes "ls_state s = Reading" "ls_pending s = ''data: '' @ d @ nl # nl # b" "nl \<notin> set d"
    "d = [] \<or> last d \<noteq> cr"
  shows "scan_loop s event [] 0 =
     (if length d \<le> max_event_bytes
      then (Some (event, d), s\<lparr>ls_pending := b\<rparr>, None)
      else (None, snd (scan_line s),
            if length d + 6 < max_line_bytes then Some event_too_long else None))"
proof -
  have pending: "ls_pending s = (''data: '' @ d) @ nl # nl # b" using assms by simp
  show ?thesis
  proof (cases "length d + 6 < max_line_bytes")
    case True
    have "nl \<notin> set (''data: '' @ d)" "length (''data: '' @ d) < max_line_bytes"
      using assms True by simp_all
    note line = scan_line_at [OF assms(1) pending this, unfolded data_line [OF assms(4)]]
    from line True scan_blank_line [of "s\<lparr>ls_pending := nl # b\<rparr>" b "[d]" event "length d"] assms
    show ?thesis
      by (simp add: scan_loop.simps [of s] Let_def trim_prefix_def)
  next
    case False
    with assms pending scan_line_over [of s "''data: '' @ d" "nl # b"]
    have "fst (scan_line s) = None" by simp
    with False max_sizes show ?thesis
      by (cases "scan_line s") (simp add: scan_loop.simps [of s])
  qed
qed

lemma scan_sized_event:
  assumes "nl \<notin> set d" and "d = [] \<or> last d \<noteq> cr"
  shows "(case scan (new_scanner (''data: '' @ d @ nl # nl # rest) e) of (ok, s) \<Rightarrow>
            ok = (length d \<le> max_event_bytes) \<and>
            sc_data s = (if ok then d else []) \<and>
            scanner_err s = (if ok then None else Some (Sentinel EventTooLong)))"
proof -
  let ?s = "new_line_scanner (''data: '' @ d @ nl # nl # rest) e"
  have s: "ls_state ?s = Reading" "ls_pending ?s = ''data: '' @ d @ nl # nl # rest"
    by (simp_all add: new_line_scanner_def)
  note loop = scan_data_line [OF s assms]
  have over: "line_err (snd (scan_line ?s)) = Some buf_too_long" if "\<not> length d + 6 < max_line_bytes"
    using scan_line_over [of ?s "''data: '' @ d" "nl # rest"] s assms(1) that by simp
  show ?thesis
  proof (cases "length d \<le> max_event_bytes")
    case True
    with loop s show ?thesis
      by (simp add: scan_def new_scanner_def scanner_err_def line_err_def)
  next
    case False
    with loop over show ?thesis
      by (auto simp: scan_def new_scanner_def scanner_err_def)
  qed
qed

text \<open>
  An event as any number of field lines: each line is read, and the sizes of the data lines
  and of the newlines between them add up, until one of the two bounds is met.
\<close>

definition field_lines :: "string list \<Rightarrow> bytes" where
  "field_lines ls = concat (map (\<lambda>l. l @ [nl]) ls)"

definition field_line :: "string \<Rightarrow> bool" where
  "field_line l \<longleftrightarrow> nl \<notin> set l \<and> drop_cr l \<noteq> [] \<and>
     (data_field (drop_cr l) = [] \<longrightarrow> length l < max_line_bytes)"

definition event_data :: "string list \<Rightarrow> string list" where
  "event_data ls = concat (map (\<lambda>l. data_field (drop_cr l)) ls)"

lemma join_length_mono: "length (strings_join sep xs) \<le> length (strings_join sep (xs @ ys))"
proof (induction ys rule: rev_induct)
  case (snoc y ys)
  then show ?case
    by (cases "xs @ ys = []") (simp_all add: strings_join_snoc flip: append_assoc)
qed simp

lemma data_line_size:
  assumes "data_field (drop_cr l) = [v]"
  shows "length l \<le> length v + 7"
proof -
  have "length l \<le> length (drop_cr l) + 1" by (auto simp: drop_cr_def)
  moreover obtain w where w: "drop_cr l = ''data:'' @ w" "v = trim_prefix '' '' w"
    using assms by (auto simp: data_field_def cut_prefix_Some split: option.splits)
  then have "length (drop_cr l) = length w + 5" by simp
  moreover have "length w \<le> length v + 1"
    unfolding w(2) by (cases "cut_prefix '' '' w") (auto simp: trim_prefix_def cut_prefix_Some)
  ultimately show ?thesis by linarith
qed

text \<open>The size the loop keeps of the data lines read so far.\<close>

definition data_size :: "string list \<Rightarrow> nat" where
  "data_size data = (if data = [] then 0 else length (strings_join [nl] data))"

lemma data_size_snoc:
  "data_size (data @ [v]) = (if data \<noteq> [] then data_size data + 1 else data_size data) + length v"
  by (auto simp: data_size_def strings_join_snoc)

lemma data_size_mono: "data_size xs \<le> data_size (xs @ ys)"
  using join_length_mono [of "[nl]" xs ys] by (simp add: data_size_def)

lemma scan_field_line:
  assumes "ls_state s = Reading" "ls_pending s = l @ nl # b" "nl \<notin> set l" "drop_cr l \<noteq> []"
    and "length l < max_line_bytes"
  shows "scan_loop s event data (data_size data) =
    (if data_field (drop_cr l) \<noteq> [] \<and> max_event_bytes < data_size (data @ data_field (drop_cr l))
     then (None, s\<lparr>ls_pending := b\<rparr>, Some event_too_long)
     else scan_loop (s\<lparr>ls_pending := b\<rparr>) (event_field (drop_cr l) event) (data @ data_field (drop_cr l))
       (data_size (data @ data_field (drop_cr l))))"
  using scan_line_at [OF assms(1,2,3,5)] assms(4)
  by (cases "cut_prefix ''data:'' (drop_cr l)")
    (simp_all add: scan_loop.simps [of s] Let_def data_field_def event_field_def data_size_snoc)

lemma scan_field_lines:
  assumes "ls_state s = Reading" "ls_pending s = field_lines ls @ nl # rest" "list_all field_line ls"
    and "data @ event_data ls \<noteq> []" "data_size data \<le> max_event_bytes"
  shows "if data_size (data @ event_data ls) \<le> max_event_bytes
    then scan_loop s event data (data_size data) =
      (Some (fold event_field (map drop_cr ls) event, strings_join [nl] (data @ event_data ls)),
       s\<lparr>ls_pending := rest\<rparr>, None)
    else \<exists>s' err. scan_loop s event data (data_size data) = (None, s', err) \<and>
      (err = Some event_too_long \<or> err = None \<and> line_err s' = Some buf_too_long)"
  using assms
proof (induction ls arbitrary: s event data)
  case Nil
  then show ?case using scan_blank_line [of s rest data event "data_size data"]
    by (simp add: field_lines_def event_data_def)
next
  case (Cons l ls)
  let ?v = "data_field (drop_cr l)"
  let ?s = "s\<lparr>ls_pending := field_lines ls @ nl # rest\<rparr>"
  have l: "nl \<notin> set l" "drop_cr l \<noteq> []" "?v = [] \<longrightarrow> length l < max_line_bytes"
    using Cons.prems(3) by (simp_all add: field_line_def)
  have pending: "ls_pending s = l @ nl # field_lines ls @ nl # rest"
    using Cons.prems(2) by (simp add: field_lines_def)
  have data: "data @ event_data (l # ls) = (data @ ?v) @ event_data ls" by (simp add: event_data_def)
  have mono: "data_size (data @ ?v) \<le> data_size (data @ event_data (l # ls))"
    unfolding data by (rule data_size_mono)
  show ?case
  proof (cases "length l < max_line_bytes")
    case short: True
    note line = scan_field_line [OF Cons.prems(1) pending l(1,2) short]
    show ?thesis
    proof (cases "data_size (data @ ?v) \<le> max_event_bytes")
      case True
      then have next_line: "scan_loop s event data (data_size data) =
          scan_loop ?s (event_field (drop_cr l) event) (data @ ?v) (data_size (data @ ?v))"
        using line by simp
      have "data @ ?v @ event_data ls \<noteq> []" using Cons.prems(4) data by simp
      with Cons.IH [of ?s "data @ ?v" "event_field (drop_cr l) event"] Cons.prems(1,3) True
      show ?thesis unfolding next_line data by simp
    next
      case False
      then have "?v \<noteq> []" using Cons.prems(5) by auto
      with False line mono show ?thesis by auto
    qed
  next
    case False
    then obtain v where v: "?v = [v]"
      using l(3) by (auto simp: data_field_def split: option.splits)
    from data_line_size [OF this] False have "max_event_bytes < length v"
      using max_sizes(2) by linarith
    then have "max_event_bytes < data_size (data @ ?v)" unfolding v data_size_snoc by simp
    with mono have "\<not> data_size (data @ event_data (l # ls)) \<le> max_event_bytes" by simp
    moreover obtain s' where "scan_line s = (None, s')" "line_err s' = Some buf_too_long"
      using scan_line_over [OF Cons.prems(1) pending l(1) False] by (cases "scan_line s") simp
    ultimately show ?thesis by (simp add: scan_loop.simps [of s])
  qed
qed


text \<open>Two data lines that just fill an event, and two that are one byte more.\<close>

definition full_lines :: "nat \<Rightarrow> string list" where
  "full_lines n = [''event: revocation'', ''data: x'' @ [cr], '': comment'',
     ''data:'' @ replicate (max_event_bytes - 2 + n) (CHR ''y'')]"

lemma full_lines_ok:
  "list_all field_line (full_lines n)"
  "event_data (full_lines n) = [''x'', replicate (max_event_bytes - 2 + n) (CHR ''y'')]"
proof -
  let ?y = "replicate (max_event_bytes - 2 + n) (CHR ''y'')"
  obtain m where m: "max_event_bytes - 2 + n = Suc m"
    by (cases "max_event_bytes - 2 + n") (simp_all add: max_event_bytes_def)
  have last: "drop_cr (''data:'' @ ?y) = ''data:'' @ ?y" "trim_prefix '' '' ?y = ?y"
    unfolding m by (simp_all add: drop_cr_def trim_prefix_def)
  then show "event_data (full_lines n) = [''x'', ?y]" "list_all field_line (full_lines n)"
    by (simp_all add: full_lines_def event_data_def field_line_def data_field_def drop_cr_def
        trim_prefix_def max_line_bytes_def max_event_bytes_def)
qed


lemma scan_loop_overfull:
  assumes "ls_state s = Ended e" "nl \<notin> set (ls_pending s)"
    "max_line_bytes \<le> length (ls_pending s)"
  shows "\<exists>ls err. scan_loop s [] [] 0 = (None, ls, err) \<and> ls_state ls = Ended e \<and>
           (err = None \<or> err = Some event_too_long)"
proof -
  let ?l = "drop_cr (ls_pending s)" and ?s = "s\<lparr>ls_pending := []\<rparr>"
  have ne: "ls_pending s \<noteq> []" using assms(3) max_sizes(1) by auto
  have line: "scan_line s = (Some ?l, ?s)"
    using assms ne by (simp add: scan_line_def)
  have stop: "scan_line ?s = (None, ?s)" using assms(1) by (simp add: scan_line_def)
  have long: "max_event_bytes + 1000 < length ?l"
    using assms(3) max_sizes(2) by (auto simp: drop_cr_def)
  then have "?l \<noteq> []" by auto
  show ?thesis
  proof (cases "cut_prefix ''data:'' ?l")
    case None
    with line stop \<open>?l \<noteq> []\<close> assms(1) show ?thesis
      by (simp add: scan_loop.simps [of s] scan_loop.simps [of ?s] Let_def)
  next
    case (Some v)
    then have "length ?l = 5 + length v" by (auto simp: cut_prefix_Some)
    moreover have "length v \<le> length (trim_prefix '' '' v) + 1"
      by (cases "cut_prefix '' '' v") (auto simp: trim_prefix_def cut_prefix_Some)
    ultimately have "max_event_bytes < length (trim_prefix '' '' v)" using long by linarith
    with line Some \<open>?l \<noteq> []\<close> assms(1) show ?thesis
      by (simp add: scan_loop.simps [of s] Let_def)
  qed
qed

text \<open>Where the loop can stop without an event, and what a further call of it does there.\<close>

lemma overfull_line:
  assumes "\<not> length (first_line b) < max_line_bytes"
  shows "nl \<notin> set (take max_line_bytes b)" "max_line_bytes \<le> length (take max_line_bytes b)"
proof -
  have "take max_line_bytes (first_line b) = take max_line_bytes b"
  proof -
    have "b = first_line b @ dropWhile (\<lambda>c. c \<noteq> nl) b" by (simp add: first_line_def)
    then have "take max_line_bytes b =
        take max_line_bytes (first_line b @ dropWhile (\<lambda>c. c \<noteq> nl) b)" by (rule arg_cong)
    with assms show ?thesis by (simp add: take_append)
  qed
  moreover have "nl \<notin> set (first_line b)"
    unfolding first_line_def by (metis (mono_tags, lifting) set_takeWhileD)
  ultimately show "nl \<notin> set (take max_line_bytes b)" by (metis in_set_takeD)
  have "length (first_line b) \<le> length b" by (simp add: first_line_def length_takeWhile_le)
  with assms show "max_line_bytes \<le> length (take max_line_bytes b)" by simp
qed

lemma scan_line_stops:
  assumes "scan_line s = (None, s')"
  shows "(\<exists>e. ls_state s' = Ended e \<and> ls_pending s' = []) \<or>
         (ls_state s' = Ended (Some buf_too_long) \<and> nl \<notin> set (ls_pending s') \<and>
          max_line_bytes \<le> length (ls_pending s'))"
proof (cases "ls_state s")
  case Reading
  show ?thesis
  proof (cases "length (first_line (ls_pending s)) < max_line_bytes")
    case True
    with assms Reading show ?thesis by (auto simp: scan_line_def Let_def split: if_splits)
  next
    case False
    with assms Reading have "s' = s\<lparr>ls_pending := take max_line_bytes (ls_pending s),
        ls_state := Ended (Some buf_too_long)\<rparr>"
      by (simp add: scan_line_def Let_def)
    then show ?thesis using overfull_line [OF False] by simp
  qed
next
  case (Ended e)
  with assms show ?thesis by (auto simp: scan_line_def Let_def split: if_splits)
qed

lemma scan_loop_stops:
  assumes "scan_loop s event data n = (None, s', None)"
  shows "(\<exists>e. ls_state s' = Ended e \<and> ls_pending s' = []) \<or>
         (ls_state s' = Ended (Some buf_too_long) \<and> nl \<notin> set (ls_pending s') \<and>
          max_line_bytes \<le> length (ls_pending s'))"
  using assms
proof (induction s event data n rule: scan_loop.induct)
  case (1 s event data n)
  obtain tok s1 where sl: "scan_line s = (tok, s1)" by (cases "scan_line s")
  show ?case
  proof (cases tok)
    case None
    with 1(4) sl have "s1 = s'" by (simp add: scan_loop.simps [of s])
    with sl None scan_line_stops show ?thesis by blast
  next
    case (Some l)
    show ?thesis
    proof (cases "l = []")
      case True
      with 1(1) [OF sl [symmetric] Some True] 1(4) sl Some show ?thesis
        by (cases "data = []") (auto simp: scan_loop.simps [of s])
    next
      case False
      show ?thesis
      proof (cases "cut_prefix ''data:'' l")
        case None
        with 1(2) [OF sl [symmetric] Some False refl None] 1(4) sl Some False show ?thesis
          by (simp add: scan_loop.simps [of s] Let_def)
      next
        case v: (Some v)
        let ?n = "(if data \<noteq> [] then n + 1 else n) + length (trim_prefix '' '' v)"
        have small: "\<not> ?n > max_event_bytes"
          using 1(4) sl Some False v by (auto simp: scan_loop.simps [of s] Let_def)
        with 1(3) [OF sl [symmetric] Some False refl v refl refl small] 1(4) sl Some False v
        show ?thesis by (simp add: scan_loop.simps [of s] Let_def)
      qed
    qed
  qed
qed


text \<open>Once Scan has reported that there is no further event, it keeps reporting so, and
  Err keeps its value, also where the line scanner still hands out what its full
  buffer holds.\<close>

theorem sse_stops_for_good:
  assumes "scan s = (False, s')"
  shows "\<not> fst (scan s') \<and> scanner_err (snd (scan s')) = scanner_err s'"
proof (cases "sc_err s' = None")
  case False
  then show ?thesis by (simp add: scan_def)
next
  case True
  with assms obtain ls where loop: "scan_loop (sc_lines s) [] [] 0 = (None, ls, None)"
    and s': "sc_lines s' = ls" "sc_event s' = []" "sc_data s' = []"
    by (auto simp: scan_def split: if_splits option.splits prod.splits)
  from scan_loop_stops [OF loop] show ?thesis
  proof
    assume "\<exists>e. ls_state ls = Ended e \<and> ls_pending ls = []"
    then have "scan_loop ls [] [] 0 = (None, ls, None)"
      by (auto simp: scan_loop.simps [of ls] scan_line_def)
    with True s' show ?thesis by (simp add: scan_def scanner_err_def)
  next
    assume full: "ls_state ls = Ended (Some buf_too_long) \<and> nl \<notin> set (ls_pending ls) \<and>
      max_line_bytes \<le> length (ls_pending ls)"
    with scan_loop_overfull [of ls] obtain ls2 err where
      "scan_loop ls [] [] 0 = (None, ls2, err)" "ls_state ls2 = Ended (Some buf_too_long)"
      "err = None \<or> err = Some event_too_long" by blast
    with True s' full show ?thesis
      by (auto simp: scan_def scanner_err_def line_err_def)
  qed
qed

theorem sse_stops_for_good_witness:
  "scanner_err (snd (scan (snd (scan (new_scanner ''data: x'' (Some (Sentinel Canceled))))))) =
     Some (Sentinel Canceled)"
proof -
  let ?s = "snd (scan (new_scanner ''data: x'' (Some (Sentinel Canceled))))"
  have "scan (new_scanner ''data: x'' (Some (Sentinel Canceled))) = (False, ?s)"
    "scanner_err ?s = Some (Sentinel Canceled)"
    by (simp_all add: scan_def new_scanner_def new_line_scanner_def scan_loop.simps scan_line_def
        Let_def first_line_def drop_cr_def max_line_bytes_def max_event_bytes_def
        trim_prefix_def scanner_err_def line_err_def)
  with sse_stops_for_good [of _ ?s] show ?thesis by simp
qed

section \<open>Reading the blocks a server writes\<close>

text \<open>Field lines one at a time: an ignored one, and one that names the event.\<close>

lemma scan_ignored_line:
  assumes "ls_state s = Reading" "ls_pending s = l @ nl # b" "nl \<notin> set l"
    "length l < max_line_bytes"
    and "drop_cr l \<noteq> []" "cut_prefix ''event:'' (drop_cr l) = None" "cut_prefix ''data:'' (drop_cr l) = None"
  shows "scan_loop s event data n = scan_loop (s\<lparr>ls_pending := b\<rparr>) event data n"
  using scan_line_at [OF assms(1-4)] assms(5-) by (simp add: scan_loop.simps [of s] Let_def)

lemma scan_event_line:
  assumes "ls_state s = Reading" "ls_pending s = ''event: '' @ e @ nl # b" "nl \<notin> set e"
    "length e + 7 < max_line_bytes" "e \<noteq> []" "last e \<noteq> cr"
  shows "scan_loop s event data n =
     scan_loop (s\<lparr>ls_pending := b\<rparr>) (trim_space ('' '' @ e)) data n"
proof -
  have drop: "drop_cr (''event: '' @ e) = ''event: '' @ e"
    using assms by (simp add: drop_cr_def)
  have "scan_line s = (Some (drop_cr (''event: '' @ e)), s\<lparr>ls_pending := b\<rparr>)"
    using assms by (intro scan_line_at) simp_all
  then show ?thesis unfolding drop by (simp add: scan_loop.simps [of s] Let_def)
qed

text \<open>A block with an id, an event type and one data line, and a block without an id.\<close>

definition id_line :: "string \<Rightarrow> bytes" where
  "id_line i = ''id: '' @ i @ [nl]"

definition event_block :: "string \<Rightarrow> string \<Rightarrow> bytes" where
  "event_block e d = ''event: '' @ e @ nl # ''data: '' @ d @ [nl, nl]"

definition one_line :: "string \<Rightarrow> bool" where
  "one_line d \<longleftrightarrow> nl \<notin> set d \<and> (d = [] \<or> last d \<noteq> cr)"

lemma scan_event_block:
  assumes "ls_state (sc_lines s) = Reading" "sc_err s = None"
    and "ls_pending (sc_lines s) = event_block e d @ b"
    and "one_line e" "e \<noteq> []" "length e + 7 < max_line_bytes" "trim_space ('' '' @ e) = e"
    and "one_line d" "length d \<le> max_event_bytes"
  shows "scan s = (True, s\<lparr>sc_lines := (sc_lines s)\<lparr>ls_pending := b\<rparr>, sc_event := e, sc_data := d\<rparr>)"
proof -
  let ?s = "(sc_lines s)\<lparr>ls_pending := ''data: '' @ d @ nl # nl # b\<rparr>"
  have "scan_loop (sc_lines s) [] [] 0 = scan_loop ?s e [] 0"
    using assms scan_event_line [of "sc_lines s" e "''data: '' @ d @ nl # nl # b" "[]" "[]" 0]
    by (simp add: event_block_def one_line_def)
  also have "\<dots> = (Some (e, d), ?s\<lparr>ls_pending := b\<rparr>, None)"
    using assms scan_data_line [of ?s d b e] by (simp add: one_line_def)
  finally show ?thesis using assms(2) by (simp add: scan_def)
qed

lemma scan_id_line:
  assumes "ls_state (sc_lines s) = Reading" "ls_pending (sc_lines s) = id_line i @ b"
    and "nl \<notin> set i" "length i + 4 < max_line_bytes" "sc_err s = None"
  shows "scan s = scan (s\<lparr>sc_lines := (sc_lines s)\<lparr>ls_pending := b\<rparr>\<rparr>)"
proof -
  have "scan_loop (sc_lines s) [] [] 0 = scan_loop ((sc_lines s)\<lparr>ls_pending := b\<rparr>) [] [] 0"
  proof (rule scan_ignored_line)
    show "ls_pending (sc_lines s) = (''id: '' @ i) @ nl # b"
      using assms(2) by (simp add: id_line_def)
    show "drop_cr (''id: '' @ i) \<noteq> []" "cut_prefix ''event:'' (drop_cr (''id: '' @ i)) = None"
      "cut_prefix ''data:'' (drop_cr (''id: '' @ i)) = None"
      by (simp_all add: drop_cr_def)
  qed (use assms in simp_all)
  with assms(5) show ?thesis
    by (cases s) (auto simp: scan_def split: option.splits prod.splits)
qed

end
