(* ===== verification/Rfc3339.thy ===== *)
theory Rfc3339
  imports Prelude
begin

text \<open>
  The part of Go's \<^verbatim>\<open>time\<close> package the stream cursor goes through: \<open>UTC().Format\<close>
  with the layout \<open>RFC3339Nano\<close> in the client, \<open>time.Parse\<close> with the same layout in the
  server. Parsing is the package's fast path for RFC 3339; a text it does not accept is
  left to the general layout parser, a parameter. The theory ends with the fact both
  sides rely on: what is formatted is parsed to the same instant, to the nanosecond.
\<close>

section \<open>Fixed-width decimals\<close>

fun digits :: "nat \<Rightarrow> nat \<Rightarrow> string" where
  "digits 0 n = []"
| "digits (Suc k) n = digits k (n div 10) @ [digit (n mod 10)]"

definition is_digit :: "char \<Rightarrow> bool" where
  "is_digit c \<longleftrightarrow> 48 \<le> (of_char c :: nat) \<and> of_char c \<le> (57 :: nat)"

definition decimal :: "string \<Rightarrow> nat" where
  "decimal s = foldl (\<lambda>x c. x * 10 + (of_char c - 48)) 0 s"

text \<open>\<open>parseUint\<close>: all digits, and in range.\<close>

definition parse_uint :: "string \<Rightarrow> nat \<Rightarrow> nat \<Rightarrow> nat option" where
  "parse_uint s lo hi =
     (if list_all is_digit s \<and> lo \<le> decimal s \<and> decimal s \<le> hi then Some (decimal s) else None)"

lemma of_char_digit: "d < 10 \<Longrightarrow> (of_char (digit d) :: nat) = 48 + d"
  by (simp add: digit_def of_char_of)

lemma is_digit_digit [simp]: "d < 10 \<Longrightarrow> is_digit (digit d)"
  by (simp add: is_digit_def of_char_digit)

lemma length_digits [simp]: "length (digits k n) = k"
  by (induction k arbitrary: n) auto

lemma digits_are_digits [simp]: "list_all is_digit (digits k n)"
  by (induction k arbitrary: n) auto

lemma decimal_snoc: "decimal (s @ [c]) = decimal s * 10 + (of_char c - 48)"
  by (simp add: decimal_def)

lemma decimal_digits: "n < 10 ^ k \<Longrightarrow> decimal (digits k n) = n"
proof (induction k arbitrary: n)
  case 0
  then show ?case by (simp add: decimal_def)
next
  case (Suc k)
  then have "n div 10 < 10 ^ k" by (simp add: less_mult_imp_div_less mult.commute)
  with Suc.IH show ?case by (simp add: decimal_snoc of_char_digit)
qed

lemma parse_uint_digits:
  "n < 10 ^ k \<Longrightarrow> lo \<le> n \<Longrightarrow> n \<le> hi \<Longrightarrow> parse_uint (digits k n) lo hi = Some n"
  by (simp add: parse_uint_def decimal_digits)

lemma decimal_zeros: "decimal (s @ replicate j (CHR ''0'')) = decimal s * 10 ^ j"
proof (induction j)
  case 0
  then show ?case by simp
next
  case (Suc j)
  have "decimal (s @ replicate (Suc j) (CHR ''0'')) = decimal ((s @ replicate j (CHR ''0'')) @ [CHR ''0''])"
    by (simp add: replicate_append_same)
  with Suc show ?case by (simp only: decimal_snoc) simp
qed

section \<open>The calendar\<close>

definition leap :: "nat \<Rightarrow> bool" where
  "leap y \<longleftrightarrow> y mod 4 = 0 \<and> (y mod 100 \<noteq> 0 \<or> y mod 400 = 0)"

definition month_lengths :: "nat \<Rightarrow> nat list" where
  "month_lengths y = [31, if leap y then 29 else 28, 31, 30, 31, 30, 31, 31, 30, 31, 30, 31]"

definition days_in :: "nat \<Rightarrow> nat \<Rightarrow> nat" where
  "days_in y m = month_lengths y ! (m - 1)"

text \<open>Days from 1 January of year 1 to a date.\<close>

definition days_before_year :: "nat \<Rightarrow> nat" where
  "days_before_year y = 365 * (y - 1) + (y - 1) div 4 - (y - 1) div 100 + (y - 1) div 400"

definition day_number :: "nat \<Rightarrow> nat \<Rightarrow> nat \<Rightarrow> nat" where
  "day_number y m d = days_before_year y + sum_list (take (m - 1) (month_lengths y)) + (d - 1)"

text \<open>The date of a day: the cycles of 400, 100, 4 and 1 years, then the months.\<close>

fun split_month :: "nat list \<Rightarrow> nat \<Rightarrow> nat \<Rightarrow> nat \<times> nat" where
  "split_month [] m d = (m, d + 1)"
| "split_month (l # ls) m d = (if d < l then (m, d + 1) else split_month ls (m + 1) (d - l))"

definition year_and_day :: "nat \<Rightarrow> nat \<times> nat" where
  "year_and_day n =
     (let a = n div 146097; b = n mod 146097;
          h = min 3 (b div 36524); r = b - 36524 * h;
          q = r div 1461; s = r mod 1461;
          u = min 3 (s div 365)
      in (400 * a + 100 * h + 4 * q + u + 1, s - 365 * u))"

definition civil :: "nat \<Rightarrow> nat \<times> nat \<times> nat" where
  "civil n =
     (case year_and_day n of (y, yday) \<Rightarrow>
        (case split_month (month_lengths y) 1 yday of (m, d) \<Rightarrow> (y, m, d)))"

lemma capped_div:
  fixes x k h :: nat
  assumes "x \<le> 4 * k" "0 < k" "h = min 3 (x div k)"
  shows "h \<le> 3" "k * h \<le> x" "x - k * h \<le> k" "x - k * h = k \<Longrightarrow> h = 3"
proof -
  show "h \<le> 3" using assms(3) by simp
  have "k * h \<le> k * (x div k)" using assms(3) by simp
  then show "k * h \<le> x" using times_div_less_eq_dividend [of k x] by linarith
  have "x - k * h < k" if "h \<noteq> 3"
  proof -
    from that assms(3) have "h = x div k" by (auto simp: min_def split: if_splits)
    then show ?thesis using assms(2) by (simp add: minus_mult_div_eq_mod)
  qed
  with assms(1) show "x - k * h \<le> k" "x - k * h = k \<Longrightarrow> h = 3"
    by (cases "h = 3"; fastforce)+
qed

text \<open>The digits of a day number: whole 400-year, 100-year, 4-year cycles and years, and the
  day in the year, the last of which is only reached in the years the cycles end with.\<close>

lemma year_digits:
  assumes "year_and_day n = (y, yday)"
  obtains a h q u where "y = 400 * a + 100 * h + 4 * q + u + 1"
    and "n = 146097 * a + 36524 * h + 1461 * q + 365 * u + yday"
    and "h \<le> 3" "q \<le> 24" "u \<le> 3" "yday \<le> 365"
    and "yday = 365 \<longrightarrow> u = 3 \<and> (q = 24 \<longrightarrow> h = 3)"
proof -
  define a b where "a = n div 146097" and "b = n mod 146097"
  define h where "h = min 3 (b div 36524)"
  define r where "r = b - 36524 * h"
  define q s where "q = r div 1461" and "s = r mod 1461"
  define u where "u = min 3 (s div 365)"
  note defs = a_def b_def h_def r_def q_def s_def u_def
  have "(400 * a + 100 * h + 4 * q + u + 1, s - 365 * u) = (y, yday)"
    using assms unfolding year_and_day_def Let_def defs .
  then have y: "y = 400 * a + 100 * h + 4 * q + u + 1" and yday: "yday = s - 365 * u" by simp_all
  have n: "n = 146097 * a + b" "b < 146097" by (simp_all add: a_def b_def)
  then have "b \<le> 4 * 36524" by simp
  note h = capped_div [OF this _ h_def, folded r_def, simplified]
  have r: "r = 1461 * q + s" "s < 1461" by (simp_all add: q_def s_def)
  then have "s \<le> 4 * 365" by simp
  note u = capped_div [OF this _ u_def, folded yday, simplified]
  have b: "b = 36524 * h + r" using h(2) by (simp add: r_def)
  have s: "s = 365 * u + yday" using u(2) by (simp add: yday)
  show thesis
  proof (rule that [OF y])
    show "n = 146097 * a + 36524 * h + 1461 * q + 365 * u + yday" using n(1) b r(1) s by simp
    show "q \<le> 24" using h(3) r by simp
    show "yday = 365 \<longrightarrow> u = 3 \<and> (q = 24 \<longrightarrow> h = 3)"
      using h(4) u(4) r(1) s by simp
  qed (use h u in simp_all)
qed

lemma cycles_before:
  fixes a h q u :: nat
  assumes "h \<le> 3" "q \<le> 24" "u \<le> 3"
  shows "(400 * a + 100 * h + 4 * q + u) div 4 = 100 * a + 25 * h + q"
    "(400 * a + 100 * h + 4 * q + u) div 100 = 4 * a + h"
    "(400 * a + 100 * h + 4 * q + u) div 400 = a"
  using assms by (intro div_nat_eqI; simp)+

lemma leap_last:
  fixes a h q :: nat
  assumes "q \<le> 24" "q = 24 \<Longrightarrow> h = 3"
  shows "leap (400 * a + 100 * h + 4 * (q + 1))"
proof (cases "q = 24")
  case True
  with assms(2) have "400 * a + 100 * h + 4 * (q + 1) = 400 * (a + 1)" by simp
  then show ?thesis unfolding leap_def by (simp only: mod_mult_self1_is_0) simp
next
  case False
  with assms(1) have "4 * (q + 1) < 100" by simp
  moreover have "400 * a + 100 * h + 4 * (q + 1) = 4 * (q + 1) + 100 * (4 * a + h)"
    and four: "400 * a + 100 * h + 4 * (q + 1) = 4 * (100 * a + 25 * h + q + 1)" by simp_all
  ultimately have "(400 * a + 100 * h + 4 * (q + 1)) mod 100 = 4 * (q + 1)"
    by (simp only: mod_mult_self2 mod_less)
  moreover have "(400 * a + 100 * h + 4 * (q + 1)) mod 4 = 0"
    unfolding four by (simp only: mod_mult_self1_is_0)
  ultimately show ?thesis by (simp add: leap_def)
qed

lemma year_and_day:
  assumes "year_and_day n = (y, yday)"
  shows "1 \<le> y" "days_before_year y + yday = n" "yday < (if leap y then 366 else 365)"
    "n < 3652059 \<Longrightarrow> y \<le> 9999"
proof -
  obtain a h q u where y: "y = 400 * a + 100 * h + 4 * q + u + 1"
    and n: "n = 146097 * a + 36524 * h + 1461 * q + 365 * u + yday"
    and bounds: "h \<le> 3" "q \<le> 24" "u \<le> 3" "yday \<le> 365"
    and last: "yday = 365 \<longrightarrow> u = 3 \<and> (q = 24 \<longrightarrow> h = 3)"
    by (rule year_digits [OF assms])
  show "1 \<le> y" by (simp add: y)
  show "days_before_year y + yday = n"
    unfolding days_before_year_def y add_diff_cancel_right' cycles_before [OF bounds(1-3)]
    by (simp add: n)
  show "y \<le> 9999" if "n < 3652059"
  proof (rule ccontr)
    assume "\<not> y \<le> 9999"
    moreover from that n have "a \<le> 24" by simp
    ultimately show False using y n bounds that by linarith
  qed
  show "yday < (if leap y then 366 else 365)"
  proof (cases "yday = 365")
    case True
    with last have "y = 400 * a + 100 * h + 4 * (q + 1)" by (simp add: y)
    with leap_last [OF bounds(2)] last True show ?thesis by simp
  qed (use bounds(4) in auto)
qed

lemma split_month:
  assumes "d < sum_list ls" "split_month ls m d = (m', k)"
  shows "m \<le> m'" "m' - m < length ls" "1 \<le> k" "k \<le> ls ! (m' - m)"
    "sum_list (take (m' - m) ls) + (k - 1) = d"
proof -
  have "m \<le> m' \<and> m' - m < length ls \<and> 1 \<le> k \<and> k \<le> ls ! (m' - m) \<and>
      sum_list (take (m' - m) ls) + (k - 1) = d"
    using assms
  proof (induction ls m d rule: split_month.induct)
    case (1 m d)
    then show ?case by simp
  next
    case (2 l ls m d)
    show ?case
    proof (cases "d < l")
      case True
      with 2 show ?thesis by auto
    next
      case False
      with 2(2,3) have "d - l < sum_list ls" "split_month ls (m + 1) (d - l) = (m', k)" by auto
      then have ih: "m + 1 \<le> m'" "m' - (m + 1) < length ls" "1 \<le> k" "k \<le> ls ! (m' - (m + 1))"
        "sum_list (take (m' - (m + 1)) ls) + (k - 1) = d - l"
        using 2(1) [OF False] by simp_all
      then have "m' - m = Suc (m' - (m + 1))" by simp
      with ih False show ?thesis by (simp del: One_nat_def)
    qed
  qed
  then show "m \<le> m'" "m' - m < length ls" "1 \<le> k" "k \<le> ls ! (m' - m)"
    "sum_list (take (m' - m) ls) + (k - 1) = d" by simp_all
qed

lemma sum_month_lengths: "sum_list (month_lengths y) = (if leap y then 366 else 365)"
  by (simp add: month_lengths_def)

lemma civil:
  assumes "civil n = (y, m, d)"
  shows "1 \<le> y" "1 \<le> m" "m \<le> 12" "1 \<le> d" "d \<le> days_in y m" "day_number y m d = n"
    "n < 3652059 \<Longrightarrow> y \<le> 9999"
proof -
  obtain yday where yd: "year_and_day n = (y, yday)"
    and md: "split_month (month_lengths y) 1 yday = (m, d)"
    using assms by (auto simp: civil_def split: prod.splits)
  note year = year_and_day [OF yd]
  have "yday < sum_list (month_lengths y)" using year(3) by (simp add: sum_month_lengths)
  note month = split_month [OF this md]
  show "1 \<le> y" "1 \<le> m" "1 \<le> d" "d \<le> days_in y m" using year month by (simp_all add: days_in_def)
  show "n < 3652059 \<Longrightarrow> y \<le> 9999" by (rule year(4))
  show "m \<le> 12" using month(1,2) by (simp add: month_lengths_def)
  show "day_number y m d = n" using year(2) month(5) by (simp add: day_number_def)
qed


section \<open>Formatting and parsing\<close>

definition fraction :: "nat \<Rightarrow> string" where
  "fraction ns = (if ns = 0 then [] else CHR ''.'' # trim_right (CHR ''0'') (digits 9 ns))"

definition year_text :: "nat \<Rightarrow> string" where
  "year_text y = (if y < 10000 then digits 4 y else show_nat y)"

text \<open>\<open>t.UTC().Format(time.RFC3339Nano)\<close>, for instants from year 1 on.\<close>

definition format_rfc3339nano :: "time \<Rightarrow> string" where
  "format_rfc3339nano t =
     (let secs = nat t div 1000000000; sod = secs mod 86400 in
      case civil (secs div 86400) of (y, m, d) \<Rightarrow>
        year_text y @ ''-'' @ digits 2 m @ ''-'' @ digits 2 d @ ''T'' @
        digits 2 (sod div 3600) @ '':'' @ digits 2 (sod div 60 mod 60) @ '':'' @ digits 2 (sod mod 60) @
        fraction (nat t mod 1000000000) @ ''Z'')"

definition parse_fraction :: "string \<Rightarrow> nat \<times> string" where
  "parse_fraction s =
     (case s of
        dot # d # r \<Rightarrow>
          if dot = CHR ''.'' \<and> is_digit d
          then (let ds = takeWhile is_digit (d # r) in
                (decimal (take 9 ds) * 10 ^ (9 - length (take 9 ds)), dropWhile is_digit (d # r)))
          else (0, s)
      | _ \<Rightarrow> (0, s))"

definition instant :: "nat \<Rightarrow> nat \<Rightarrow> nat \<Rightarrow> nat \<Rightarrow> nat \<Rightarrow> nat \<Rightarrow> nat \<Rightarrow> time" where
  "instant y m d hh mm ss ns =
     (let days = (if y = 0 then int (day_number y m d) - 366 else int (day_number y m d)) in
      ((days * 24 + int hh) * 60 + int mm) * 60 * second + int ss * second + int ns)"

text \<open>The fast path of \<open>time.Parse\<close>, for a text in UTC.\<close>

definition parse_utc :: "string \<Rightarrow> time option" where
  "parse_utc s =
     (if length s < 19 then None
      else Option.bind (parse_uint (take 4 s) 0 9999) (\<lambda>y.
        Option.bind (parse_uint (take 2 (drop 5 s)) 1 12) (\<lambda>m.
        Option.bind (parse_uint (take 2 (drop 8 s)) 1 (days_in y m)) (\<lambda>d.
        Option.bind (parse_uint (take 2 (drop 11 s)) 0 23) (\<lambda>hh.
        Option.bind (parse_uint (take 2 (drop 14 s)) 0 59) (\<lambda>mm.
        Option.bind (parse_uint (take 2 (drop 17 s)) 0 59) (\<lambda>ss.
          if s ! 4 = CHR ''-'' \<and> s ! 7 = CHR ''-'' \<and> s ! 10 = CHR ''T'' \<and> s ! 13 = CHR '':'' \<and>
             s ! 16 = CHR '':''
          then (case parse_fraction (drop 19 s) of (ns, zone) \<Rightarrow>
                  if zone = ''Z'' then Some (instant y m d hh mm ss ns) else None)
          else None)))))))"

definition parse_rfc3339nano :: "(string \<Rightarrow> time result) \<Rightarrow> string \<Rightarrow> time result" where
  "parse_rfc3339nano general s =
     (case parse_utc s of Some t \<Rightarrow> Inr t | None \<Rightarrow> general s)"

definition year_10000 :: time where
  "year_10000 = 3652059 * 86400 * second"

lemma takeWhile_eq_replicate:
  "takeWhile (\<lambda>x. x = c) xs = replicate (length (takeWhile (\<lambda>x. x = c) xs)) c"
  by (induction xs) auto

lemma trim_right_split:
  "xs = trim_right c xs @ replicate (length (takeWhile (\<lambda>x. x = c) (rev xs))) c"
proof -
  have "rev xs = takeWhile (\<lambda>x. x = c) (rev xs) @ dropWhile (\<lambda>x. x = c) (rev xs)" by simp
  then have "rev xs = replicate (length (takeWhile (\<lambda>x. x = c) (rev xs))) c @
      dropWhile (\<lambda>x. x = c) (rev xs)"
    using takeWhile_eq_replicate [of c "rev xs"] by simp
  from arg_cong [OF this, of rev] show ?thesis by (simp add: trim_right_def)
qed

lemma digit_not_Z: "\<not> is_digit (CHR ''Z'')"
  by (simp add: is_digit_def)

lemma parse_fraction_back:
  assumes "ns < 1000000000"
  shows "parse_fraction (fraction ns @ ''Z'') = (ns, ''Z'')"
proof (cases "ns = 0")
  case True
  then show ?thesis by (simp add: fraction_def parse_fraction_def)
next
  case False
  let ?ds = "digits 9 ns"
  define s where "s = trim_right (CHR ''0'') ?ds"
  define j where "j = length (takeWhile (\<lambda>x. x = CHR ''0'') (rev ?ds))"
  have ds: "?ds = s @ replicate j (CHR ''0'')"
    unfolding s_def j_def by (rule trim_right_split)
  have "decimal ?ds = ns" using assms by (intro decimal_digits) simp
  then have val: "decimal s * 10 ^ j = ns" by (simp add: ds decimal_zeros)
  have len: "length s + j = 9" using arg_cong [OF ds, of length] by simp
  have digs: "list_all is_digit s"
    using digits_are_digits [of 9 ns] by (simp add: ds)
  have ne: "s \<noteq> []"
  proof
    assume "s = []"
    with val have "ns = 0" by (simp add: decimal_def)
    with False show False by simp
  qed
  then obtain c r where s: "s = c # r" by (cases s) auto
  have take: "takeWhile is_digit (s @ ''Z'') = s" "dropWhile is_digit (s @ ''Z'') = ''Z''"
    using digs digit_not_Z by (simp_all add: list_all_iff takeWhile_append2 dropWhile_append2)
  have "9 - length s = j" "take 9 s = s" using len by simp_all
  then show ?thesis
    using False s digs take val
    by (simp add: fraction_def parse_fraction_def Let_def flip: s_def)
qed


lemma parse_utc_parts:
  assumes "y \<le> 9999" "1 \<le> m" "m \<le> 12" "1 \<le> d" "d \<le> days_in y m" "hh \<le> 23" "mm \<le> 59" "ss \<le> 59"
    and "ns < 1000000000"
  shows "parse_utc (digits 4 y @ ''-'' @ digits 2 m @ ''-'' @ digits 2 d @ ''T'' @
      digits 2 hh @ '':'' @ digits 2 mm @ '':'' @ digits 2 ss @ fraction ns @ ''Z'') =
    Some (instant y m d hh mm ss ns)" (is "parse_utc ?s = _")
proof -
  have d31: "days_in y m \<le> 31"
  proof -
    have "m - 1 < length (month_lengths y)" using assms by (simp add: month_lengths_def)
    then have "days_in y m \<in> set (month_lengths y)" by (simp add: days_in_def)
    then show ?thesis by (auto simp: month_lengths_def split: if_splits)
  qed
  have parts: "take 4 ?s = digits 4 y" "take 2 (drop 5 ?s) = digits 2 m"
    "take 2 (drop 8 ?s) = digits 2 d" "take 2 (drop 11 ?s) = digits 2 hh"
    "take 2 (drop 14 ?s) = digits 2 mm" "take 2 (drop 17 ?s) = digits 2 ss"
    "drop 19 ?s = fraction ns @ ''Z''"
    by (simp_all add: drop_Cons')
  have punct: "?s ! 4 = CHR ''-''" "?s ! 7 = CHR ''-''" "?s ! 10 = CHR ''T''" "?s ! 13 = CHR '':''"
    "?s ! 16 = CHR '':''"
    by (simp_all add: nth_append nth_Cons')
  have nums: "parse_uint (digits 4 y) 0 9999 = Some y" "parse_uint (digits 2 m) 1 12 = Some m"
    "parse_uint (digits 2 d) 1 (days_in y m) = Some d" "parse_uint (digits 2 hh) 0 23 = Some hh"
    "parse_uint (digits 2 mm) 0 59 = Some mm" "parse_uint (digits 2 ss) 0 59 = Some ss"
    using assms d31 by (auto intro!: parse_uint_digits)
  have "\<not> length ?s < 19" by simp
  moreover have "parse_utc ?s = Some (instant y m d hh mm ss ns)" if "\<not> length ?s < 19"
    unfolding parse_utc_def if_not_P [OF that] parts punct parse_fraction_back [OF assms(9)] nums
      Option.bind_lunit by (simp only: simp_thms if_True prod.case)
  ultimately show ?thesis by blast
qed

lemma instant_back:
  assumes "0 \<le> t" "civil (nat t div 1000000000 div 86400) = (y, m, d)"
  shows "instant y m d (nat t div 1000000000 mod 86400 div 3600)
      (nat t div 1000000000 mod 86400 div 60 mod 60) (nat t div 1000000000 mod 86400 mod 60)
      (nat t mod 1000000000) = t"
proof -
  define secs where "secs = nat t div 1000000000"
  define ns where "ns = nat t mod 1000000000"
  define sod where "sod = secs mod 86400"
  define dd hh mm ss where "dd = secs div 86400" and "hh = sod div 3600"
    and "mm = sod div 60 mod 60" and "ss = sod mod 60"
  note defs = secs_def [symmetric] ns_def [symmetric] sod_def [symmetric] dd_def [symmetric]
    hh_def [symmetric] mm_def [symmetric] ss_def [symmetric]
  have day: "y \<noteq> 0" "day_number y m d = dd"
    using civil(1,6) [OF assms(2) [unfolded defs]] by simp_all
  have "sod div 60 div 60 = hh" unfolding hh_def by (simp only: div_mult2_eq [symmetric]) simp
  then have "sod = hh * 3600 + mm * 60 + ss"
    using div_mult_mod_eq [of sod 60] div_mult_mod_eq [of "sod div 60" 60] unfolding mm_def ss_def
    by linarith
  moreover have "secs = dd * 86400 + sod"
    unfolding sod_def dd_def by (simp only: div_mult_mod_eq)
  moreover have "nat t = secs * 1000000000 + ns"
    unfolding secs_def ns_def by (simp only: div_mult_mod_eq)
  ultimately have "nat t = (dd * 86400 + hh * 3600 + mm * 60 + ss) * 1000000000 + ns" by simp
  then have "int (nat t) = int ((dd * 86400 + hh * 3600 + mm * 60 + ss) * 1000000000 + ns)"
    by (rule arg_cong)
  then have "t = (int dd * 86400 + int hh * 3600 + int mm * 60 + int ss) * 1000000000 + int ns"
    using assms(1) by simp
  then have "instant y m d hh mm ss ns = t"
    using day by (simp add: instant_def Let_def)
  then show ?thesis unfolding defs .
qed

lemma clock_parts: "n mod 86400 div 3600 \<le> 23" "n div 60 mod 60 \<le> 59" "n mod 60 \<le> 59" for n :: nat
proof -
  have "n mod 86400 < 24 * 3600" by simp
  then have "n mod 86400 div 3600 < 24" by (rule less_mult_imp_div_less)
  then show "n mod 86400 div 3600 \<le> 23" by linarith
  have "x mod 60 < 60" for x :: nat by simp
  from this [of "n div 60"] this [of n] show "n div 60 mod 60 \<le> 59" "n mod 60 \<le> 59" by linarith+
qed

text \<open>What the client formats, the server parses to the same instant.\<close>

lemma parse_format:
  assumes "0 \<le> t" "t < year_10000"
  shows "parse_rfc3339nano general (format_rfc3339nano t) = Inr t"
proof -
  let ?secs = "nat t div 1000000000"
  let ?sod = "?secs mod 86400"
  obtain y m d where c: "civil (?secs div 86400) = (y, m, d)" by (cases "civil (?secs div 86400)")
  have "nat t < 3652059 * 86400 * 1000000000" using assms by (simp add: year_10000_def)
  then have "?secs < 3652059 * 86400" by (rule less_mult_imp_div_less)
  then have "?secs div 86400 < 3652059" by (rule less_mult_imp_div_less)
  with civil [OF c] have y: "y \<le> 9999" "1 \<le> m" "m \<le> 12" "1 \<le> d" "d \<le> days_in y m" by blast+
  then have "y < 10000" by simp
  have "parse_utc (format_rfc3339nano t) = Some t"
    unfolding format_rfc3339nano_def Let_def c prod.case year_text_def if_P [OF \<open>y < 10000\<close>]
    by (rule trans [OF parse_utc_parts [OF y clock_parts]])
      (simp, simp only: instant_back [OF assms(1) c])
  then show ?thesis by (simp add: parse_rfc3339nano_def)
qed

text \<open>A formatted instant is never the literal \<open>0\<close>.\<close>

lemma format_not_zero: "format_rfc3339nano t \<noteq> ''0''"
proof -
  have "2 \<le> length (format_rfc3339nano t)"
    by (auto simp: format_rfc3339nano_def Let_def split: prod.split)
  then show ?thesis by auto
qed

end
