(* ===== verification/Http.thy ===== *)
theory Http
  imports Dag_Json Sse Rfc3339
begin

text \<open>
  The HTTP interface of \<^verbatim>\<open>pkg/fx/app.go\<close> to stored revocations: the cursor
  (\<open>parseFrom\<close>), the event stream (\<open>firehoseHandler\<close>, \<open>writeFirehoseRecord\<close>,
  \<open>writeFirehoseError\<close>) and the lookup (\<open>revocationHandler\<close>,
  \<open>encodeRevocationRecord\<close>). A handler is a function of what it reads (the path
  parameter, the store's answers) and of the connection: \<open>net out s\<close> is the error of
  writing \<open>s\<close> after \<open>out\<close>, if any. Its result is the error it returns and the response
  so far, \<open>None\<close> while nothing was sent.
\<close>

section \<open>Requests and responses\<close>

record response =
  rs_status :: nat
  rs_content_type :: string
  rs_cache_control :: string
  rs_body :: bytes

text \<open>
  What the handlers borrow: the two codecs, the general layout parser of \<^verbatim>\<open>time.Parse\<close>,
  the texts of library errors and \<open>json.Marshal\<close> of a map with one string.
\<close>

record ('w, 'r) http_env =
  he_ucan :: ucan_lib
  he_json :: "('w, 'r) json_lib"
  he_parse_time :: "string \<Rightarrow> time result"
  he_sentinel_text :: "sentinel \<Rightarrow> string"
  he_json_error :: "string \<Rightarrow> bytes result"

definition parse_from :: "(string \<Rightarrow> time result) \<Rightarrow> string \<Rightarrow> time result" where
  "parse_from general value =
     (if value = ''0'' then Inr 0
      else case parse_rfc3339nano general value of
          Inl e \<Rightarrow> Inl (Wrap ''invalid from timestamp'' e) | Inr t \<Rightarrow> Inr t)"

section \<open>The event stream\<close>

definition firehose_value_of :: "revocation_record \<Rightarrow> api_firehose" where
  "firehose_value_of record =
     \<lparr>af_revoke = rr_revoke record, af_path = map dlg_link (rr_path record),
      af_cause = inv_link (rr_cause record), af_recorded_at = rr_recorded_at record\<rparr>"

definition encode_firehose_event :: "('w, 'r) json_lib \<Rightarrow> api_firehose \<Rightarrow> bytes result" where
  "encode_firehose_event lib event =
     (case marshal_firehose lib event of
        Inl e \<Rightarrow> Inl (Wrap ''encoding firehose record as DAG-JSON'' e) | Inr data \<Rightarrow> Inr data)"

text \<open>The block of one record: its id, its type, one data line and a blank line.\<close>

definition record_block :: "string \<Rightarrow> string \<Rightarrow> bytes" where
  "record_block link data = id_line link @ event_block ''revocation'' data"

definition write_firehose_record ::
  "('w, 'r) http_env \<Rightarrow> (bytes \<Rightarrow> bytes \<Rightarrow> error option) \<Rightarrow> revocation_record \<Rightarrow> bytes \<Rightarrow>
     error option \<times> bytes" where
  "write_firehose_record env net record out =
     (case encode_firehose_event (he_json env) (firehose_value_of record) of
        Inl e \<Rightarrow> (Some e, out)
      | Inr data \<Rightarrow>
          (let block = record_block (cid_text (he_ucan env) (inv_link (rr_cause record))) data in
           case net out block of
             Some e \<Rightarrow> (Some (Wrap ''writing revocation event'' e), out)
           | None \<Rightarrow> (None, out @ block)))"

definition write_firehose_error ::
  "('w, 'r) http_env \<Rightarrow> (bytes \<Rightarrow> bytes \<Rightarrow> error option) \<Rightarrow> error \<Rightarrow> bytes \<Rightarrow> bytes" where
  "write_firehose_error env net err out =
     (case he_json_error env (error_text (he_sentinel_text env) err) of
        Inl _ \<Rightarrow> out
      | Inr data \<Rightarrow>
          (let block = event_block ''error'' data in
           case net out block of Some _ \<Rightarrow> out | None \<Rightarrow> out @ block))"

text \<open>The loop over what the store's stream yields, records and at last an error.\<close>

fun firehose_loop ::
  "('w, 'r) http_env \<Rightarrow> (bytes \<Rightarrow> bytes \<Rightarrow> error option) \<Rightarrow> revocation_record result list \<Rightarrow> bytes \<Rightarrow>
     error option \<times> bytes" where
  "firehose_loop env net [] out = (None, out)"
| "firehose_loop env net (Inl err # items) out =
     (if errors_is err Canceled then (None, out)
      else (Some (Wrap ''streaming revocations'' err), write_firehose_error env net err out))"
| "firehose_loop env net (Inr record # items) out =
     (case write_firehose_record env net record out of
        (Some e, out') \<Rightarrow> (Some e, out')
      | (None, out') \<Rightarrow> firehose_loop env net items out')"

definition firehose_handler ::
  "('w, 'r) http_env \<Rightarrow> (bytes \<Rightarrow> bytes \<Rightarrow> error option) \<Rightarrow>
     (time \<Rightarrow> revocation_record result list) \<Rightarrow> string \<Rightarrow> error option \<times> response option" where
  "firehose_handler env net stream param =
     (case parse_from (he_parse_time env) param of
        Inl e \<Rightarrow> (Some (HTTPError 400 (error_text (he_sentinel_text env) e)), None)
      | Inr from \<Rightarrow>
          (case firehose_loop env net (stream from) [] of
             (err, out) \<Rightarrow>
               (err, Some \<lparr>rs_status = 200, rs_content_type = ''text/event-stream'',
                           rs_cache_control = ''no-cache'', rs_body = out\<rparr>)))"

section \<open>The lookup\<close>

definition encode_revocation_record ::
  "('w, 'r) http_env \<Rightarrow> revocation_record \<Rightarrow> bytes result" where
  "encode_revocation_record env record =
     (case encode_invocation (he_ucan env) (rr_cause record) of
        Inl e \<Rightarrow> Inl (Wrap ''encoding revocation cause'' e)
      | Inr cause \<Rightarrow>
          (case encode_path (he_ucan env)
                  (\<lambda>i. ''encoding delegation at path index '' @ show_nat i) (rr_path record) of
             Inl e \<Rightarrow> Inl e
           | Inr path \<Rightarrow>
               (case marshal_revocation (he_json env)
                       \<lparr>ar_revoke = rr_revoke record, ar_path = path, ar_cause = cause,
                        ar_recorded_at = rr_recorded_at record\<rparr> of
                  Inl e \<Rightarrow> Inl (Wrap ''encoding revocation record as DAG-JSON'' e)
                | Inr data \<Rightarrow> Inr data)))"

text \<open>\<open>get\<close> is the store's \<open>Get\<close> in the context of the request.\<close>

definition revocation_handler ::
  "('w, 'r) http_env \<Rightarrow> (cid \<Rightarrow> revocation_record result) \<Rightarrow> string \<Rightarrow>
     error option \<times> response option" where
  "revocation_handler env get param =
     (case cid_decode (he_ucan env) param of
        Inl _ \<Rightarrow> (Some (HTTPError 400 ''invalid delegation CID''), None)
      | Inr delegation \<Rightarrow>
          (case get delegation of
             Inl e \<Rightarrow>
               if errors_is e NotFound then (Some (HTTPError 404 ''revocation not found''), None)
               else (Some (Wrap ''getting revocation'' e), None)
           | Inr record \<Rightarrow>
               (case encode_revocation_record env record of
                  Inl e \<Rightarrow> (Some (Wrap ''encoding revocation'' e), None)
                | Inr data \<Rightarrow>
                    (None, Some \<lparr>rs_status = 200,
                       rs_content_type = ''application/vnd.ipld.dag-json'',
                       rs_cache_control = ''public, max-age=31536000, immutable'',
                       rs_body = data\<rparr>))))"

text \<open>
  The status the client sees: the response's, the code of an echo HTTP error, and 500 for
  any other error the handler returns before a response was sent.
\<close>

definition status_of :: "error option \<times> response option \<Rightarrow> nat" where
  "status_of r =
     (case r of
        (_, Some resp) \<Rightarrow> rs_status resp
      | (Some (HTTPError code m), None) \<Rightarrow> code
      | (Some e, None) \<Rightarrow> 500
      | (None, None) \<Rightarrow> 200)"

section \<open>What the blocks read back as\<close>

lemma record_block_scan:
  assumes "ls_state (sc_lines s) = Reading" "sc_err s = None"
    and "ls_pending (sc_lines s) = record_block link data @ b"
    and "nl \<notin> set link" "length link + 4 < max_line_bytes"
    and "one_line data" "length data \<le> max_event_bytes"
  shows "scan s = (True, s\<lparr>sc_lines := (sc_lines s)\<lparr>ls_pending := b\<rparr>, sc_event := ''revocation'',
    sc_data := data\<rparr>)"
proof -
  let ?s = "s\<lparr>sc_lines := (sc_lines s)\<lparr>ls_pending := event_block ''revocation'' data @ b\<rparr>\<rparr>"
  have "scan s = scan ?s"
    using assms by (intro scan_id_line) (simp_all add: record_block_def)
  also have "\<dots> = (True, ?s\<lparr>sc_lines := (sc_lines ?s)\<lparr>ls_pending := b\<rparr>, sc_event := ''revocation'',
      sc_data := data\<rparr>)"
  proof (rule scan_event_block)
    show "trim_space ('' '' @ ''revocation'') = ''revocation''" by code_simp
    show "one_line ''revocation''" "''revocation'' \<noteq> []" "length ''revocation'' + 7 < max_line_bytes"
      by (simp_all add: one_line_def max_line_bytes_def max_event_bytes_def)
  qed (use assms in simp_all)
  finally show ?thesis by (cases s) simp
qed

text \<open>A block that can be sent: what the scanner's limits and the line format ask of it.\<close>

definition block_ok :: "string \<times> string \<Rightarrow> bool" where
  "block_ok b \<longleftrightarrow>
     nl \<notin> set (fst b) \<and> length (fst b) + 4 < max_line_bytes \<and>
     one_line (snd b) \<and> length (snd b) \<le> max_event_bytes"

definition record_blocks :: "(string \<times> string) list \<Rightarrow> bytes" where
  "record_blocks bs = concat (map (\<lambda>(link, data). record_block link data) bs)"

text \<open>Whole blocks, then whatever follows them.\<close>

lemma scan_blocks:
  assumes "ls_state (sc_lines s) = Reading" "sc_err s = None"
    and "ls_pending (sc_lines s) = record_blocks bs @ tail" "list_all block_ok bs"
  shows "\<exists>ev d. scan_all s =
     (case scan_all (s\<lparr>sc_lines := (sc_lines s)\<lparr>ls_pending := tail\<rparr>, sc_event := ev, sc_data := d\<rparr>) of
        (es, z) \<Rightarrow> (map (\<lambda>(link, data). (''revocation'', data)) bs @ es, z))"
  using assms
proof (induction bs arbitrary: s)
  case Nil
  have "s = s\<lparr>sc_lines := (sc_lines s)\<lparr>ls_pending := tail\<rparr>, sc_event := sc_event s, sc_data := sc_data s\<rparr>"
    using Nil.prems(3) by (cases s; cases "sc_lines s") (simp add: record_blocks_def)
  then show ?case by (intro exI [of _ "sc_event s"] exI [of _ "sc_data s"]) (simp split: prod.split)
next
  case (Cons b bs)
  obtain link data where b: "b = (link, data)" by (cases b)
  let ?s = "s\<lparr>sc_lines := (sc_lines s)\<lparr>ls_pending := record_blocks bs @ tail\<rparr>,
    sc_event := ''revocation'', sc_data := data\<rparr>"
  have "block_ok (link, data)" using Cons.prems(4) b by simp
  then have ok: "nl \<notin> set link" "length link + 4 < max_line_bytes" "one_line data"
    "length data \<le> max_event_bytes"
    by (simp_all add: block_ok_def)
  have "ls_pending (sc_lines s) = record_block link data @ record_blocks bs @ tail"
    using Cons.prems(3) b by (simp add: record_blocks_def)
  then have scan: "scan s = (True, ?s)"
    using Cons.prems(1,2) ok by (intro record_block_scan)
  obtain ev d where "scan_all ?s =
     (case scan_all (?s\<lparr>sc_lines := (sc_lines ?s)\<lparr>ls_pending := tail\<rparr>, sc_event := ev, sc_data := d\<rparr>) of
        (es, z) \<Rightarrow> (map (\<lambda>(link, data). (''revocation'', data)) bs @ es, z))"
    using Cons.IH [of ?s] Cons.prems by auto
  moreover have "?s\<lparr>sc_lines := (sc_lines ?s)\<lparr>ls_pending := tail\<rparr>, sc_event := ev, sc_data := d\<rparr> =
      s\<lparr>sc_lines := (sc_lines s)\<lparr>ls_pending := tail\<rparr>, sc_event := ev, sc_data := d\<rparr>"
    by (cases s) simp
  ultimately show ?case
    using b by (intro exI [of _ ev] exI [of _ d])
      (simp add: scan_all.simps [of s] scan split: prod.splits)
qed

text \<open>A block cut anywhere before its end has no blank line, so it yields no event.\<close>

lemma dispatch_no_blank: "[] \<notin> set ls \<Longrightarrow> dispatch ev d ls = []"
  by (induction ev d ls rule: dispatch.induct) auto

lemma drop_cr_nonempty: "l \<noteq> [] \<Longrightarrow> hd l \<noteq> cr \<Longrightarrow> drop_cr l \<noteq> []"
  by (cases l) (auto simp: drop_cr_def)

lemma cut_lines:
  assumes "tail @ unsent = concat (map (\<lambda>l. l @ [nl]) ls) @ [nl]" "unsent \<noteq> []"
    and "\<forall>l \<in> set ls. nl \<notin> set l \<and> l \<noteq> [] \<and> hd l \<noteq> cr"
  shows "[] \<notin> set (split_lines tail)"
  using assms
proof (induction ls arbitrary: tail)
  case Nil
  then have "tail = []" by (cases tail) auto
  then show ?case by simp
next
  case (Cons l ls)
  have l: "nl \<notin> set l" "l \<noteq> []" "hd l \<noteq> cr" using Cons.prems(3) by auto
  have eq: "tail @ unsent = l @ nl # concat (map (\<lambda>l. l @ [nl]) ls) @ [nl]" using Cons.prems(1) by simp
  then consider us where "tail = l @ us" "us @ unsent = nl # concat (map (\<lambda>l. l @ [nl]) ls) @ [nl]"
    | us where "tail @ us = l" by (auto simp: append_eq_append_conv2)
  then show ?case
  proof cases
    case (1 us)
    show ?thesis
    proof (cases us)
      case Nil
      with 1 l drop_cr_nonempty [OF l(2,3)] show ?thesis by (simp add: split_lines.simps [of l])
    next
      case (Cons c us')
      with 1 Cons.IH [of us'] Cons.prems l drop_cr_nonempty [OF l(2,3)]
      show ?thesis by (simp add: split_lines.simps [of "l @ nl # us'"])
    qed
  next
    case (2 us)
    then have "nl \<notin> set tail" "tail \<noteq> [] \<longrightarrow> hd tail \<noteq> cr" using l by auto
    then show ?thesis
      using drop_cr_nonempty [of tail] by (cases "tail = []") (simp_all add: split_lines.simps [of tail])
  qed
qed

lemma cut_record_block:
  assumes "tail @ unsent = record_block link data" "unsent \<noteq> []" "nl \<notin> set link" "nl \<notin> set data"
  shows "[] \<notin> set (split_lines tail)"
proof (rule cut_lines)
  show "tail @ unsent = concat (map (\<lambda>l. l @ [nl]) [''id: '' @ link, ''event: revocation'',
      ''data: '' @ data]) @ [nl]"
    using assms(1) by (simp add: record_block_def id_line_def event_block_def)
qed (use assms(2-) in auto)

lemma cut_error_block:
  assumes "tail @ unsent = event_block ''error'' msg" "unsent \<noteq> []" "nl \<notin> set msg"
  shows "[] \<notin> set (split_lines tail)"
proof (rule cut_lines)
  show "tail @ unsent = concat (map (\<lambda>l. l @ [nl]) [''event: error'', ''data: '' @ msg]) @ [nl]"
    using assms(1) by (simp add: event_block_def)
qed (use assms(2-) in auto)

text \<open>What the handler writes last when the store's stream fails reads back as one event.\<close>

lemma scan_error_block:
  assumes "ls_state (sc_lines s) = Reading" "sc_err s = None"
    and "ls_pending (sc_lines s) = event_block ''error'' msg"
    and "one_line msg" "length msg \<le> max_event_bytes"
  shows "fst (scan_all s) = [(''error'', msg)]"
proof -
  let ?u = "s\<lparr>sc_lines := (sc_lines s)\<lparr>ls_pending := []\<rparr>, sc_event := ''error'', sc_data := msg\<rparr>"
  have "scan s = (True, ?u)"
  proof (rule scan_event_block)
    show "trim_space ('' '' @ ''error'') = ''error''" by code_simp
    show "one_line ''error''" "''error'' \<noteq> []" "length ''error'' + 7 < max_line_bytes"
      by (simp_all add: one_line_def max_line_bytes_def max_event_bytes_def)
  qed (use assms in simp_all)
  moreover have "fst (scan_all ?u) = []"
    using scan_all_reference [of ?u] assms by (simp add: in_order_def)
  ultimately show ?thesis by (cases "scan_all ?u") (simp add: scan_all.simps [of s])
qed

text \<open>
  A body of whole blocks, cut anywhere or followed by an error event: the scanner reports
  the blocks that came whole, and the error event.
\<close>

lemma scan_body:
  assumes "list_all block_ok bs"
  shows "[] \<notin> set (split_lines tail) \<Longrightarrow>
      fst (scan_all (new_scanner (record_blocks bs @ tail) e)) =
        map (\<lambda>(link, data). (''revocation'', data)) bs"
    and "one_line msg \<Longrightarrow> length msg \<le> max_event_bytes \<Longrightarrow>
      fst (scan_all (new_scanner (record_blocks bs @ event_block ''error'' msg) e)) =
        map (\<lambda>(link, data). (''revocation'', data)) bs @ [(''error'', msg)]"
proof -
  have scanned: "\<exists>s. in_order (sc_lines s) \<and> ls_state (sc_lines s) = Reading \<and> sc_err s = None \<and>
      ls_pending (sc_lines s) = tail \<and>
      fst (scan_all (new_scanner (record_blocks bs @ tail) e)) =
        map (\<lambda>(link, data). (''revocation'', data)) bs @ fst (scan_all s)" for tail
  proof -
    let ?s = "new_scanner (record_blocks bs @ tail) e"
    have s: "ls_state (sc_lines ?s) = Reading" "sc_err ?s = None"
      "ls_pending (sc_lines ?s) = record_blocks bs @ tail"
      by (simp_all add: new_scanner_def new_line_scanner_def)
    obtain ev d where "scan_all ?s =
       (case scan_all (?s\<lparr>sc_lines := (sc_lines ?s)\<lparr>ls_pending := tail\<rparr>, sc_event := ev, sc_data := d\<rparr>) of
          (es, z) \<Rightarrow> (map (\<lambda>(link, data). (''revocation'', data)) bs @ es, z))"
      using scan_blocks [OF s assms] by blast
    with s show ?thesis
      by (intro exI [of _ "?s\<lparr>sc_lines := (sc_lines ?s)\<lparr>ls_pending := tail\<rparr>, sc_event := ev, sc_data := d\<rparr>"])
        (simp add: in_order_def split: prod.split)
  qed
  show "fst (scan_all (new_scanner (record_blocks bs @ tail) e)) =
      map (\<lambda>(link, data). (''revocation'', data)) bs" if "[] \<notin> set (split_lines tail)"
    using scanned [of tail] scan_all_reference dispatch_no_blank [OF that] by fastforce
  show "fst (scan_all (new_scanner (record_blocks bs @ event_block ''error'' msg) e)) =
      map (\<lambda>(link, data). (''revocation'', data)) bs @ [(''error'', msg)]"
    if "one_line msg" "length msg \<le> max_event_bytes"
    using scanned [of "event_block ''error'' msg"] scan_error_block [OF _ _ _ that] by fastforce
qed

section \<open>Properties of the event stream\<close>

text \<open>
  A record the stream can carry: the format can represent its CIDs and its time, and its
  encoding is one line within the limits of the scanner.
\<close>

definition sendable :: "('w, 'r) http_env \<Rightarrow> (jtok \<Rightarrow> bool) \<Rightarrow> revocation_record \<Rightarrow> bool" where
  "sendable env accepts r \<longleftrightarrow>
     list_all (\<lambda>c. accepts (CidTok c)) (rr_revoke r # inv_link (rr_cause r) # map dlg_link (rr_path r)) \<and>
     accepts (TimeTok (rr_recorded_at r)) \<and>
     (case marshal_firehose (he_json env) (firehose_value_of r) of
        Inl _ \<Rightarrow> True
      | Inr data \<Rightarrow> block_ok (cid_text (he_ucan env) (inv_link (rr_cause r)), data))"

definition block_of :: "('w, 'r) http_env \<Rightarrow> revocation_record \<Rightarrow> string \<times> string \<Rightarrow> bool" where
  "block_of env r b \<longleftrightarrow>
     fst b = cid_text (he_ucan env) (inv_link (rr_cause r)) \<and>
     marshal_firehose (he_json env) (firehose_value_of r) = Inr (snd b)"

lemma record_blocks_Cons: "record_blocks (b # bs) = record_block (fst b) (snd b) @ record_blocks bs"
  by (simp add: record_blocks_def case_prod_unfold)

text \<open>
  What a handler has written, whatever became of its writes: the blocks of the first
  records, and, when the store's stream failed after the last of them, an error event.
\<close>

lemma firehose_written:
  "firehose_loop env net (map Inr recs @ map Inl fails) out = (err, out') \<Longrightarrow>
     \<exists>j \<le> length recs. \<exists>bs etail. list_all2 (block_of env) (take j recs) bs \<and>
       out' = out @ record_blocks bs @ etail \<and> (fails = [] \<and> err = None \<longrightarrow> j = length recs) \<and>
       (etail = [] \<or> j = length recs \<and> (\<exists>f \<in> set fails. \<exists>msg.
          he_json_error env (error_text (he_sentinel_text env) f) = Inr msg \<and>
          etail = event_block ''error'' msg))"
proof (induction recs arbitrary: out)
  case Nil
  then show ?case
    by (cases fails) (auto simp: record_blocks_def write_firehose_error_def Let_def
        split: if_splits sum.splits option.splits)
next
  case (Cons r recs)
  obtain e1 out1 where w: "write_firehose_record env net r out = (e1, out1)" by fastforce
  show ?case
  proof (cases e1)
    case (Some e)
    then have "out1 = out"
      using w by (auto simp: write_firehose_record_def Let_def split: sum.splits option.splits)
    with Cons.prems w Some show ?thesis
      by (intro exI [of _ 0]) (auto simp: record_blocks_def)
  next
    case None
    then obtain data where data: "marshal_firehose (he_json env) (firehose_value_of r) = Inr data"
      and out1: "out1 = out @ record_block (cid_text (he_ucan env) (inv_link (rr_cause r))) data"
      using w by (auto simp: write_firehose_record_def encode_firehose_event_def Let_def
          split: sum.splits option.splits)
    have "firehose_loop env net (map Inr recs @ map Inl fails) out1 = (err, out')"
      using Cons.prems w None by simp
    from Cons.IH [OF this] obtain j bs etail where j: "j \<le> length recs"
      "list_all2 (block_of env) (take j recs) bs" "out' = out1 @ record_blocks bs @ etail"
      "fails = [] \<and> err = None \<longrightarrow> j = length recs"
      "etail = [] \<or> j = length recs \<and> (\<exists>f \<in> set fails. \<exists>msg.
        he_json_error env (error_text (he_sentinel_text env) f) = Inr msg \<and>
        etail = event_block ''error'' msg)" by blast
    let ?b = "(cid_text (he_ucan env) (inv_link (rr_cause r)), data)"
    have "list_all2 (block_of env) (take (Suc j) (r # recs)) (?b # bs)"
      using j(2) data by (simp add: block_of_def)
    moreover have "out' = out @ record_blocks (?b # bs) @ etail"
      using j(3) out1 by (simp add: record_blocks_Cons)
    moreover have "Suc j \<le> length (r # recs)" "j = length recs \<longleftrightarrow> Suc j = length (r # recs)"
      using j(1) by simp_all
    ultimately show ?thesis using j(4,5) by blast
  qed
qed

lemma blocks_ok:
  "list_all2 (block_of env) recs bs \<Longrightarrow> list_all (sendable env accepts) recs \<Longrightarrow> list_all block_ok bs"
  by (induction rule: list_all2_induct) (auto simp: sendable_def block_of_def)

lemma blocks_cut:
  assumes "record_blocks bs = body @ unsent" "list_all block_ok bs"
  shows "\<exists>k \<le> length bs. \<exists>tail. body = record_blocks (take k bs) @ tail \<and>
    (unsent = [] \<longrightarrow> k = length bs) \<and> [] \<notin> set (split_lines tail)"
  using assms
proof (induction bs arbitrary: body)
  case Nil
  then show ?case by (intro exI [of _ 0]) (simp add: record_blocks_def)
next
  case (Cons b bs)
  have "record_block (fst b) (snd b) @ record_blocks bs = body @ unsent"
    using Cons.prems(1) by (simp only: record_blocks_Cons)
  then obtain us where us: "record_block (fst b) (snd b) = body @ us \<and> us @ record_blocks bs = unsent \<or>
      record_block (fst b) (snd b) @ us = body \<and> record_blocks bs = us @ unsent"
    unfolding append_eq_append_conv2 by blast
  then consider us where "record_block (fst b) (snd b) @ us = body" "record_blocks bs = us @ unsent"
    | us where "record_block (fst b) (snd b) = body @ us" "us @ record_blocks bs = unsent" "us \<noteq> []"
    by (cases "us = []") auto
  then show ?case
  proof cases
    case (1 us)
    have "list_all block_ok bs" using Cons.prems(2) by simp
    from Cons.IH [OF 1(2) this] obtain k tail where k: "k \<le> length bs"
      "us = record_blocks (take k bs) @ tail" "unsent = [] \<longrightarrow> k = length bs"
      "[] \<notin> set (split_lines tail)" by blast
    then have "body = record_blocks (take (Suc k) (b # bs)) @ tail"
      using 1(1) by (simp add: record_blocks_Cons)
    moreover have "Suc k \<le> length (b # bs)" "unsent = [] \<longrightarrow> Suc k = length (b # bs)"
      using k(1,3) by simp_all
    ultimately show ?thesis using k(4) by blast
  next
    case (2 us)
    have "[] \<notin> set (split_lines body)"
      using cut_record_block [OF 2(1) [symmetric] 2(3)] Cons.prems(2)
      by (simp add: block_ok_def one_line_def)
    moreover have "body = record_blocks (take 0 (b # bs)) @ body" by (simp add: record_blocks_def)
    moreover have "unsent \<noteq> []" using 2(2,3) by auto
    ultimately show ?thesis by blast
  qed
qed

text \<open>An error whose text the handler can send: one line, within the limits of the scanner.\<close>

definition reportable :: "('w, 'r) http_env \<Rightarrow> error \<Rightarrow> bool" where
  "reportable env e \<longleftrightarrow>
     (case he_json_error env (error_text (he_sentinel_text env) e) of
        Inl _ \<Rightarrow> True
      | Inr msg \<Rightarrow> one_line msg \<and> length msg \<le> max_event_bytes)"

lemma cut_body_blocks:
  assumes "list_all block_ok bs" "record_blocks bs @ etail = body @ unsent"
    and "etail = [] \<or> (\<exists>msg. etail = event_block ''error'' msg \<and> one_line msg \<and> length msg \<le> max_event_bytes)"
  obtains k es where "k \<le> length bs" "fst (scan_all (new_scanner body e)) =
      map (\<lambda>(link, data). (''revocation'', data)) (take k bs) @ es"
    and "unsent = [] \<longrightarrow> k = length bs"
    and "es = [] \<or> k = length bs \<and> etail \<noteq> [] \<and> map fst es = [''error'']"
proof -
  from assms(2) consider us where "record_blocks bs = body @ us" "unsent = [] \<longrightarrow> us = []"
    | us where "body = record_blocks bs @ us" "us @ unsent = etail" "etail \<noteq> []"
    by (cases "etail = []") (auto simp: append_eq_append_conv2)
  then show thesis
  proof cases
    case (1 us)
    obtain k tail where k: "k \<le> length bs" "body = record_blocks (take k bs) @ tail"
      "us = [] \<longrightarrow> k = length bs" "[] \<notin> set (split_lines tail)"
      using blocks_cut [OF 1(1) assms(1)] by blast
    have "list_all block_ok (take k bs)" using assms(1) by (auto simp: list_all_iff dest: in_set_takeD)
    from scan_body(1) [OF this k(4), of e] k 1(2) show thesis
      by (intro that [of k "[]"]) auto
  next
    case (2 us)
    then obtain msg where msg: "etail = event_block ''error'' msg" "one_line msg" "length msg \<le> max_event_bytes"
      using assms(3) by blast
    show thesis
    proof (cases "unsent = []")
      case True
      then show thesis
        using scan_body(2) [OF assms(1) msg(2,3), of e] 2 msg(1)
        by (intro that [of "length bs" "[(''error'', msg)]"]) auto
    next
      case False
      have "nl \<notin> set msg" using msg(2) by (simp add: one_line_def)
      with cut_error_block [OF 2(2) [unfolded msg(1)] False] show thesis
        using scan_body(1) [OF assms(1), of us e] 2(1) False
        by (intro that [of "length bs" "[]"]) auto
    qed
  qed
qed

lemma block_decodes:
  assumes "dag_json (he_json env) accepts holds" "block_of env r b" "sendable env accepts r"
  shows "unmarshal_firehose (he_json env) (snd b) = Inr (firehose_value_of r)"
proof (rule dag_json.firehose_roundtrip [OF assms(1)])
  show "list_all (\<lambda>c. accepts (CidTok c)) (af_revoke (firehose_value_of r) #
      af_cause (firehose_value_of r) # af_path (firehose_value_of r))"
    "accepts (TimeTok (af_recorded_at (firehose_value_of r)))"
    using assms(3) by (simp_all add: sendable_def firehose_value_of_def)
  show "marshal_firehose (he_json env) (firehose_value_of r) = Inr (snd b)"
    using assms(2) by (simp add: block_of_def)
qed

lemma cut_body_events:
  assumes "dag_json (he_json env) accepts holds" "list_all (sendable env accepts) recs"
    and "list_all (reportable env) fails"
    and "firehose_loop env net (map Inr recs @ map Inl fails) [] = (err, body @ unsent)"
  shows "\<exists>k \<le> length recs. \<exists>es.
     map (\<lambda>(ev, d). (ev, unmarshal_firehose (he_json env) d)) (fst (scan_all (new_scanner body e))) =
       map (\<lambda>r. (''revocation'', Inr (firehose_value_of r))) (take k recs) @ es \<and>
     (fails = [] \<and> err = None \<and> unsent = [] \<longrightarrow> k = length recs) \<and>
     (es = [] \<or> k = length recs \<and> fails \<noteq> [] \<and> map fst es = [''error''])"
proof -
  let ?decode = "\<lambda>(ev, d). (ev, unmarshal_firehose (he_json env) d)"
  obtain j bs etail where j: "j \<le> length recs" "list_all2 (block_of env) (take j recs) bs"
    "body @ unsent = record_blocks bs @ etail" "fails = [] \<and> err = None \<longrightarrow> j = length recs"
    and etail: "etail = [] \<or> j = length recs \<and> (\<exists>f \<in> set fails. \<exists>msg.
        he_json_error env (error_text (he_sentinel_text env) f) = Inr msg \<and>
        etail = event_block ''error'' msg)"
    using firehose_written [OF assms(4)] unfolding append_Nil by blast
  have sendable: "list_all (sendable env accepts) (take j recs)"
    using assms(2) by (auto simp: list_all_iff dest: in_set_takeD)
  have "etail = [] \<or> (\<exists>msg. etail = event_block ''error'' msg \<and> one_line msg \<and> length msg \<le> max_event_bytes)"
    using etail assms(3) by (fastforce simp: list_all_iff reportable_def)
  then obtain k es where k: "k \<le> length bs" "fst (scan_all (new_scanner body e)) =
      map (\<lambda>(link, data). (''revocation'', data)) (take k bs) @ es"
    "unsent = [] \<longrightarrow> k = length bs" "es = [] \<or> k = length bs \<and> etail \<noteq> [] \<and> map fst es = [''error'']"
    by (rule cut_body_blocks [OF blocks_ok [OF j(2) sendable] j(3) [symmetric]])
  have len: "length bs = j" using list_all2_lengthD [OF j(2)] j(1) by simp
  have "map (\<lambda>b. unmarshal_firehose (he_json env) (snd b)) (take k bs) =
      map (\<lambda>r. Inr (firehose_value_of r)) (take k recs)"
  proof (rule nth_equalityI)
    fix i assume "i < length (map (\<lambda>b. unmarshal_firehose (he_json env) (snd b)) (take k bs))"
    then have i: "i < k" "i < j" using k(1) len by auto
    then have "block_of env (recs ! i) (bs ! i)" "sendable env accepts (recs ! i)"
      using list_all2_nthD [OF j(2), of i] j(1) assms(2) by (simp_all add: list_all_length)
    from block_decodes [OF assms(1) this] show "map (\<lambda>b. unmarshal_firehose (he_json env) (snd b)) (take k bs) ! i =
        map (\<lambda>r. Inr (firehose_value_of r)) (take k recs) ! i"
      using i k(1) len j(1) by simp
  qed (use k(1) len j(1) in simp)
  then have "map (Pair ''revocation'') (map (\<lambda>b. unmarshal_firehose (he_json env) (snd b)) (take k bs)) =
      map (Pair ''revocation'') (map (\<lambda>r. Inr (firehose_value_of r)) (take k recs))" by (rule arg_cong)
  then have "map ?decode (map (\<lambda>(link, data). (''revocation'', data)) (take k bs)) =
      map (\<lambda>r. (''revocation'', Inr (firehose_value_of r))) (take k recs)"
    by (simp only: map_map comp_def case_prod_unfold fst_conv snd_conv)
  moreover have "k \<le> length recs" using k(1) len j(1) by simp
  moreover have "fails = [] \<and> err = None \<and> unsent = [] \<longrightarrow> k = length recs"
    using k(3) len j(4) by simp
  moreover have "map ?decode es = [] \<or> k = length recs \<and> fails \<noteq> [] \<and> map fst (map ?decode es) = [''error'']"
    using k(4) etail len by (auto simp: case_prod_unfold)
  ultimately show ?thesis using k(2) by (intro exI [of _ k] conjI exI [of _ "map ?decode es"]) simp_all
qed

text \<open>C16: Nothing is lost, made up or split on the way: when the firehose handler has written
  the records of a store's stream, and perhaps the error the stream ended with, and the
  connection is cut at any byte, the events the scanner finds in what arrived are, in order,
  the complete ones among the first records, each decoding to the record's CIDs and time; an
  error event comes only after all of them; if nothing failed or was cut off, they are all
  of them.\<close>

theorem firehose_cut_body:
  assumes "dag_json (he_json env) accepts holds" and "list_all (sendable env accepts) recs"
    and "list_all (reportable env) fails"
    and "firehose_loop env net (map Inr recs @ map Inl fails) [] = (err, body @ unsent)"
  shows "\<exists>k \<le> length recs. \<exists>es.
     map (\<lambda>(ev, d). (ev, unmarshal_firehose (he_json env) d)) (fst (scan_all (new_scanner body e))) =
       map (\<lambda>r. (''revocation'', Inr (firehose_value_of r))) (take k recs) @ es \<and>
     (fails = [] \<and> err = None \<and> unsent = [] \<longrightarrow> k = length recs) \<and>
     (es = [] \<or> k = length recs \<and> fails \<noteq> [] \<and> map fst es = [''error''])"
  using assms by (rule cut_body_events)


text \<open>The sample codecs together, a record and its block.\<close>

definition sample_http :: "(string, string) http_env" where
  "sample_http =
     \<lparr>he_ucan = sample_ucan, he_json = sample_json,
      he_parse_time = (\<lambda>_. Inl (Foreign ''bad time'')), he_sentinel_text = (\<lambda>_. ''error''),
      he_json_error = (\<lambda>m. Inr (CHR ''e'' # hex m))\<rparr>"

definition web_record :: "string \<Rightarrow> time \<Rightarrow> revocation_record" where
  "web_record c t =
     \<lparr>rr_revoke = Cid ''d'',
      rr_path = [\<lparr>dlg_link = Cid ''d'', dlg_issuer = Did ''alice'', dlg_audience = Did ''bob'',
        dlg_subject = Did ''alice''\<rparr>],
      rr_cause = \<lparr>inv_link = Cid c, inv_task = Cid c, inv_issuer = Did ''alice'',
        inv_command = ''/ucan/revoke''\<rparr>,
      rr_recorded_at = t\<rparr>"

definition web_data :: "string \<Rightarrow> time \<Rightarrow> string" where
  "web_data c t = concat (map tok_text
     (object_toks (firehose_value (firehose_value_of (web_record c t))) written_order))"

lemma sample_http_simps [simp]:
  "he_ucan sample_http = sample_ucan" "he_json sample_http = sample_json"
  "he_sentinel_text sample_http = (\<lambda>_. ''error'')"
  "he_json_error sample_http m = Inr (CHR ''e'' # hex m)"
  by (simp_all add: sample_http_def)

lemma sample_cid_text [simp]: "cid_text sample_ucan c = cid_bytes c"
  by (simp add: sample_ucan_def)

lemma web_marshals:
  "marshal_firehose sample_json (firehose_value_of (web_record c t)) = Inr (web_data c t)"
  unfolding web_data_def
  by (rule sample_marshal_firehose) (simp add: firehose_value_of_def web_record_def max_key_def)

lemma hex_plain: "c \<in> set (hex s) \<Longrightarrow> 46 \<le> (of_char c :: nat)"
proof (induction s)
  case Nil
  then show ?case by simp
next
  case (Cons d s)
  have "of_char d div 16 < (16 :: nat)"
    by (intro less_mult_imp_div_less) simp
  with Cons show ?case by (auto simp: hex_char_def of_char_of)
qed

lemma tok_text_plain: "c \<in> set (tok_text t) \<Longrightarrow> 32 \<le> (of_char c :: nat)"
  using hex_plain by (cases t) (auto simp: tally_def split: if_splits dest: hex_plain)

lemma one_line_plain:
  assumes "\<forall>c \<in> set s. 32 \<le> (of_char c :: nat)"
  shows "one_line s"
proof -
  have "nl \<notin> set s" "cr \<notin> set s" using assms by force+
  then show ?thesis by (cases s rule: rev_cases) (auto simp: one_line_def)
qed

lemma web_data_line: "one_line (web_data c t)"
  unfolding web_data_def by (rule one_line_plain) (auto dest: tok_text_plain)

definition sample_block :: "string \<times> string" where
  "sample_block = (''c'', web_data ''c'' 7)"

lemma sample_block_ok: "block_ok sample_block"
proof -
  have "length (web_data ''c'' 7) \<le> 200"
    by (simp add: web_data_def web_record_def firehose_value_of_def object_toks_def written_order_def
        path_toks_def tally_def hex_char_def)
  then show ?thesis
    using web_data_line by (simp add: block_ok_def sample_block_def max_line_bytes_def max_event_bytes_def)
qed

lemma web_sendable: "sendable sample_http (\<lambda>_. True) (web_record ''c'' 7)"
  using sample_block_ok
  by (simp add: sendable_def web_marshals sample_block_def list.pred_True) (simp add: web_record_def)

lemma web_loop:
  "firehose_loop sample_http (\<lambda>_ _. None) (map Inr [web_record ''c'' 7]) [] =
     (None, record_blocks [sample_block])"
  by (simp add: write_firehose_record_def encode_firehose_event_def web_marshals Let_def
      record_blocks_def sample_block_def) (simp add: web_record_def)

theorem firehose_cut_body_witness:
  "map (\<lambda>(ev, d). (ev, unmarshal_firehose sample_json d))
     (fst (scan_all (new_scanner (record_blocks [sample_block]) None))) =
   [(''revocation'', Inr (firehose_value_of (web_record ''c'' 7)))]"
  using firehose_cut_body [of sample_http "\<lambda>_. True" sample_holds "[web_record ''c'' 7]"
      "[]" "\<lambda>_ _. None" None "record_blocks [sample_block]" "[]" None]
    sample_json.dag_json_axioms web_sendable web_loop
  by auto

lemma firehose_loop_records:
  assumes "list_all2 (block_of env) recs bs" "\<And>o' s. net o' s = None"
  shows "firehose_loop env net (map Inr recs @ items) out =
         firehose_loop env net items (out @ record_blocks bs)"
  using assms(1)
proof (induction arbitrary: out rule: list_all2_induct)
  case Nil
  then show ?case by (simp add: record_blocks_def)
next
  case (Cons r recs b bs)
  then show ?case
    using assms(2)
    by (simp add: block_of_def write_firehose_record_def encode_firehose_event_def Let_def
        record_blocks_Cons)
qed

lemma failed_stream_events:
  assumes "list_all2 (block_of env) recs bs" and "list_all block_ok bs"
    and "\<And>o' s. net o' s = None" and "\<not> errors_is err Canceled"
    and "he_json_error env (error_text (he_sentinel_text env) err) = Inr msg"
    and "one_line msg" and "length msg \<le> max_event_bytes"
  shows "\<exists>body. firehose_loop env net (map Inr recs @ Inl err # rest) [] =
      (Some (Wrap ''streaming revocations'' err), body) \<and>
    fst (scan_all (new_scanner body e)) =
      map (\<lambda>b. (''revocation'', snd b)) bs @ [(''error'', msg)]"
  using assms(3-5) scan_body(2) [OF assms(2,6,7), of e]
  by (simp add: firehose_loop_records [OF assms(1)] write_firehose_error_def Let_def case_prod_unfold)

text \<open>A failed stream is not mistaken for a finished one: when the store's stream fails after
  some records, for a reason other than the client going away, the handler returns the error
  and the client reads all those records and then an error event with the error's text.\<close>

theorem firehose_failure_is_reported:
  assumes "list_all2 (block_of env) recs bs" and "list_all block_ok bs"
    and "\<And>o' s. net o' s = None" and "\<not> errors_is err Canceled"
    and "he_json_error env (error_text (he_sentinel_text env) err) = Inr msg"
    and "one_line msg" and "length msg \<le> max_event_bytes"
  shows "\<exists>body. firehose_loop env net (map Inr recs @ Inl err # rest) [] =
      (Some (Wrap ''streaming revocations'' err), body) \<and>
    fst (scan_all (new_scanner body e)) =
      map (\<lambda>b. (''revocation'', snd b)) bs @ [(''error'', msg)]"
  using assms by (rule failed_stream_events)

lemma lost_line:
  "one_line (CHR ''e'' # hex ''lost'')" "length (CHR ''e'' # hex ''lost'') \<le> max_event_bytes"
proof -
  have "32 \<le> (of_char c :: nat)" if "c \<in> set (CHR ''e'' # hex ''lost'')" for c
    using that hex_plain [of c "''lost''"] by (auto simp del: hex.simps)
  then show "one_line (CHR ''e'' # hex ''lost'')" by (intro one_line_plain) blast
  show "length (CHR ''e'' # hex ''lost'') \<le> max_event_bytes"
    by (simp add: hex_char_def max_event_bytes_def)
qed

theorem firehose_failure_is_reported_witness:
  "\<exists>body. firehose_loop sample_http (\<lambda>_ _. None)
       (map Inr [web_record ''c'' 7] @ [Inl (Msg ''lost'')]) [] =
     (Some (Wrap ''streaming revocations'' (Msg ''lost'')), body) \<and>
   fst (scan_all (new_scanner body None)) =
     [(''revocation'', web_data ''c'' 7), (''error'', CHR ''e'' # hex ''lost'')]"
proof -
  have blocks: "list_all2 (block_of sample_http) [web_record ''c'' 7] [sample_block]"
    by (simp add: block_of_def sample_block_def web_marshals) (simp add: web_record_def)
  show ?thesis
    using firehose_failure_is_reported [OF blocks, of "\<lambda>_ _. None" "Msg ''lost''"
        "CHR ''e'' # hex ''lost''" "[]" None] sample_block_ok lost_line
    by (simp add: sample_block_def)
qed

end
