(* ===== verification/Memory_Store.thy ===== *)
theory Memory_Store
  imports Ucan
begin

text \<open>
  The in-memory store, \<^verbatim>\<open>pkg/store/memory/store.go\<close>: its state, \<open>AddBatch\<close>, \<open>Get\<close>,
  the snapshot a stream reads, and the proof that it meets the store contract. The
  streams themselves, which run beside the writers, are in \<^verbatim>\<open>Memory_Stream.thy\<close>.

  A Go map is an association list with distinct keys. The one place that iterates
  over a map sorts what it collected, and \<open>snapshot_order_irrelevant\<close> shows that
  the list order chosen here cannot be observed. A \<open>nil\<close> map reads and writes (after
  the nil check) as an empty one. Sequence numbers and subscriber ids are \<open>uint64\<close>.
\<close>

section \<open>State\<close>

record memory_record =
  mr_record :: revocation_record
  mr_seq :: "64 word"

text \<open>A subscriber's channel holds at most one notification: whether it holds one.\<close>

record mem_store =
  ms_records :: "(cid \<times> memory_record) list"
  ms_subscribers :: "(64 word \<times> bool) list"
  ms_next_seq :: "64 word"
  ms_next_subscriber :: "64 word"

definition new_store :: mem_store where
  "new_store =
     \<lparr>ms_records = [], ms_subscribers = [], ms_next_seq = 0, ms_next_subscriber = 0\<rparr>"

abbreviation entry_at :: "mem_store \<Rightarrow> cid \<Rightarrow> memory_record option" where
  "entry_at s k \<equiv> map_of (ms_records s) k"

abbreviation record_at :: "mem_store \<Rightarrow> cid \<Rightarrow> revocation_record option" where
  "record_at s k \<equiv> map_option mr_record (entry_at s k)"

section \<open>Operations\<close>

definition put_record :: "time \<Rightarrow> revocation \<Rightarrow> mem_store \<Rightarrow> mem_store" where
  "put_record t r s =
     (let seq = ms_next_seq s + 1 in
      s\<lparr>ms_next_seq := seq,
        ms_records := AList.update (revoked_link r)
          \<lparr>mr_record = record_of t r, mr_seq = seq\<rparr> (ms_records s)\<rparr>)"

text \<open>One turn of \<open>AddBatch\<close>'s loop: a repeat of the stored revocation is skipped.\<close>

definition store_one :: "time \<Rightarrow> revocation \<Rightarrow> mem_store \<Rightarrow> mem_store" where
  "store_one t r s =
     (case entry_at s (revoked_link r) of
        Some existing \<Rightarrow>
          if inv_link (rr_cause (mr_record existing)) = cause_link r then s
          else put_record t r s
      | None \<Rightarrow> put_record t r s)"

text \<open>The non-blocking send to every subscriber's one-place channel.\<close>

definition notify_all :: "mem_store \<Rightarrow> mem_store" where
  "notify_all s = s\<lparr>ms_subscribers := map (\<lambda>(i, pending). (i, True)) (ms_subscribers s)\<rparr>"

text \<open>\<open>ctx\<close> is \<open>ctx.Err()\<close> at the entry and \<open>recorded_at\<close> the one call of \<open>time.Now()\<close>.\<close>

definition mem_add_batch ::
  "error option \<Rightarrow> time \<Rightarrow> revocation list \<Rightarrow> mem_store \<Rightarrow> error option \<times> mem_store" where
  "mem_add_batch ctx recorded_at revocations s =
     (case ctx of
        Some e \<Rightarrow> (Some e, s)
      | None \<Rightarrow>
          if revocations = [] then (None, s)
          else case find_index 0 (\<lambda>r. rv_path r = []) revocations of
              Some i \<Rightarrow> (Some (empty_path_error i), s)
            | None \<Rightarrow> (None, notify_all (fold (store_one recorded_at) revocations s)))"

definition mem_add ::
  "error option \<Rightarrow> time \<Rightarrow> invocation \<Rightarrow> delegation list \<Rightarrow> mem_store \<Rightarrow> error option \<times> mem_store" where
  "mem_add ctx t revocation path s =
     mem_add_batch ctx t [\<lparr>rv_cause = revocation, rv_path = path\<rparr>] s"

text \<open>The returned record is a copy (\<open>copyRecord\<close>), which a value model cannot share.\<close>

definition mem_get ::
  "error option \<Rightarrow> cid \<Rightarrow> mem_store \<Rightarrow> revocation_record result" where
  "mem_get ctx delegation s =
     (case ctx of
        Some e \<Rightarrow> Inl e
      | None \<Rightarrow>
          (case entry_at s delegation of
             None \<Rightarrow> Inl (Sentinel NotFound)
           | Some entry \<Rightarrow> Inr (mr_record entry)))"

definition entry_matches :: "64 word \<Rightarrow> time \<Rightarrow> memory_record \<Rightarrow> bool" where
  "entry_matches sequence from entry \<longleftrightarrow>
     mr_seq entry > sequence \<and> (from = 0 \<or> \<not> rr_recorded_at (mr_record entry) < from)"

definition entry_key :: "memory_record \<Rightarrow> time \<times> 64 word" where
  "entry_key e = (rr_recorded_at (mr_record e), mr_seq e)"

definition records_from_locked ::
  "64 word \<Rightarrow> time \<Rightarrow> mem_store \<Rightarrow> memory_record list \<times> 64 word" where
  "records_from_locked sequence from s =
     (sort_key entry_key (filter (entry_matches sequence from) (map snd (ms_records s))),
      ms_next_seq s)"

section \<open>What a batch does to one delegation\<close>

text \<open>The effect of a turn of the loop on the record of one delegation.\<close>

definition resolve :: "time \<Rightarrow> revocation \<Rightarrow> revocation_record option \<Rightarrow> revocation_record option" where
  "resolve t r old =
     (case old of
        Some x \<Rightarrow> if inv_link (rr_cause x) = cause_link r then Some x else Some (record_of t r)
      | None \<Rightarrow> Some (record_of t r))"

lemma put_record_simps [simp]:
  "ms_records (put_record t r s) =
     AList.update (revoked_link r) \<lparr>mr_record = record_of t r, mr_seq = ms_next_seq s + 1\<rparr>
       (ms_records s)"
  "ms_next_seq (put_record t r s) = ms_next_seq s + 1"
  "ms_subscribers (put_record t r s) = ms_subscribers s"
  "ms_next_subscriber (put_record t r s) = ms_next_subscriber s"
  by (simp_all add: put_record_def Let_def)

lemma notify_all_simps [simp]:
  "ms_records (notify_all s) = ms_records s"
  "ms_next_seq (notify_all s) = ms_next_seq s"
  "ms_next_subscriber (notify_all s) = ms_next_subscriber s"
  "map fst (ms_subscribers (notify_all s)) = map fst (ms_subscribers s)"
  by (simp_all add: notify_all_def comp_def case_prod_unfold)

lemma map_of_notify_all:
  "map_of (ms_subscribers (notify_all s)) i = map_option (\<lambda>_. True) (map_of (ms_subscribers s) i)"
  by (simp add: notify_all_def map_of_map_const)

lemma store_one_cases:
  obtains (kept) x where "store_one t r s = s" "entry_at s (revoked_link r) = Some x"
      "inv_link (rr_cause (mr_record x)) = cause_link r"
  | (put) "store_one t r s = put_record t r s"
proof (cases "entry_at s (revoked_link r)")
  case None
  then show ?thesis by (intro put) (simp add: store_one_def)
next
  case (Some x)
  then show ?thesis
    by (cases "inv_link (rr_cause (mr_record x)) = cause_link r")
      (auto intro: kept put simp: store_one_def)
qed

lemma store_one_subscribers [simp]:
  "ms_subscribers (store_one t r s) = ms_subscribers s"
  "ms_next_subscriber (store_one t r s) = ms_next_subscriber s"
  by (rule store_one_cases [of t r s]; simp)+

lemma fold_store_one_subscribers [simp]:
  "ms_subscribers (fold (store_one t) rs s) = ms_subscribers s"
  "ms_next_subscriber (fold (store_one t) rs s) = ms_next_subscriber s"
  by (induction rs arbitrary: s) simp_all

lemma record_at_store_one:
  "record_at (store_one t r s) k =
     (if k = revoked_link r then resolve t r (record_at s k) else record_at s k)"
  by (auto simp: store_one_def resolve_def map_of_update split: option.splits)

lemma record_at_fold:
  "record_at (fold (store_one t) rs s) k =
     fold (resolve t) (filter (\<lambda>r. revoked_link r = k) rs) (record_at s k)"
  by (induction rs arbitrary: s) (auto simp: record_at_store_one)

lemma resolve_not_None [simp]: "resolve t r old \<noteq> None"
  by (auto simp: resolve_def split: option.splits)

lemma fold_resolve_None: "fold (resolve t) rs old = None \<longleftrightarrow> rs = [] \<and> old = None"
  by (induction rs arbitrary: old) auto

lemma fold_resolve_cases:
  "fold (resolve t) rs old = Some x \<Longrightarrow> old = Some x \<or> (\<exists>r \<in> set rs. x = record_of t r)"
proof (induction rs arbitrary: old)
  case Nil
  then show ?case by simp
next
  case (Cons r rs)
  then have "resolve t r old = Some x \<or> (\<exists>r \<in> set rs. x = record_of t r)" by simp
  then show ?case by (auto simp: resolve_def split: option.splits if_splits)
qed

lemma fold_resolve_cause:
  "rs \<noteq> [] \<Longrightarrow> fold (resolve t) rs old = Some x \<Longrightarrow> inv_link (rr_cause x) = cause_link (last rs)"
  by (induction rs arbitrary: old rule: rev_induct)
    (auto simp: resolve_def cause_link_def split: option.splits if_splits)

text \<open>A whole batch, as \<open>mem_add_batch\<close> applies it.\<close>

lemma mem_add_batch_ok:
  "fst (mem_add_batch ctx t b s) = None \<longleftrightarrow> ctx = None \<and> (\<forall>r \<in> set b. rv_path r \<noteq> [])"
  by (auto simp: mem_add_batch_def find_index_None split: option.splits dest: find_index_Some_ex)

lemma mem_add_batch_effect:
  "snd (mem_add_batch ctx t b s) =
     (if fst (mem_add_batch ctx t b s) = None \<and> b \<noteq> []
      then notify_all (fold (store_one t) b s) else s)"
  by (auto simp: mem_add_batch_def split: option.splits)

lemma mem_add_batch_records:
  "record_at (snd (mem_add_batch ctx t b s)) k =
     (if fst (mem_add_batch ctx t b s) = None
      then fold (resolve t) (filter (\<lambda>r. revoked_link r = k) b) (record_at s k)
      else record_at s k)"
  by (simp add: mem_add_batch_effect record_at_fold)

lemma mem_get_Inr: "mem_get None k s = Inr x \<longleftrightarrow> record_at s k = Some x"
  by (auto simp: mem_get_def split: option.splits)

section \<open>The store contract\<close>

definition mem_invar :: "mem_store \<Rightarrow> bool" where
  "mem_invar s \<longleftrightarrow>
     (\<forall>(k, e) \<in> set (ms_records s).
        rr_revoke (mr_record e) = k \<and> rr_path (mr_record e) \<noteq> [] \<and>
        dlg_link (last (rr_path (mr_record e))) = k)"

lemma mem_invar_new: "mem_invar new_store"
  by (simp add: mem_invar_def new_store_def)

lemma set_update_subset: "set (AList.update k v al) \<subseteq> insert (k, v) (set al)"
  by (induction al) auto

lemma mem_invar_store_one:
  assumes "mem_invar s" "rv_path r \<noteq> []"
  shows "mem_invar (store_one t r s)"
proof (rule store_one_cases [of t r s])
  assume "store_one t r s = put_record t r s"
  then show ?thesis
    using assms set_update_subset
    by (fastforce simp: mem_invar_def revoked_link_def)
qed (use assms in simp)

lemma mem_invar_fold:
  "mem_invar s \<Longrightarrow> \<forall>r \<in> set rs. rv_path r \<noteq> [] \<Longrightarrow> mem_invar (fold (store_one t) rs s)"
  by (induction rs arbitrary: s) (auto intro: mem_invar_store_one)

lemma mem_invar_add_batch: "mem_invar s \<Longrightarrow> mem_invar (snd (mem_add_batch ctx t b s))"
  using mem_invar_fold [of s b t]
  by (auto simp: mem_add_batch_effect mem_add_batch_ok mem_invar_def)

lemma record_at_add_batch_None:
  "record_at (snd (mem_add_batch ctx t b s)) k = None \<longleftrightarrow>
     record_at s k = None \<and>
     (fst (mem_add_batch ctx t b s) = None \<longrightarrow> (\<forall>r \<in> set b. revoked_link r \<noteq> k))"
  unfolding mem_add_batch_records by (auto simp: fold_resolve_None filter_empty_conv)

lemma mem_get_ex: "(\<exists>x. mem_get None k s = Inr x) \<longleftrightarrow> record_at s k \<noteq> None"
  by (metis mem_get_Inr not_None_eq)

interpretation mem: atomic_store mem_invar "\<lambda>_ _. True" mem_add_batch mem_get
proof (unfold_locales, goal_cases)
  case (1 s b c t)
  then show ?case by (simp add: mem_invar_add_batch)
next
  case (2 r b c t s)
  then show ?case by (auto simp: mem_add_batch_ok)
next
  case (3 e t b s)
  show ?case by (simp add: mem_add_batch_def)
next
  case (4 s b c t r)
  then show ?case unfolding mem_get_ex record_at_add_batch_None by blast
next
  case (5 s b k x c t)
  then have "record_at s k \<noteq> None" unfolding mem_get_ex [symmetric] by blast
  then show ?case unfolding mem_get_ex record_at_add_batch_None by blast
next
  case (6 s b k c t x)
  then have "record_at (snd (mem_add_batch c t b s)) k = Some x" by (simp only: mem_get_Inr)
  then show ?case
    by (subst (asm) mem_add_batch_records)
      (auto simp: mem_get_Inr split: if_splits dest!: fold_resolve_cases)
next
  case (7 s k x)
  then show ?case by (auto simp: mem_get_Inr mem_invar_def dest!: map_of_SomeD)
next
  case (8 c t b s e)
  then show ?case by (simp add: mem_add_batch_effect)
qed

section \<open>Behaviour of a batch\<close>

text \<open>
  What the interface asks of a store (\<^verbatim>\<open>AddBatch\<close> in \<^verbatim>\<open>pkg/store/store.go\<close>): a revocation,
  known by its cause, that is already stored or repeated within the batch is stored once and
  keeps its first record; a failed write stores nothing. The specification is the history of
  the records kept, in which nothing is ever replaced, and a lookup finds the last of them
  that is about the delegation.
\<close>

definition keep_first :: "time \<Rightarrow> revocation \<Rightarrow> revocation_record list \<Rightarrow> revocation_record list" where
  "keep_first t r log =
     (if cause_link r \<in> (\<lambda>x. inv_link (rr_cause x)) ` set log then log else log @ [record_of t r])"

fun history ::
  "(error option \<times> time \<times> revocation list) list \<Rightarrow> revocation_record list \<Rightarrow> revocation_record list" where
  "history [] log = log"
| "history ((ctx, t, b) # ws) log =
     history ws (if ctx = None \<and> [] \<notin> rv_path ` set b then fold (keep_first t) b log else log)"

definition latest_about :: "cid \<Rightarrow> revocation_record list \<Rightarrow> revocation_record option" where
  "latest_about k log =
     (let about = filter (\<lambda>x. rr_revoke x = k) log in if about = [] then None else Some (last about))"

text \<open>
  A repeated revocation is the one the store has for its delegation: no other revocation of
  the delegation came in between.
\<close>

definition repeats_latest :: "revocation_record list \<Rightarrow> revocation \<Rightarrow> bool" where
  "repeats_latest log r \<longleftrightarrow>
     (cause_link r \<in> (\<lambda>x. inv_link (rr_cause x)) ` set log \<longrightarrow>
      (\<exists>x. latest_about (revoked_link r) log = Some x \<and> inv_link (rr_cause x) = cause_link r))"

fun no_revival :: "time \<Rightarrow> revocation list \<Rightarrow> revocation_record list \<Rightarrow> bool" where
  "no_revival t [] log \<longleftrightarrow> True"
| "no_revival t (r # rs) log \<longleftrightarrow> repeats_latest log r \<and> no_revival t rs (keep_first t r log)"

fun never_revives :: "(error option \<times> time \<times> revocation list) list \<Rightarrow> revocation_record list \<Rightarrow> bool" where
  "never_revives [] log \<longleftrightarrow> True"
| "never_revives ((ctx, t, b) # ws) log \<longleftrightarrow>
     (ctx = None \<and> [] \<notin> rv_path ` set b \<longrightarrow> no_revival t b log) \<and>
     never_revives ws (history [(ctx, t, b)] log)"

lemma latest_about_snoc:
  "latest_about k (log @ [x]) = (if rr_revoke x = k then Some x else latest_about k log)"
  by (simp add: latest_about_def Let_def)

lemma latest_about_in: "latest_about k log = Some x \<Longrightarrow> x \<in> set log"
  using last_in_set [of "filter (\<lambda>x. rr_revoke x = k) log"]
  by (auto simp: latest_about_def Let_def split: if_splits)

lemma store_one_history:
  assumes "repeats_latest log r" "\<And>k. record_at s k = latest_about k log"
  shows "record_at (store_one t r s) k = latest_about k (keep_first t r log)"
proof (cases "cause_link r \<in> (\<lambda>x. inv_link (rr_cause x)) ` set log")
  case True
  with assms(1) obtain x where "latest_about (revoked_link r) log = Some x"
    "inv_link (rr_cause x) = cause_link r" by (auto simp: repeats_latest_def)
  with assms(2) True show ?thesis by (simp add: record_at_store_one resolve_def keep_first_def)
next
  case False
  have "resolve t r (latest_about (revoked_link r) log) = Some (record_of t r)"
    using False latest_about_in [of "revoked_link r" log]
    by (force simp: resolve_def split: option.split)
  with assms(2) False show ?thesis
    by (auto simp: record_at_store_one keep_first_def latest_about_snoc record_of_def)
qed

lemma fold_history:
  "no_revival t b log \<Longrightarrow> (\<And>k. record_at s k = latest_about k log) \<Longrightarrow>
     record_at (fold (store_one t) b s) k = latest_about k (fold (keep_first t) b log)"
proof (induction b arbitrary: s log)
  case Nil
  then show ?case by simp
next
  case (Cons r rs)
  then have "repeats_latest log r" by simp
  from store_one_history [OF this Cons.prems(2)] Cons.prems(1) show ?case by (simp add: Cons.IH)
qed

lemma batch_history:
  assumes "ctx = None \<and> [] \<notin> rv_path ` set b \<longrightarrow> no_revival t b log"
    and "\<And>k. record_at s k = latest_about k log"
  shows "record_at (snd (mem_add_batch ctx t b s)) k = latest_about k (history [(ctx, t, b)] log)"
proof -
  have ok: "fst (mem_add_batch ctx t b s) = None \<longleftrightarrow> ctx = None \<and> [] \<notin> rv_path ` set b"
    unfolding mem_add_batch_ok by force
  show ?thesis
  proof (cases "ctx = None \<and> [] \<notin> rv_path ` set b")
    case True
    with fold_history [OF _ assms(2), of t b k] assms(1) ok show ?thesis
      by (cases "b = []") (simp_all add: mem_add_batch_effect assms(2))
  next
    case False
    with ok assms(2) show ?thesis by (simp only: mem_add_batch_effect history.simps if_False simp_thms)
  qed
qed

lemma writes_history:
  "never_revives ws log \<Longrightarrow> (\<And>k. record_at s k = latest_about k log) \<Longrightarrow>
     record_at (write_all mem_add_batch ws s) k = latest_about k (history ws log)"
proof (induction ws arbitrary: s log)
  case Nil
  then show ?case by simp
next
  case (Cons w ws)
  obtain ctx t b where w: "w = (ctx, t, b)" by (cases w)
  have "record_at (snd (mem_add_batch ctx t b s)) k = latest_about k (history [(ctx, t, b)] log)" for k
    using Cons.prems unfolding w by (intro batch_history) simp_all
  from Cons.IH [OF _ this] Cons.prems(1) show ?case by (simp add: w)
qed

text \<open>C13: A revocation stored once keeps its first record, as the interface asks: over any sequence of
  writes, of which some fail, the in-memory store answers every lookup from the history in
  which each revocation has the record of the write that first stored it, with that write's
  time. This holds as long as no write repeats a revocation that a later revocation of the
  same delegation has replaced: such a repeat is stored anew, as the lemma mem_alternating_restores shows.\<close>

theorem mem_keeps_first_record:
  assumes "never_revives ws []"
  shows "mem_get None k (write_all mem_add_batch ws new_store) =
    (case latest_about k (history ws []) of
       None \<Rightarrow> Inl (Sentinel NotFound)
     | Some x \<Rightarrow> Inr x)"
proof -
  have "record_at (write_all mem_add_batch ws new_store) k = latest_about k (history ws [])"
    using assms by (rule writes_history) (simp add: new_store_def latest_about_def)
  from this [symmetric] show ?thesis by (simp add: mem_get_def split: option.split)
qed

lemma mem_last_cause:
  assumes "fst (mem_add_batch ctx t b s) = None" "r \<in> set b"
  shows "\<exists>x. record_at (snd (mem_add_batch ctx t b s)) (revoked_link r) = Some x \<and>
           inv_link (rr_cause x) =
             cause_link (last (filter (\<lambda>r'. revoked_link r' = revoked_link r) b))"
proof -
  let ?rs = "filter (\<lambda>r'. revoked_link r' = revoked_link r) b"
  have ne: "?rs \<noteq> []" using assms(2) by (auto simp: filter_empty_conv)
  then obtain x where "fold (resolve t) ?rs (record_at s (revoked_link r)) = Some x"
    using fold_resolve_None [of t ?rs] by blast
  with ne assms(1) show ?thesis
    unfolding mem_add_batch_records by (auto dest: fold_resolve_cause)
qed

text \<open>A batch is coherent when no delegation has two causes in it.\<close>

definition coherent :: "revocation list \<Rightarrow> bool" where
  "coherent b \<longleftrightarrow>
     (\<forall>r \<in> set b. \<forall>r' \<in> set b. revoked_link r = revoked_link r' \<longrightarrow> cause_link r = cause_link r')"

lemma fold_store_one_id:
  "\<forall>r \<in> set rs. store_one t r s = s \<Longrightarrow> fold (store_one t) rs s = s"
  by (induction rs) auto

lemma store_one_repeat:
  "record_at s (revoked_link r) = Some x \<Longrightarrow> inv_link (rr_cause x) = cause_link r \<Longrightarrow>
     store_one t r s = s"
  by (auto simp: store_one_def)

lemma mem_stored_cause:
  assumes "fst (mem_add_batch ctx t b s) = None" "coherent b" "r \<in> set b"
  shows "\<exists>x. record_at (snd (mem_add_batch ctx t b s)) (revoked_link r) = Some x \<and>
           inv_link (rr_cause x) = cause_link r"
proof -
  let ?rs = "filter (\<lambda>r'. revoked_link r' = revoked_link r) b"
  have "?rs \<noteq> []" using assms(3) by (auto simp: filter_empty_conv)
  then have "last ?rs \<in> set ?rs" by (rule last_in_set)
  then have "last ?rs \<in> set b \<and> revoked_link (last ?rs) = revoked_link r"
    by (simp only: set_filter mem_Collect_eq)
  then have "cause_link (last ?rs) = cause_link r"
    using assms(2,3) unfolding coherent_def by blast
  with mem_last_cause [OF assms(1,3)] show ?thesis by (simp only:)
qed

text \<open>Retrying a batch that was stored is safe: the second write keeps every record,
  its timestamp and its sequence number, so that no stream sees a revocation twice.\<close>

theorem mem_retry_noop:
  assumes "fst (mem_add_batch ctx t b s) = None" and "coherent b"
  shows "ms_records (snd (mem_add_batch ctx' t' b (snd (mem_add_batch ctx t b s)))) =
           ms_records (snd (mem_add_batch ctx t b s)) \<and>
         ms_next_seq (snd (mem_add_batch ctx' t' b (snd (mem_add_batch ctx t b s)))) =
           ms_next_seq (snd (mem_add_batch ctx t b s))"
proof -
  let ?s = "snd (mem_add_batch ctx t b s)"
  have "\<forall>r \<in> set b. store_one t' r ?s = ?s"
    using mem_stored_cause [OF assms] store_one_repeat by blast
  then have "fold (store_one t') b ?s = ?s" by (rule fold_store_one_id)
  then show ?thesis by (simp add: mem_add_batch_effect [of ctx' t' b ?s])
qed

definition sample_delegation :: delegation where
  "sample_delegation =
     \<lparr>dlg_link = Cid ''d'', dlg_issuer = Did ''alice'', dlg_audience = Did ''bob'',
      dlg_subject = Did ''alice''\<rparr>"

definition sample_cause :: "string \<Rightarrow> invocation" where
  "sample_cause c =
     \<lparr>inv_link = Cid c, inv_task = Cid c, inv_issuer = Did ''alice'',
      inv_command = ''/ucan/revoke''\<rparr>"

definition sample_revocation :: "string \<Rightarrow> revocation" where
  "sample_revocation c = \<lparr>rv_cause = sample_cause c, rv_path = [sample_delegation]\<rparr>"

lemmas sample_defs = sample_delegation_def sample_cause_def sample_revocation_def

theorem mem_retry_noop_witness:
  "ms_records (snd (mem_add_batch None 9 [sample_revocation ''c'']
       (snd (mem_add_batch None 5 [sample_revocation ''c''] new_store)))) =
     ms_records (snd (mem_add_batch None 5 [sample_revocation ''c''] new_store))"
proof -
  have ok: "fst (mem_add_batch None 5 [sample_revocation ''c''] new_store) = None"
    by (simp add: mem_add_batch_ok sample_defs)
  have "coherent [sample_revocation ''c'']" by (simp add: coherent_def)
  then show ?thesis using mem_retry_noop [OF ok, of None 9] by simp
qed

text \<open>Two revocations of one delegation in one batch, the second repeated by a retry.\<close>

theorem mem_keeps_first_record_witness:
  "mem_get None (Cid ''d'') (write_all mem_add_batch
      [(None, 5, [sample_revocation ''a'', sample_revocation ''b'']), (Some (Msg ''gone''), 7, []),
       (None, 9, [sample_revocation ''b''])] new_store) =
   Inr (record_of 5 (sample_revocation ''b''))"
proof -
  let ?ws = "[(None, 5, [sample_revocation ''a'', sample_revocation ''b'']), (Some (Msg ''gone''), 7, []),
     (None, 9, [sample_revocation ''b''])]"
  have "never_revives ?ws []" "latest_about (Cid ''d'') (history ?ws []) = Some (record_of 5 (sample_revocation ''b''))"
    by (simp_all add: repeats_latest_def keep_first_def latest_about_def cause_link_def revoked_link_def
        record_of_def sample_defs)
  with mem_keeps_first_record [of ?ws "Cid ''d''"] show ?thesis by simp
qed

text \<open>The record kept is not always the first: when a delegation's revocation is stored,
  then another revocation of it, then the first one again, the third write stores the
  first revocation anew, with a later timestamp and a new place in the streams.\<close>

theorem mem_alternating_restores:
  assumes "revoked_link r = revoked_link r'" "cause_link r \<noteq> cause_link r'"
    and "rv_path r \<noteq> []" "rv_path r' \<noteq> []"
  shows "mem_get None (revoked_link r)
           (write_all mem_add_batch
              [(None, t1, [r]), (None, t2, [r']), (None, t3, [r])] s) =
         Inr (record_of t3 r)"
proof -
  define s1 where "s1 = snd (mem_add_batch None t1 [r] s)"
  define s2 where "s2 = snd (mem_add_batch None t2 [r'] s1)"
  have "\<exists>x. record_at s2 (revoked_link r') = Some x \<and> inv_link (rr_cause x) = cause_link r'"
    unfolding s2_def using assms
    by (intro mem_stored_cause) (auto simp: mem_add_batch_ok coherent_def)
  then have "record_at (snd (mem_add_batch None t3 [r] s2)) (revoked_link r) =
      Some (record_of t3 r)"
    using assms unfolding mem_add_batch_records by (auto simp: resolve_def mem_add_batch_ok)
  then show ?thesis by (simp only: mem_get_Inr write_all.simps s1_def s2_def)
qed

theorem mem_alternating_restores_witness:
  "mem_get None (Cid ''d'')
     (write_all mem_add_batch
        [(None, 1, [sample_revocation ''a'']), (None, 2, [sample_revocation ''b'']),
         (None, 3, [sample_revocation ''a''])] new_store) =
     Inr (record_of 3 (sample_revocation ''a''))"
proof -
  let ?a = "sample_revocation ''a''" and ?b = "sample_revocation ''b''"
  have "revoked_link ?a = revoked_link ?b" "cause_link ?a \<noteq> cause_link ?b"
    "rv_path ?a \<noteq> []" "rv_path ?b \<noteq> []"
    by (simp_all add: revoked_link_def cause_link_def sample_defs)
  then have "mem_get None (revoked_link ?a)
      (write_all mem_add_batch [(None, 1, [?a]), (None, 2, [?b]), (None, 3, [?a])] new_store) =
    Inr (record_of 3 ?a)"
    by (rule mem_alternating_restores)
  moreover have "revoked_link ?a = Cid ''d''"
    by (simp add: revoked_link_def sample_defs)
  ultimately show ?thesis by (simp only:)
qed

section \<open>Sequence numbers and snapshots\<close>

text \<open>
  Every stored record has its own sequence number, none larger than the counter. A
  write keeps this as long as the 64-bit counter does not wrap.
\<close>

definition seq_invar :: "mem_store \<Rightarrow> bool" where
  "seq_invar s \<longleftrightarrow>
     distinct (map (mr_seq \<circ> snd) (ms_records s)) \<and>
     (\<forall>(k, e) \<in> set (ms_records s). 0 < mr_seq e \<and> mr_seq e \<le> ms_next_seq s)"

lemma seq_invar_new: "seq_invar new_store"
  by (simp add: seq_invar_def new_store_def)

lemma distinct_map_update:
  "distinct (map f al) \<Longrightarrow> f (k, v) \<notin> f ` set al \<Longrightarrow> distinct (map f (AList.update k v al))"
proof (induction al)
  case Nil
  then show ?case by simp
next
  case (Cons p al)
  obtain k' v' where p: "p = (k', v')" by (cases p)
  have "f (k', v') \<notin> f ` set (AList.update k v al)"
    using Cons.prems p set_update_subset [of k v al] by fastforce
  with Cons p show ?case by (cases "k = k'") auto
qed

lemma next_seq_greater:
  fixes w x :: "64 word"
  assumes "Suc (unat w) < 2 ^ 64" "x \<le> w"
  shows "x < w + 1"
  using assms unat_Suc_word [of w] by (simp add: word_less_nat_alt word_le_nat_alt)

lemma seq_invar_put:
  assumes inv: "seq_invar s" and room: "Suc (unat (ms_next_seq s)) < 2 ^ 64"
  shows "seq_invar (put_record t r s)"
proof -
  let ?n = "ms_next_seq s + 1"
  have less: "mr_seq e < ?n" if "(k, e) \<in> set (ms_records s)" for k e
    using that inv room by (intro next_seq_greater) (auto simp: seq_invar_def)
  have pos: "0 < ?n" using next_seq_greater [OF room, of 0] by simp
  let ?e = "\<lparr>mr_record = record_of t r, mr_seq = ?n\<rparr>"
  have "distinct (map (mr_seq \<circ> snd) (AList.update (revoked_link r) ?e (ms_records s)))"
    using inv less by (intro distinct_map_update) (force simp: seq_invar_def)+
  moreover have "0 < mr_seq e \<and> mr_seq e \<le> ?n"
    if "(k, e) \<in> set (AList.update (revoked_link r) ?e (ms_records s))" for k e
  proof -
    from that set_update_subset have "(k, e) = (revoked_link r, ?e) \<or> (k, e) \<in> set (ms_records s)"
      by fastforce
    then show ?thesis
    proof
      assume "(k, e) \<in> set (ms_records s)"
      then show ?thesis using inv less [of k e] by (auto simp: seq_invar_def)
    qed (use pos in auto)
  qed
  ultimately show ?thesis unfolding seq_invar_def by auto
qed

lemma next_seq_store_one:
  assumes "Suc (unat (ms_next_seq s)) < 2 ^ 64"
  shows "ms_next_seq s \<le> ms_next_seq (store_one t r s)"
    and "unat (ms_next_seq (store_one t r s)) \<le> Suc (unat (ms_next_seq s))"
  using assms unat_Suc_word [of "ms_next_seq s"]
  by (rule_tac store_one_cases [of t r s]; simp add: word_le_nat_alt)+

lemma seq_invar_fold:
  assumes "seq_invar s" "unat (ms_next_seq s) + length rs < 2 ^ 64"
  shows "seq_invar (fold (store_one t) rs s) \<and> ms_next_seq s \<le> ms_next_seq (fold (store_one t) rs s)"
  using assms
proof (induction rs arbitrary: s)
  case Nil
  then show ?case by simp
next
  case (Cons r rs)
  let ?s = "store_one t r s"
  from Cons.prems have room: "Suc (unat (ms_next_seq s)) < 2 ^ 64" by simp
  have "seq_invar ?s"
    using Cons.prems(1) room seq_invar_put by (cases rule: store_one_cases [of t r s]) auto
  moreover have "unat (ms_next_seq ?s) + length rs < 2 ^ 64"
    using next_seq_store_one(2) [OF room, of t r] Cons.prems(2) by simp
  ultimately show ?case using Cons.IH next_seq_store_one(1) [OF room, of t r] by force
qed

text \<open>A snapshot, as a set and as a sequence.\<close>

lemma set_snapshot:
  "set (fst (records_from_locked q from s)) =
     {e. e \<in> snd ` set (ms_records s) \<and> entry_matches q from e}"
  by (auto simp: records_from_locked_def)

lemma snd_snapshot [simp]: "snd (records_from_locked q from s) = ms_next_seq s"
  by (simp add: records_from_locked_def)

lemma sorted_snapshot: "sorted (map entry_key (fst (records_from_locked q from s)))"
  by (simp add: records_from_locked_def)

lemma distinct_snapshot:
  assumes "seq_invar s"
  shows "distinct (map mr_seq (fst (records_from_locked q from s)))"
proof -
  let ?xs = "filter (entry_matches q from) (map snd (ms_records s))"
  have "distinct (map mr_seq ?xs)"
    using assms by (intro distinct_map_filter) (simp add: seq_invar_def comp_def)
  then have "distinct (map mr_seq (sort_key entry_key ?xs))"
    by (simp add: distinct_map)
  then show ?thesis by (simp add: records_from_locked_def)
qed

text \<open>The order in which Go iterates over the map cannot be observed: any two listings of
  the same records give the same snapshot, because the sort key ends with the sequence
  number, which no two records share.\<close>

theorem snapshot_order_irrelevant:
  assumes "seq_invar s" and "mset (ms_records s') = mset (ms_records s)"
  shows "fst (records_from_locked q from s') = fst (records_from_locked q from s)"
proof -
  let ?f = "\<lambda>s. filter (entry_matches q from) (map snd (ms_records s))"
  have ms: "mset (?f s') = mset (?f s)"
    by (simp only: mset_filter mset_map assms(2))
  have "distinct (map entry_key (?f s))"
  proof -
    have "distinct (map mr_seq (?f s))"
      using assms(1) by (intro distinct_map_filter) (simp add: seq_invar_def comp_def)
    then show ?thesis
      by (auto simp: distinct_map entry_key_def inj_on_def)
  qed
  then have inj: "inj_on entry_key (set (?f s))" by (simp add: distinct_map)
  have "sort_key entry_key (?f s') = sort_key entry_key (?f s)"
    using ms inj mset_eq_setD [OF ms] by (intro sort_key_eq_sort_key) simp_all
  then show ?thesis by (simp add: records_from_locked_def)
qed

theorem snapshot_order_irrelevant_witness:
  "fst (records_from_locked 0 0
      \<lparr>ms_records = [(Cid ''x'', \<lparr>mr_record = record_of 7 (sample_revocation ''a''), mr_seq = 2\<rparr>),
                     (Cid ''d'', \<lparr>mr_record = record_of 7 (sample_revocation ''b''), mr_seq = 1\<rparr>)],
       ms_subscribers = [], ms_next_seq = 2, ms_next_subscriber = 0\<rparr>) =
   fst (records_from_locked 0 0
      \<lparr>ms_records = [(Cid ''d'', \<lparr>mr_record = record_of 7 (sample_revocation ''b''), mr_seq = 1\<rparr>),
                     (Cid ''x'', \<lparr>mr_record = record_of 7 (sample_revocation ''a''), mr_seq = 2\<rparr>)],
       ms_subscribers = [], ms_next_seq = 2, ms_next_subscriber = 0\<rparr>)"
  by (rule snapshot_order_irrelevant) (simp_all add: seq_invar_def)

section \<open>The log of the store\<close>

lemma mem_add_batch_seq:
  assumes "seq_invar s" "unat (ms_next_seq s) + length b < 2 ^ 64"
  shows "seq_invar (snd (mem_add_batch ctx t b s))"
proof -
  have "seq_invar (notify_all (fold (store_one t) b s))"
    using seq_invar_fold [OF assms] by (simp add: seq_invar_def notify_all_def)
  with assms(1) show ?thesis by (auto simp: mem_add_batch_def split: option.splits)
qed

text \<open>What the in-memory store streams to a connection that opens at \<open>t\<close>.\<close>

definition snapshot :: "time \<Rightarrow> mem_store \<Rightarrow> revocation_record list" where
  "snapshot t s = map mr_record (fst (records_from_locked 0 t s))"

lemma sorted_snapshot_times: "sorted (map rr_recorded_at (snapshot t s))"
proof -
  have "sorted (map (fst \<circ> entry_key) (fst (records_from_locked 0 t s)))"
    using sorted_snapshot [of 0 t s]
    by (auto simp: sorted_iff_nth_mono entry_key_def less_eq_prod_def le_less)
  then show ?thesis by (simp add: snapshot_def comp_def entry_key_def)
qed

lemma snapshot_filter:
  assumes "\<forall>r \<in> set (snapshot 0 s). 0 \<le> rr_recorded_at r"
  shows "snapshot t s = filter (\<lambda>r. t \<le> rr_recorded_at r) (snapshot 0 s)"
proof -
  let ?all = "filter (entry_matches 0 0) (map snd (ms_records s))"
  have late: "0 \<le> rr_recorded_at (mr_record e)" if "(k, e) \<in> set (ms_records s)" "0 < mr_seq e" for k e
  proof -
    have "mr_record e \<in> set (snapshot 0 s)"
      using that by (force simp: snapshot_def set_snapshot entry_matches_def)
    with assms show ?thesis by blast
  qed
  have "filter (entry_matches 0 t) (map snd (ms_records s)) =
      filter (\<lambda>e. t \<le> rr_recorded_at (mr_record e)) ?all"
    using late by (auto simp: entry_matches_def intro!: filter_cong)
  then show ?thesis
    by (simp add: snapshot_def records_from_locked_def filter_map comp_def filter_sort)
qed

lemma mem_get_in_snapshot:
  assumes "mem_get None k s = Inr x" "seq_invar s" "mem_invar s"
  shows "x \<in> set (snapshot 0 s) \<and> rr_revoke x = k"
proof -
  obtain e where e: "(k, e) \<in> set (ms_records s)" "x = mr_record e"
    using assms(1) by (auto simp: mem_get_Inr dest: map_of_SomeD)
  then have "rr_revoke x = k" using assms(3) by (auto simp: mem_invar_def)
  moreover have "e \<in> set (fst (records_from_locked 0 0 s))"
    using e assms(2) by (force simp: set_snapshot seq_invar_def entry_matches_def)
  ultimately show ?thesis using e(2) by (auto simp: snapshot_def)
qed

text \<open>
  With room for the batch in the sequence numbers, the in-memory store is a store with a log.
\<close>

interpretation memlog: logged_store "\<lambda>s. mem_invar s \<and> seq_invar s"
  "\<lambda>b s. unat (ms_next_seq s) + length b < 2 ^ 64" mem_add_batch mem_get "snapshot 0"
proof (unfold_locales, goal_cases)
  case (1 s b c t)
  then show ?case by (simp add: mem.add_invar mem_add_batch_seq)
next
  case (2 r b c t s)
  then show ?case by (rule mem.add_rejects)
next
  case (3 e t b s)
  show ?case by (rule mem.add_canceled)
next
  case (4 s b c t r)
  then show ?case by (intro mem.add_stored) simp_all
next
  case (5 s b k x c t)
  then show ?case by (intro mem.add_keeps) simp_all
next
  case (6 s b k c t x)
  then show ?case by (intro mem.add_nothing_else) simp_all
next
  case (7 s k x)
  then show ?case by (intro mem.get_about) simp_all
next
  case (8 s k x)
  then show ?case using mem_get_in_snapshot by blast
next
  case (9 s)
  show ?case by (rule sorted_snapshot_times)
qed

end
