(* ===== verification/Client.thy ===== *)
theory Client
  imports Http Memory_Store
begin

text \<open>
  The HTTP client of \<^verbatim>\<open>pkg/client/client.go\<close> for reading: the URLs it builds
  (\<open>endpoint\<close>), the lookup (\<open>Get\<close>, \<open>decodeRecord\<close>) and the resuming event stream
  (\<open>streamConn\<close>, \<open>Stream\<close>). The HTTP transport is a function from URLs to responses, a
  different one for every connection of a stream; cancellation and the consumer's
  answers are given with it. Publishing is in \<^verbatim>\<open>Publish.thy\<close>.
\<close>

section \<open>Requests and responses\<close>

text \<open>
  What the transport answers: the status code and line, the bytes of the body that arrive
  and how reading goes on after them, with an error or, \<open>None\<close>, the end.
\<close>

record http_response =
  hr_status :: nat
  hr_status_line :: string
  hr_body :: bytes
  hr_body_err :: "error option"

type_synonym transport = "string \<Rightarrow> http_response result"

text \<open>
  The client: the service's DID and URL, and what it borrows, the two codecs and the
  parsing of a URL into a request.
\<close>

record ('w, 'r) client =
  cl_service_id :: did
  cl_service_url :: string
  cl_ucan :: ucan_lib
  cl_json :: "('w, 'r) json_lib"
  cl_new_request :: "string \<Rightarrow> error option"

text \<open>\<open>url.PathEscape\<close>: what a path segment may hold stays, any other byte is \<open>%XX\<close>.\<close>

definition unreserved :: "char \<Rightarrow> bool" where
  "unreserved c \<longleftrightarrow>
     c \<in> set ''abcdefghijklmnopqrstuvwxyzABCDEFGHIJKLMNOPQRSTUVWXYZ0123456789-_.~$&+:=@''"

definition upper_hex :: "nat \<Rightarrow> char" where
  "upper_hex n = (if n < 10 then char_of (48 + n) else char_of (55 + n))"

definition escape_byte :: "char \<Rightarrow> string" where
  "escape_byte c =
     (if unreserved c then [c]
      else [CHR ''%'', upper_hex (of_char c div 16), upper_hex (of_char c mod 16)])"

definition path_escape :: "string \<Rightarrow> string" where
  "path_escape s = concat (map escape_byte s)"

definition endpoint :: "string \<Rightarrow> string list \<Rightarrow> string" where
  "endpoint service_url parts =
     trim_right (CHR ''/'') service_url @ ''/'' @ strings_join ''/'' (map path_escape parts)"

section \<open>The lookup\<close>

definition decode_record :: "ucan_lib \<Rightarrow> api_revocation \<Rightarrow> revocation_record result" where
  "decode_record ul value =
     (case decode_invocation ul (ar_cause value) of
        Inl e \<Rightarrow> Inl (Wrap ''decoding revocation cause'' e)
      | Inr cause \<Rightarrow>
          (case decode_path ul (ar_path value) of
             Inl e \<Rightarrow> Inl e
           | Inr path \<Rightarrow>
               Inr \<lparr>rr_revoke = ar_revoke value, rr_path = path, rr_cause = cause,
                    rr_recorded_at = ar_recorded_at value\<rparr>))"

definition client_get ::
  "('w, 'r) client \<Rightarrow> transport \<Rightarrow> cid \<Rightarrow> revocation_record result" where
  "client_get cl do_request delegation =
     (let url = endpoint (cl_service_url cl) [''revocation'', cid_text (cl_ucan cl) delegation] in
      case cl_new_request cl url of
        Some e \<Rightarrow> Inl (Wrap ''creating revocation request'' e)
      | None \<Rightarrow>
          (case do_request url of
             Inl e \<Rightarrow> Inl (Wrap ''getting revocation'' e)
           | Inr response \<Rightarrow>
               if hr_status response = 404 then Inl (Sentinel NotFound)
               else if hr_status response \<noteq> 200
               then Inl (Msg (''getting revocation: unexpected status '' @ hr_status_line response))
               else (case unmarshal_revocation (cl_json cl) (hr_body response) of
                   Inl e \<Rightarrow> Inl (Wrap ''decoding revocation record'' e)
                 | Inr record \<Rightarrow> decode_record (cl_ucan cl) record)))"

section \<open>One connection of a stream\<close>

definition cursor_of :: "time \<Rightarrow> string" where
  "cursor_of from = (if from = 0 then ''0'' else format_rfc3339nano from)"

text \<open>
  The loop over the events. \<open>emit\<close> is the callback, with the state its closure changes;
  the result is the error of the connection and that state.
\<close>

function stream_loop ::
  "('w, 'r) json_lib \<Rightarrow> (api_firehose \<Rightarrow> 's \<Rightarrow> bool \<times> 's) \<Rightarrow> scanner \<Rightarrow> 's \<Rightarrow> error option \<times> 's" where
  "stream_loop lib emit events st =
     (case scan events of
        (False, events') \<Rightarrow>
          (if (case scanner_err events' of Some e \<Rightarrow> errors_is e EventTooLong | None \<Rightarrow> False)
           then (Some (CorruptError (Msg (''streamed revocation exceeds '' @
                   show_nat max_event_bytes @ '' bytes''))), st)
           else (None, st))
      | (True, events') \<Rightarrow>
          if sc_event events' \<noteq> ''revocation'' then stream_loop lib emit events' st
          else (case unmarshal_firehose lib (sc_data events') of
              Inl e \<Rightarrow> (Some (CorruptError (Wrap ''decoding streamed revocation'' e)), st)
            | Inr value \<Rightarrow>
                (case emit value st of
                   (False, st') \<Rightarrow> (Some (Sentinel StreamStopped), st')
                 | (True, st') \<Rightarrow> stream_loop lib emit events' st')))"
  by pat_completeness auto
termination
  by (relation "measure (\<lambda>(lib, emit, events, st). length (ls_pending (sc_lines events)))")
    (auto dest!: scan_consumes [OF sym])

declare stream_loop.simps [simp del]

definition stream_conn ::
  "('w, 'r) client \<Rightarrow> transport \<Rightarrow> time \<Rightarrow> (api_firehose \<Rightarrow> 's \<Rightarrow> bool \<times> 's) \<Rightarrow> 's \<Rightarrow>
     error option \<times> 's" where
  "stream_conn cl do_request from emit st =
     (let url = endpoint (cl_service_url cl) [''revocations'', cursor_of from] in
      case cl_new_request cl url of
        Some e \<Rightarrow> (Some (ConnectError (Wrap ''creating revocation stream request'' e)), st)
      | None \<Rightarrow>
          (case do_request url of
             Inl e \<Rightarrow> (Some (ConnectError (Wrap ''opening revocation stream'' e)), st)
           | Inr response \<Rightarrow>
               if hr_status response \<noteq> 200
               then (Some (ConnectError (Msg (''opening revocation stream: unexpected status '' @
                       hr_status_line response))), st)
               else stream_loop (cl_json cl) emit
                      (new_scanner (hr_body response) (hr_body_err response)) st))"

section \<open>The resuming stream\<close>

text \<open>
  The variables of \<open>Stream\<close> and what it has yielded. \<open>accept out r\<close> is the consumer's
  answer to the record \<open>r\<close> after the records \<open>out\<close>.
\<close>

record session =
  ss_resume :: time
  ss_seen :: "cid list"
  ss_out :: "api_firehose list"

definition new_session :: "time \<Rightarrow> session" where
  "new_session from = \<lparr>ss_resume = from, ss_seen = [], ss_out = []\<rparr>"

definition deliver ::
  "(api_firehose list \<Rightarrow> api_firehose \<Rightarrow> bool) \<Rightarrow> api_firehose \<Rightarrow> session \<Rightarrow> bool \<times> session" where
  "deliver accept record st =
     (if af_recorded_at record = ss_resume st \<and> af_cause record \<in> set (ss_seen st) then (True, st)
      else
        (let st' = (if af_recorded_at record = ss_resume st then st
                    else st\<lparr>ss_resume := af_recorded_at record, ss_seen := []\<rparr>)
         in (accept (ss_out st) record,
             st'\<lparr>ss_seen := List.insert (af_cause record) (ss_seen st'),
                 ss_out := ss_out st @ [record]\<rparr>)))"

text \<open>\<open>errors.AsType\<close> for the two wrapper types.\<close>

primrec is_corrupt :: "error \<Rightarrow> bool" where
  "is_corrupt (Sentinel x) = False"
| "is_corrupt (Msg m) = False"
| "is_corrupt (Wrap m e) = is_corrupt e"
| "is_corrupt (ConnectError e) = is_corrupt e"
| "is_corrupt (CorruptError e) = True"
| "is_corrupt (HTTPError c m) = False"
| "is_corrupt (Foreign m) = False"

primrec is_connect :: "error \<Rightarrow> bool" where
  "is_connect (Sentinel x) = False"
| "is_connect (Msg m) = False"
| "is_connect (Wrap m e) = is_connect e"
| "is_connect (ConnectError e) = True"
| "is_connect (CorruptError e) = is_connect e"
| "is_connect (HTTPError c m) = False"
| "is_connect (Foreign m) = False"

text \<open>
  A turn of the loop sees the transport, \<open>ctx.Err()\<close> after the connection, and whether
  the context is done before the back-off has passed. A stream is \<open>Retrying\<close> while none
  of its turns so far ended it; it ends when the consumer stops, or with an error.
\<close>

record attempt =
  at_transport :: transport
  at_ctx :: "error option"
  at_wait :: "error option"

datatype ending = Stopped | Failed error | Retrying

definition is_some_with :: "(error \<Rightarrow> bool) \<Rightarrow> error option \<Rightarrow> bool" where
  [error_defs]: "is_some_with p e = (case e of Some x \<Rightarrow> p x | None \<Rightarrow> False)"

fun client_stream ::
  "('w, 'r) client \<Rightarrow> (api_firehose list \<Rightarrow> api_firehose \<Rightarrow> bool) \<Rightarrow> attempt list \<Rightarrow> bool \<Rightarrow> session \<Rightarrow>
     ending \<times> session" where
  "client_stream cl accept [] connected st = (Retrying, st)"
| "client_stream cl accept (a # attempts) connected st =
     (let (err, st') = stream_conn cl (at_transport a) (ss_resume st) (deliver accept) st in
      if is_some_with (\<lambda>e. errors_is e StreamStopped) err then (Stopped, st')
      else case at_ctx a of
          Some c \<Rightarrow> (Failed c, st')
        | None \<Rightarrow>
            if is_some_with is_corrupt err then (Failed (the err), st')
            else if is_some_with is_connect err \<and> \<not> connected then (Failed (the err), st')
            else (case at_wait a of
                Some c \<Rightarrow> (Failed c, st')
              | None \<Rightarrow>
                  client_stream cl accept attempts (connected \<or> \<not> is_some_with is_connect err) st'))"

definition stream_from ::
  "('w, 'r) client \<Rightarrow> (api_firehose list \<Rightarrow> api_firehose \<Rightarrow> bool) \<Rightarrow> attempt list \<Rightarrow> time \<Rightarrow>
     ending \<times> session" where
  "stream_from cl accept attempts from = client_stream cl accept attempts False (new_session from)"

section \<open>What the server makes of the URL\<close>

text \<open>Percent-decoding of a path segment, and the segments of a path.\<close>

definition hex_value :: "char \<Rightarrow> nat option" where
  "hex_value c = find_index 0 (\<lambda>d. d = c) ''0123456789ABCDEF''"

fun path_unescape :: "string \<Rightarrow> string option" where
  "path_unescape [] = Some []"
| "path_unescape (c # cs) =
     (if c = CHR ''%'' then
        (case cs of
           a # b # r \<Rightarrow>
             (case (hex_value a, hex_value b, path_unescape r) of
                (Some x, Some y, Some s) \<Rightarrow> Some (char_of (16 * x + y) # s)
              | _ \<Rightarrow> None)
         | _ \<Rightarrow> None)
      else map_option (Cons c) (path_unescape cs))"

fun segments :: "string \<Rightarrow> string list" where
  "segments [] = [[]]"
| "segments (c # cs) =
     (if c = CHR ''/'' then [] # segments cs
      else case segments cs of [] \<Rightarrow> [[c]] | s # ss \<Rightarrow> (c # s) # ss)"

lemma hex_digits:
  assumes "n < 16"
  shows "hex_value (upper_hex n) = Some n" "upper_hex n \<noteq> CHR ''/''"
proof -
  have "\<forall>n \<in> set [0..<16]. hex_value (upper_hex n) = Some n \<and> upper_hex n \<noteq> CHR ''/''"
    by code_simp
  with assms show "hex_value (upper_hex n) = Some n" "upper_hex n \<noteq> CHR ''/''" by auto
qed

lemma unescape_byte: "path_unescape (escape_byte c @ s) = map_option (Cons c) (path_unescape s)"
proof (cases "unreserved c")
  case True
  then have "c \<noteq> CHR ''%''" by (auto simp: unreserved_def)
  with True show ?thesis by (simp add: escape_byte_def)
next
  case False
  have "(of_char c :: nat) < 256" by simp
  then have "(of_char c :: nat) div 16 < 16" by linarith
  with False show ?thesis
    by (simp add: escape_byte_def hex_digits split: option.split)
qed

lemma unescape_escape: "path_unescape (path_escape s) = Some s"
  by (induction s) (simp_all add: path_escape_def unescape_byte)

lemma no_slash_escaped: "CHR ''/'' \<notin> set (path_escape s)"
proof -
  have "CHR ''/'' \<notin> set (escape_byte c)" for c
  proof (cases "unreserved c")
    case True
    moreover have "\<not> unreserved (CHR ''/'')" by (simp add: unreserved_def)
    ultimately show ?thesis by (auto simp: escape_byte_def)
  next
    case False
    have "(of_char c :: nat) < 256" by simp
    then have "(of_char c :: nat) div 16 < 16" "(of_char c :: nat) mod 16 < 16" by linarith+
    then have "CHR ''/'' \<noteq> upper_hex (of_char c div 16)" "CHR ''/'' \<noteq> upper_hex (of_char c mod 16)"
      using hex_digits(2) by metis+
    with False show ?thesis by (simp add: escape_byte_def)
  qed
  then show ?thesis by (auto simp: path_escape_def)
qed

lemma segments_no_slash: "CHR ''/'' \<notin> set p \<Longrightarrow> segments p = [p]"
  by (induction p) auto

lemma segments_slash: "CHR ''/'' \<notin> set p \<Longrightarrow> segments (p @ CHR ''/'' # s) = p # segments s"
  by (induction p) auto

lemma segments_join:
  "ps \<noteq> [] \<Longrightarrow> \<forall>p \<in> set ps. CHR ''/'' \<notin> set p \<Longrightarrow> segments (strings_join ''/'' ps) = ps"
proof (induction ps rule: induct_list012)
  case 1
  then show ?case by simp
next
  case (2 x)
  then show ?case by (simp add: segments_no_slash)
next
  case (3 x y ps)
  then show ?case by (simp add: segments_slash)
qed

text \<open>No path parameter can break out of its place in the URL: splitting what follows the
  service URL at the slashes and percent-decoding each part gives the parameters back,
  whatever bytes they hold, and one slash separates them from the service URL however many
  it ends with.\<close>

theorem endpoint_delivers_parameters:
  assumes "parts \<noteq> []"
  shows "\<exists>rest. endpoint service_url parts = trim_right (CHR ''/'') service_url @ ''/'' @ rest \<and>
    map path_unescape (segments rest) = map Some parts"
  using assms
  by (intro exI [of _ "strings_join ''/'' (map path_escape parts)"])
    (simp add: endpoint_def segments_join no_slash_escaped unescape_escape)

theorem endpoint_delivers_parameters_witness:
  "\<exists>rest. endpoint ''https://host//'' [''revocation'', ''a/b%''] =
       trim_right (CHR ''/'') ''https://host//'' @ ''/'' @ rest \<and>
     map path_unescape (segments rest) = [Some ''revocation'', Some ''a/b%'']"
  using endpoint_delivers_parameters [of "[''revocation'', ''a/b%'']" "''https://host//''"] by simp

text \<open>C39: A cursor means the same instant to both sides: what the client puts into the URL for an
  instant of the years 1 to 9999 the server's parser reads as that instant.\<close>

theorem cursor_roundtrip:
  assumes "0 \<le> t" and "t < year_10000"
  shows "parse_from general (cursor_of t) = Inr t"
  using assms by (simp add: parse_from_def cursor_of_def parse_format format_not_zero)

theorem cursor_roundtrip_witness:
  "parse_from (\<lambda>_. Inl (Foreign ''bad time'')) (cursor_of 63838108800123456789) =
     Inr 63838108800123456789"
  by (rule cursor_roundtrip) (simp_all add: year_10000_def)

section \<open>The lookup against the server\<close>

text \<open>
  The response of a handler as the client receives it: \<open>line\<close> is the status line of a code
  and \<open>body\<close> what the framework writes for an error, which the client does not read.
\<close>

definition served ::
  "(nat \<Rightarrow> string) \<Rightarrow> (nat \<Rightarrow> bytes) \<Rightarrow> error option \<times> response option \<Rightarrow> http_response" where
  "served line body r =
     \<lparr>hr_status = status_of r, hr_status_line = line (status_of r),
      hr_body = (case snd r of Some resp \<Rightarrow> rs_body resp | None \<Rightarrow> body (status_of r)),
      hr_body_err = None\<rparr>"

lemma decode_encoded_record:
  assumes "ucan_codec (he_ucan env)" "dag_json (he_json env) accepts holds"
    and "encode_revocation_record env record = Inr data"
    and "accepts (CidTok (rr_revoke record))" "accepts (TimeTok (rr_recorded_at record))"
  shows "\<exists>value. unmarshal_revocation (he_json env) data = Inr value \<and>
    decode_record (he_ucan env) value = Inr record"
proof -
  obtain cause path where parts: "encode_invocation (he_ucan env) (rr_cause record) = Inr cause"
      "encode_path (he_ucan env) (\<lambda>i. ''encoding delegation at path index '' @ show_nat i)
         (rr_path record) = Inr path"
    and data: "marshal_revocation (he_json env)
      \<lparr>ar_revoke = rr_revoke record, ar_path = path, ar_cause = cause,
       ar_recorded_at = rr_recorded_at record\<rparr> = Inr data"
    using assms(3) by (auto simp: encode_revocation_record_def split: sum.splits)
  have "unmarshal_revocation (he_json env) data =
      Inr \<lparr>ar_revoke = rr_revoke record, ar_path = path, ar_cause = cause,
           ar_recorded_at = rr_recorded_at record\<rparr>"
    using assms(4,5) by (intro dag_json.revocation_roundtrip [OF assms(2) _ _ data]) simp_all
  moreover have "decode_invocation (he_ucan env) cause = Inr (rr_cause record)"
    using ucan_codec.invocation_back [OF assms(1) parts(1)] .
  moreover have "decode_path (he_ucan env) path = Inr (rr_path record)"
    using ucan_codec.path_back [OF assms(1) parts(2)] .
  ultimately show ?thesis by (simp add: decode_record_def)
qed

text \<open>C17: Get is the store's Get, over the network: when the lookup handler answers the client's
  request from a store, Get returns the very record the store holds, all of its fields and the
  tokens of its path; ErrNotFound exactly when the store has none; and for any other failure of
  the store, or of encoding the record, an error that names the status of the response.\<close>

theorem client_get_is_store_get:
  assumes "ucan_codec (he_ucan env)" and "dag_json (he_json env) accepts holds"
    and "cl_ucan cl = he_ucan env" and "cl_json cl = he_json env"
    and "c \<noteq> undef_cid"
    and "url = endpoint (cl_service_url cl) [''revocation'', cid_text (he_ucan env) c]"
    and "cl_new_request cl url = None"
    and "transport url = Inr (served line body (revocation_handler env get (cid_text (he_ucan env) c)))"
    and "\<And>r. get c = Inr r \<Longrightarrow> accepts (CidTok (rr_revoke r)) \<and> accepts (TimeTok (rr_recorded_at r))"
  shows "client_get cl transport c =
     (let failed = Inl (Msg (''getting revocation: unexpected status '' @ line 500)) in
      case get c of
        Inl e \<Rightarrow> if errors_is e NotFound then Inl (Sentinel NotFound) else failed
      | Inr r \<Rightarrow> (case encode_revocation_record env r of Inl _ \<Rightarrow> failed | Inr _ \<Rightarrow> Inr r))"
proof -
  have cid: "cid_decode (he_ucan env) (cid_text (he_ucan env) c) = Inr c"
    using ucan_codec.cid_back [OF assms(1,5)] .
  show ?thesis
  proof (cases "get c")
    case (Inl e)
    then show ?thesis
      using assms(3,6-8) cid
      by (simp add: client_get_def revocation_handler_def served_def status_of_def Let_def)
  next
    case (Inr r)
    show ?thesis
    proof (cases "encode_revocation_record env r")
      case (Inl e)
      then show ?thesis
        using Inr assms(3,6-8) cid
        by (simp add: client_get_def revocation_handler_def served_def status_of_def Let_def)
    next
      case data: (Inr data)
      obtain v where v: "unmarshal_revocation (he_json env) data = Inr v"
        "decode_record (he_ucan env) v = Inr r"
        using decode_encoded_record [OF assms(1,2) data] assms(9) [OF Inr] by blast
      show ?thesis
        using Inr data v assms(3,4,6-8) cid
        by (simp add: client_get_def revocation_handler_def served_def status_of_def Let_def)
    qed
  qed
qed

definition sample_client :: "(string, string) client" where
  "sample_client =
     \<lparr>cl_service_id = Did ''swarf'', cl_service_url = ''https://swarf/'', cl_ucan = sample_ucan,
      cl_json = sample_json, cl_new_request = (\<lambda>_. None)\<rparr>"

lemma sample_client_simps [simp]:
  "cl_service_id sample_client = Did ''swarf''" "cl_service_url sample_client = ''https://swarf/''"
  "cl_ucan sample_client = sample_ucan" "cl_json sample_client = sample_json"
  "cl_new_request sample_client url = None"
  by (simp_all add: sample_client_def)

lemma web_record_encodes: "\<exists>data. encode_revocation_record sample_http (web_record ''c'' 7) = Inr data"
proof -
  let ?cause = "invocation_text (rr_cause (web_record ''c'' 7))"
  let ?dlg = "delegation_text (hd (rr_path (web_record ''c'' 7)))"
  have "length ?cause \<le> 200" "length ?dlg \<le> 200"
    by (simp_all add: web_record_def invocation_text_def delegation_text_def did_text_def hex_char_def)
  then have "within_limits \<lparr>ar_revoke = x, ar_path = [?dlg], ar_cause = ?cause, ar_recorded_at = 7\<rparr>" for x
    by (simp add: within_limits_def max_byte_array_def max_key_def)
  from sample_marshal_revocation [OF this] show ?thesis
    by (simp add: encode_revocation_record_def encode_path_def sample_ucan_def web_record_def)
qed

theorem client_get_is_store_get_witness:
  "client_get sample_client
     (\<lambda>_. Inr (served (\<lambda>_. ''?'') (\<lambda>_. [])
        (revocation_handler sample_http (\<lambda>_. Inr (web_record ''c'' 7)) ''d''))) (Cid ''d'') =
   Inr (web_record ''c'' 7)"
  using client_get_is_store_get [of sample_http "\<lambda>_. True" sample_holds sample_client "Cid ''d''"
      "endpoint ''https://swarf/'' [''revocation'', ''d'']"
      "\<lambda>_. Inr (served (\<lambda>_. ''?'') (\<lambda>_. [])
        (revocation_handler sample_http (\<lambda>_. Inr (web_record ''c'' 7)) ''d''))"
      "\<lambda>_. ''?''" "\<lambda>_. []" "\<lambda>_. Inr (web_record ''c'' 7)"]
    sample_ucan.ucan_codec_axioms sample_json.dag_json_axioms web_record_encodes
  by (auto simp: undef_cid_def)

section \<open>What a stream delivers\<close>

text \<open>The revocation events among the events of a body, decoded.\<close>

definition revocations_in ::
  "('w, 'r) json_lib \<Rightarrow> (string \<times> string) list \<Rightarrow> api_firehose result list" where
  "revocations_in lib es =
     map (\<lambda>(ev, d). unmarshal_firehose lib d) (filter (\<lambda>(ev, d). ev = ''revocation'') es)"

fun emit_all :: "(api_firehose \<Rightarrow> 's \<Rightarrow> bool \<times> 's) \<Rightarrow> api_firehose list \<Rightarrow> 's \<Rightarrow> bool \<times> 's" where
  "emit_all emit [] st = (True, st)"
| "emit_all emit (r # rs) st =
     (case emit r st of (False, st') \<Rightarrow> (False, st') | (True, st') \<Rightarrow> emit_all emit rs st')"

definition too_long :: "scanner \<Rightarrow> bool" where
  [error_defs]: "too_long z \<longleftrightarrow> is_some_with (\<lambda>e. errors_is e EventTooLong) (scanner_err z)"

definition oversize_error :: error where
  [error_defs]: "oversize_error = CorruptError (Msg (''streamed revocation exceeds '' @
     show_nat max_event_bytes @ '' bytes''))"

text \<open>On a body whose events decode, the loop emits them all, or up to where the consumer stops.\<close>

lemma stream_loop_emits:
  "revocations_in lib (fst (scan_all s)) = map Inr rs \<Longrightarrow>
   stream_loop lib emit s st =
     (case emit_all emit rs st of
        (False, st') \<Rightarrow> (Some (Sentinel StreamStopped), st')
      | (True, st') \<Rightarrow> (if too_long (snd (scan_all s)) then Some oversize_error else None, st'))"
proof (induction s arbitrary: rs st rule: scan_all.induct)
  case (1 s)
  obtain more s' where sc: "scan s = (more, s')" by (cases "scan s")
  show ?case
  proof (cases more)
    case False
    then have "scan_all s = ([], s')" using sc by (simp add: scan_all.simps [of s])
    moreover from this have "rs = []" using "1.prems" by (simp add: revocations_in_def)
    ultimately show ?thesis
      using sc False
      by (simp add: stream_loop.simps [of _ _ s] error_defs)
  next
    case True
    obtain es z where all: "scan_all s' = (es, z)" by (cases "scan_all s'")
    have here: "scan_all s = ((sc_event s', sc_data s') # es, z)"
      using sc True all by (simp add: scan_all.simps [of s])
    have "more = True" using True by simp
    note IH = "1.IH" [OF sc [symmetric] this, unfolded all fst_conv snd_conv]
    show ?thesis
    proof (cases "sc_event s' = ''revocation''")
      case False
      then have "revocations_in lib es = map Inr rs" using "1.prems" here by (simp add: revocations_in_def)
      from IH [OF this] show ?thesis
        using sc True False by (simp add: stream_loop.simps [of _ _ s] here)
    next
      case rev: True
      then obtain r rs' where rs: "rs = r # rs'" "unmarshal_firehose lib (sc_data s') = Inr r"
        "revocations_in lib es = map Inr rs'"
        using "1.prems" here by (cases rs) (auto simp: revocations_in_def)
      obtain ok st1 where e: "emit r st = (ok, st1)" by (cases "emit r st")
      show ?thesis
        using sc True rev rs e IH [OF rs(3), of st1]
        by (cases ok) (simp_all add: stream_loop.simps [of _ _ s] here)
    qed
  qed
qed

section \<open>Resuming against an append-only log\<close>

text \<open>
  The log of a service that never inserts a record before one it has sent: the records in
  the order of their times. \<open>along F from n st\<close> says the session has yielded the first \<open>n\<close>
  records of the log's part \<open>F\<close> it asked for.
\<close>

definition along :: "api_firehose list \<Rightarrow> time \<Rightarrow> nat \<Rightarrow> session \<Rightarrow> bool" where
  "along F from n st \<longleftrightarrow>
     n \<le> length F \<and> ss_out st = take n F \<and>
     ss_resume st = (if n = 0 then from else af_recorded_at (F ! (n - 1))) \<and>
     set (ss_seen st) = af_cause ` {r \<in> set (take n F). af_recorded_at r = ss_resume st}"

definition in_time_order :: "api_firehose list \<Rightarrow> bool" where
  "in_time_order F \<longleftrightarrow> sorted (map af_recorded_at F) \<and> distinct (map af_cause F)"

lemma along_new: "along F from 0 (new_session from)"
  by (simp add: along_def new_session_def)

lemma set_take_nth: "x \<in> set (take n xs) \<longleftrightarrow> (\<exists>j < n. j < length xs \<and> x = xs ! j)"
  by (auto simp: in_set_conv_nth)

lemma along_times:
  assumes "in_time_order F" "along F from n st" "r \<in> set (take n F)"
  shows "af_recorded_at r \<le> ss_resume st"
proof -
  obtain j where j: "j < n" "j < length F" "r = F ! j"
    using assms(3) by (auto simp: set_take_nth)
  then have "map af_recorded_at F ! j \<le> map af_recorded_at F ! (n - 1)"
    using assms(1,2) by (intro sorted_nth_mono) (auto simp: in_time_order_def along_def)
  moreover have "n - 1 < length F" using j assms(2) by (auto simp: along_def)
  ultimately show ?thesis using j assms(2) by (simp add: along_def)
qed

lemma deliver_skips:
  assumes "along F from n st" "j < n" "af_recorded_at (F ! j) = ss_resume st"
  shows "deliver accept (F ! j) st = (True, st)"
proof -
  have "F ! j \<in> set (take n F)" using assms(1,2) by (auto simp: in_set_conv_nth along_def)
  then have "af_cause (F ! j) \<in> set (ss_seen st)" using assms(1,3) by (auto simp: along_def)
  with assms(3) show ?thesis by (simp add: deliver_def)
qed

lemma deliver_next:
  assumes "in_time_order F" "along F from n st" "n < length F"
  obtains st' where "deliver accept (F ! n) st = (accept (ss_out st) (F ! n), st')"
    "along F from (Suc n) st'"
proof -
  let ?r = "F ! n"
  have fresh: "af_cause r \<noteq> af_cause ?r" if old: "r \<in> set (take n F)" for r
  proof -
    obtain j where "j < n" "j < length F" "r = F ! j" using old by (auto simp: set_take_nth)
    with assms(1,3) show ?thesis by (simp add: in_time_order_def distinct_conv_nth)
  qed
  have "set (ss_seen st) \<subseteq> af_cause ` set (take n F)" using assms(2) by (auto simp: along_def)
  with fresh have unseen: "af_cause ?r \<notin> set (ss_seen st)" by fastforce
  have take: "take (Suc n) F = take n F @ [?r]" using assms(3) by (rule take_Suc_conv_app_nth)
  have le: "ss_resume st \<le> af_recorded_at ?r" if "n \<noteq> 0"
  proof -
    have "map af_recorded_at F ! (n - 1) \<le> map af_recorded_at F ! n"
      using assms(1,3) by (intro sorted_nth_mono) (auto simp: in_time_order_def)
    with that assms(2,3) show ?thesis by (simp add: along_def)
  qed
  let ?st = "if af_recorded_at ?r = ss_resume st then st
             else st\<lparr>ss_resume := af_recorded_at ?r, ss_seen := []\<rparr>"
  let ?st' = "?st\<lparr>ss_seen := List.insert (af_cause ?r) (ss_seen ?st), ss_out := ss_out st @ [?r]\<rparr>"
  have "deliver accept ?r st = (accept (ss_out st) ?r, ?st')"
    using unseen by (simp add: deliver_def Let_def)
  moreover have "along F from (Suc n) ?st'"
  proof (cases "af_recorded_at ?r = ss_resume st")
    case True
    have "set (ss_seen ?st') = insert (af_cause ?r) (set (ss_seen st))" using True by simp
    also have "\<dots> = af_cause ` {r \<in> set (take (Suc n) F). af_recorded_at r = ss_resume ?st'}"
      using assms(2) True unfolding along_def take by auto
    finally show ?thesis using assms(2,3) True by (simp add: along_def take)
  next
    case False
    have "af_recorded_at r \<noteq> af_recorded_at ?r" if "r \<in> set (take n F)" for r
    proof -
      have "n \<noteq> 0" using that by (cases n) simp_all
      with le False along_times [OF assms(1,2) that] show ?thesis by simp
    qed
    then have "{r \<in> set (take (Suc n) F). af_recorded_at r = af_recorded_at ?r} = {?r}"
      unfolding take by auto
    then show ?thesis using assms(2,3) False by (simp add: along_def take)
  qed
  ultimately show thesis by (rule that)
qed

text \<open>
  A connection that starts at position \<open>m\<close>, at or before what was yielded, and brings a
  stretch of the log: what was yielded is skipped, the rest is appended.
\<close>

lemma emit_stretch:
  assumes "in_time_order F" "along F from n st" "m \<le> n" "rs = take (length rs) (drop m F)"
    and "\<forall>j. m \<le> j \<and> j < n \<longrightarrow> af_recorded_at (F ! j) = ss_resume st"
  shows "\<exists>ok st' n'. emit_all (deliver accept) rs st = (ok, st') \<and> along F from n' st' \<and>
    (ok \<longrightarrow> m + length rs \<le> n')"
  using assms(2-5)
proof (induction rs arbitrary: m n st)
  case Nil
  then show ?case by auto
next
  case (Cons r rs)
  have eq: "r # rs = take (Suc (length rs)) (drop m F)" using Cons.prems(3) by simp
  then have m: "m < length F" by (cases "m < length F") simp_all
  with eq have r: "r = F ! m" and rs: "rs = take (length rs) (drop (Suc m) F)"
    by (simp_all add: Cons_nth_drop_Suc [symmetric])
  show ?case
  proof (cases "m < n")
    case True
    have "deliver accept r st = (True, st)"
      unfolding r using True Cons.prems(4) by (intro deliver_skips [OF Cons.prems(1)]) auto
    moreover obtain ok st' n' where "emit_all (deliver accept) rs st = (ok, st')"
      "along F from n' st'" "ok \<longrightarrow> Suc m + length rs \<le> n'"
      using Cons.IH [OF Cons.prems(1) _ rs] True Cons.prems(4) by auto
    ultimately show ?thesis by auto
  next
    case False
    with Cons.prems(2) have n: "m = n" by simp
    obtain st1 where st1: "deliver accept r st = (accept (ss_out st) r, st1)" "along F from (Suc n) st1"
      using deliver_next [OF assms(1) Cons.prems(1)] m unfolding r n by blast
    show ?thesis
    proof (cases "accept (ss_out st) r")
      case True
      moreover obtain ok st' n' where "emit_all (deliver accept) rs st1 = (ok, st')"
        "along F from n' st'" "ok \<longrightarrow> Suc m + length rs \<le> n'"
        using Cons.IH [OF st1(2) _ rs] n by auto
      ultimately show ?thesis using st1(1) by auto
    next
      case False
      with st1 show ?thesis by auto
    qed
  qed
qed

text \<open>
  A transport that serves the log: whatever instant a cursor can express it is asked for, what arrives of a
  stream, if one is opened, is a stretch of the log from the cursor's instant on, the
  whole of it when \<open>complete\<close>.
\<close>

definition log_from :: "time \<Rightarrow> api_firehose list \<Rightarrow> api_firehose list" where
  "log_from t log = filter (\<lambda>r. t \<le> af_recorded_at r) log"

definition arrives :: "('w, 'r) json_lib \<Rightarrow> http_response \<Rightarrow> api_firehose list \<Rightarrow> bool" where
  "arrives lib resp rs \<longleftrightarrow>
     revocations_in lib (fst (scan_all (new_scanner (hr_body resp) (hr_body_err resp)))) = map Inr rs"

definition stream_url :: "('w, 'r) client \<Rightarrow> time \<Rightarrow> string" where
  "stream_url cl t = endpoint (cl_service_url cl) [''revocations'', cursor_of t]"

definition serves :: "('w, 'r) client \<Rightarrow> api_firehose list \<Rightarrow> transport \<Rightarrow> bool" where
  "serves cl log transport \<longleftrightarrow>
     (\<forall>t resp. 0 \<le> t \<longrightarrow> t < year_10000 \<longrightarrow>
        transport (stream_url cl t) = Inr resp \<longrightarrow> hr_status resp = 200 \<longrightarrow>
        (\<exists>k. arrives (cl_json cl) resp (take k (log_from t log))))"

definition serves_all :: "('w, 'r) client \<Rightarrow> api_firehose list \<Rightarrow> transport \<Rightarrow> bool" where
  "serves_all cl log transport \<longleftrightarrow>
     (\<forall>t. 0 \<le> t \<longrightarrow> t < year_10000 \<longrightarrow>
        (\<exists>resp. cl_new_request cl (stream_url cl t) = None \<and>
        transport (stream_url cl t) = Inr resp \<and> hr_status resp = 200 \<and>
        arrives (cl_json cl) resp (log_from t log)))"

lemma log_from_resume:
  assumes "in_time_order F" "along F from n st" "\<forall>r \<in> set F. from \<le> af_recorded_at r"
  obtains m where "m \<le> n" "log_from (ss_resume st) F = drop m F"
    "\<forall>j. m \<le> j \<and> j < n \<longrightarrow> af_recorded_at (F ! j) = ss_resume st"
proof -
  let ?t = "ss_resume st"
  let ?m = "length (takeWhile (\<lambda>r. af_recorded_at r < ?t) F)"
  have sorted: "sorted (map af_recorded_at F)" using assms(1) by (simp add: in_time_order_def)
  have drop: "drop ?m F = dropWhile (\<lambda>r. af_recorded_at r < ?t) F"
    by (simp add: dropWhile_eq_drop)
  have late: "?t \<le> af_recorded_at (F ! j)" if "?m \<le> j" "j < length F" for j
  proof -
    have "\<not> af_recorded_at (F ! ?m) < ?t" using that nth_length_takeWhile [of "\<lambda>r. af_recorded_at r < ?t" F] by simp
    moreover have "map af_recorded_at F ! ?m \<le> map af_recorded_at F ! j"
      using that sorted by (intro sorted_nth_mono) auto
    ultimately show ?thesis using that by simp
  qed
  have "log_from ?t F = drop ?m F"
  proof -
    have "F = takeWhile (\<lambda>r. af_recorded_at r < ?t) F @ drop ?m F" by (simp add: drop)
    moreover have "filter (\<lambda>r. ?t \<le> af_recorded_at r) (takeWhile (\<lambda>r. af_recorded_at r < ?t) F) = []"
      by (auto simp: filter_empty_conv dest: set_takeWhileD)
    moreover have "filter (\<lambda>r. ?t \<le> af_recorded_at r) (drop ?m F) = drop ?m F"
      using late by (auto simp: filter_id_conv in_set_conv_nth)
    ultimately show ?thesis unfolding log_from_def by (metis append_Nil filter_append)
  qed
  moreover have "?m \<le> n"
  proof (rule ccontr)
    assume "\<not> ?m \<le> n"
    then have n: "n < ?m" by simp
    then have "F ! n \<in> set F" using length_takeWhile_le [of "\<lambda>r. af_recorded_at r < ?t" F] by (intro nth_mem) linarith
    have "F ! (n - 1) \<in> set (takeWhile (\<lambda>r. af_recorded_at r < ?t) F)" if "n \<noteq> 0"
      using n that by (metis diff_le_self le_less_trans nth_mem takeWhile_nth)
    moreover have "F ! n \<in> set (takeWhile (\<lambda>r. af_recorded_at r < ?t) F)"
      using n by (metis nth_mem takeWhile_nth)
    ultimately show False
      using assms(2,3) \<open>F ! n \<in> set F\<close> by (fastforce simp: along_def dest: set_takeWhileD split: if_splits)
  qed
  moreover have "af_recorded_at (F ! j) = ?t" if j: "?m \<le> j" "j < n" for j
  proof -
    have "j < length F" using j assms(2) by (simp add: along_def)
    moreover from this have "F ! j \<in> set (take n F)" using j by (auto simp: set_take_nth)
    ultimately show ?thesis
      using late [OF j(1)] along_times [OF assms(1,2)] by (simp add: order_antisym)
  qed
  ultimately show thesis by (intro that) auto
qed

lemma log_from_later: "from \<le> t \<Longrightarrow> log_from t (log_from from log) = log_from t log"
  by (auto simp: log_from_def intro!: filter_cong)

lemma in_time_order_log_from: "in_time_order log \<Longrightarrow> in_time_order (log_from from log)"
  by (simp add: in_time_order_def log_from_def sorted_filter distinct_map_filter)

definition instants :: "api_firehose list \<Rightarrow> bool" where
  "instants log \<longleftrightarrow> (\<forall>r \<in> set log. 0 \<le> af_recorded_at r \<and> af_recorded_at r < year_10000)"

lemma along_resume:
  assumes "in_time_order F" "along F from n st" "F = log_from from log" "instants log"
    and "0 \<le> from" "from < year_10000"
  shows "0 \<le> ss_resume st" "ss_resume st < year_10000" "from \<le> ss_resume st"
proof -
  have "ss_resume st = from \<or> ss_resume st \<in> af_recorded_at ` set F"
    using assms(2) by (auto simp: along_def)
  then show "0 \<le> ss_resume st" "ss_resume st < year_10000" "from \<le> ss_resume st"
    using assms(3-6) by (auto simp: log_from_def instants_def)
qed

text \<open>
  A connection that brings the records \<open>rs\<close> takes the session along the log, to its end when
  they are all the log has from the cursor on and the consumer goes on.
\<close>

lemma stretch_along:
  assumes order: "in_time_order log" and inst: "instants log" and "0 \<le> from" "from < year_10000"
    and along: "along (log_from from log) from n st"
    and k: "rs = take k (log_from (ss_resume st) log)"
    and loop: "(err, st') = (case emit_all (deliver accept) rs st of
        (False, st') \<Rightarrow> (Some (Sentinel StreamStopped), st')
      | (True, st') \<Rightarrow> (if long then Some oversize_error else None, st'))"
  shows "\<exists>n'. along (log_from from log) from n' st' \<and>
    (rs = log_from (ss_resume st) log \<and> \<not> is_some_with (\<lambda>e. errors_is e StreamStopped) err \<longrightarrow>
       n' = length (log_from from log))"
proof -
  let ?F = "log_from from log"
  note F = in_time_order_log_from [OF order, of "from"]
  note range = along_resume [OF F along refl inst assms(3,4)]
  obtain m where m: "m \<le> n" "log_from (ss_resume st) ?F = drop m ?F"
    "\<forall>j. m \<le> j \<and> j < n \<longrightarrow> af_recorded_at (?F ! j) = ss_resume st"
    using log_from_resume [OF F along] by (auto simp: log_from_def)
  have log: "log_from (ss_resume st) log = drop m ?F"
    using m(2) log_from_later [OF range(3)] by simp
  have "rs = take (length rs) (drop m ?F)" unfolding k log by (simp add: min_def)
  then obtain ok st1 n' where emit: "emit_all (deliver accept) rs st = (ok, st1)"
    "along ?F from n' st1" "ok \<longrightarrow> m + length rs \<le> n'"
    using emit_stretch [OF F along m(1) _ m(3)] by blast
  have "st' = st1" using loop emit(1) by (cases ok) auto
  moreover have "ok" if "\<not> is_some_with (\<lambda>e. errors_is e StreamStopped) err"
    using that loop emit(1) by (cases ok) (auto simp: error_defs)
  moreover have "n' \<le> length ?F" using emit(2) by (simp add: along_def)
  ultimately show ?thesis
    using emit(2,3) m(1) log along by (intro exI [of _ n']) (auto simp: along_def)
qed

text \<open>What a connection does, given what the response, if it opened, brings.\<close>

lemma stream_conn_closed:
  assumes "stream_conn cl transport from emit st = (err, st')"
    and "\<nexists>resp. cl_new_request cl (stream_url cl from) = None \<and>
      transport (stream_url cl from) = Inr resp \<and> hr_status resp = 200"
  shows "st' = st"
  using assms
  by (auto simp: stream_conn_def stream_url_def Let_def split: option.splits sum.splits if_splits)

lemma stream_conn_open:
  assumes "cl_new_request cl (stream_url cl t) = None"
    and "transport (stream_url cl t) = Inr resp" and "hr_status resp = 200"
    and "arrives (cl_json cl) resp rs"
  shows "stream_conn cl transport t emit st =
    (case emit_all emit rs st of
       (False, st') \<Rightarrow> (Some (Sentinel StreamStopped), st')
     | (True, st') \<Rightarrow> (if too_long (snd (scan_all (new_scanner (hr_body resp) (hr_body_err resp))))
                      then Some oversize_error else None, st'))"
  using assms stream_loop_emits [OF assms(4) [unfolded arrives_def], of emit st]
  by (simp add: stream_conn_def stream_url_def Let_def)

text \<open>One connection takes the session along the log; a complete one to its end.\<close>

lemma stream_conn_along:
  assumes log: "in_time_order log" "instants log" "0 \<le> from" "from < year_10000"
    and serves: "serves cl log transport" and along: "along (log_from from log) from n st"
    and conn: "stream_conn cl transport (ss_resume st) (deliver accept) st = (err, st')"
  shows "\<exists>n'. along (log_from from log) from n' st' \<and>
    (serves_all cl log transport \<and> \<not> is_some_with (\<lambda>e. errors_is e StreamStopped) err \<longrightarrow>
       n' = length (log_from from log))"
proof -
  let ?url = "stream_url cl (ss_resume st)"
  note range = along_resume [OF in_time_order_log_from [OF log(1)] along refl log(2-4)]
  show ?thesis
  proof (cases "\<exists>resp. cl_new_request cl ?url = None \<and> transport ?url = Inr resp \<and> hr_status resp = 200")
    case True
    then obtain resp where resp: "cl_new_request cl ?url = None" "transport ?url = Inr resp"
      "hr_status resp = 200" by blast
    have stretch: "\<exists>n'. along (log_from from log) from n' st' \<and>
        (rs = log_from (ss_resume st) log \<and> \<not> is_some_with (\<lambda>e. errors_is e StreamStopped) err \<longrightarrow>
           n' = length (log_from from log))"
      if "arrives (cl_json cl) resp rs" "rs = take k (log_from (ss_resume st) log)" for rs k
      using conn stream_conn_open [where transport = transport and t = "ss_resume st", OF resp that(1)]
      by (intro stretch_along [OF log along that(2)]) (rule trans [OF sym])
    show ?thesis
    proof (cases "serves_all cl log transport")
      case True
      then have "arrives (cl_json cl) resp (log_from (ss_resume st) log)"
        using resp range unfolding serves_all_def by fastforce
      from stretch [OF this, of "length (log_from (ss_resume st) log)"] show ?thesis by auto
    next
      case False
      obtain k where "arrives (cl_json cl) resp (take k (log_from (ss_resume st) log))"
        using serves resp range by (auto simp: serves_def)
      from stretch [OF this refl] False show ?thesis by blast
    qed
  next
    case False
    then have "\<not> serves_all cl log transport" using range unfolding serves_all_def by blast
    with stream_conn_closed [OF conn False] along show ?thesis by blast
  qed
qed

lemma client_stream_along:
  assumes "in_time_order log" "instants log" "0 \<le> from" "from < year_10000"
    and "list_all (\<lambda>a. serves cl log (at_transport a)) attempts"
    and "along (log_from from log) from n st"
    and "client_stream cl accept attempts connected st = (e, st')"
  shows "\<exists>n'. along (log_from from log) from n' st' \<and>
    (e = Retrying \<and> attempts \<noteq> [] \<and> serves_all cl log (at_transport (last attempts)) \<longrightarrow>
       n' = length (log_from from log))"
  using assms(5-)
proof (induction attempts arbitrary: connected n st)
  case Nil
  then show ?case by auto
next
  case (Cons a attempts)
  obtain err st1 where conn:
    "stream_conn cl (at_transport a) (ss_resume st) (deliver accept) st = (err, st1)"
    by (cases "stream_conn cl (at_transport a) (ss_resume st) (deliver accept) st")
  obtain n1 where n1: "along (log_from from log) from n1 st1"
    "serves_all cl log (at_transport a) \<and> \<not> is_some_with (\<lambda>e. errors_is e StreamStopped) err \<longrightarrow>
       n1 = length (log_from from log)"
    using stream_conn_along [OF assms(1-4) _ Cons.prems(2) conn] Cons.prems(1) by auto
  show ?case
  proof (cases "e = Retrying")
    case True
    then obtain c where next_turn: "client_stream cl accept attempts c st1 = (e, st')"
      and live: "\<not> is_some_with (\<lambda>e. errors_is e StreamStopped) err"
      using Cons.prems(3) conn by (auto split: if_splits option.splits)
    show ?thesis
    proof (cases "attempts = []")
      case True
      with next_turn n1 live show ?thesis by auto
    next
      case False
      with Cons.IH [OF _ n1(1) next_turn] Cons.prems(1) show ?thesis by simp
    qed
  next
    case False
    from Cons.prems(3) consider "st' = st1"
      | c where "client_stream cl accept attempts c st1 = (e, st')"
      using conn by (auto split: if_splits option.splits)
    then show ?thesis
    proof cases
      case 1
      with n1 False show ?thesis by blast
    next
      case 2
      with Cons.IH [OF _ n1(1) 2] Cons.prems(1) False show ?thesis by auto
    qed
  qed
qed

text \<open>Reconnecting loses nothing and repeats nothing, as long as the service never inserts a
  record before one it has sent: however connections fail, are refused or are cut inside an
  event, and whatever the consumer answers, the records a call of Stream has yielded are
  the first ones of the log from the given time on, each once and in order.\<close>

theorem stream_resumes_exactly:
  assumes "in_time_order log" and "instants log" and "0 \<le> from" and "from < year_10000"
    and "list_all (\<lambda>a. serves cl log (at_transport a)) attempts"
  shows "\<exists>n. ss_out (snd (stream_from cl accept attempts from)) = take n (log_from from log)"
proof -
  obtain e st where "client_stream cl accept attempts False (new_session from) = (e, st)"
    by (cases "client_stream cl accept attempts False (new_session from)")
  with client_stream_along [OF assms along_new this] show ?thesis
    by (auto simp: stream_from_def along_def)
qed

text \<open>And it catches up: a stream that is still running after a connection that brought the
  whole log from its cursor on has yielded every record of the log from the given time on,
  also those that earlier connections lost.\<close>

lemma resumed_stream_catches_up:
  assumes "in_time_order log" and "instants log" and "0 \<le> from" and "from < year_10000"
    and "list_all (\<lambda>a. serves cl log (at_transport a)) attempts"
    and "attempts \<noteq> []" and "serves_all cl log (at_transport (last attempts))"
    and "fst (stream_from cl accept attempts from) = Retrying"
  shows "ss_out (snd (stream_from cl accept attempts from)) = log_from from log"
proof -
  obtain e st where "client_stream cl accept attempts False (new_session from) = (e, st)"
    by (cases "client_stream cl accept attempts False (new_session from)")
  with client_stream_along [OF assms(1-5) along_new this] assms(6-8) show ?thesis
    by (auto simp: stream_from_def along_def)
qed

section \<open>How a stream ends\<close>

lemma stream_loop_error:
  "stream_loop lib emit s st = (Some e, st') \<Longrightarrow> is_corrupt e \<or> errors_is e StreamStopped"
proof (induction s arbitrary: st rule: scan_all.induct)
  case (1 s)
  obtain more s' where sc: "scan s = (more, s')" by (cases "scan s")
  show ?case
  proof (cases more)
    case False
    with 1 sc show ?thesis by (auto simp: stream_loop.simps [of _ _ s] split: if_splits)
  next
    case True
    then have "more = True" by simp
    with 1 sc show ?thesis
      by (subst (asm) (2) stream_loop.simps) (auto split: if_splits sum.splits prod.splits bool.splits)
  qed
qed

lemma stream_conn_error:
  assumes "stream_conn cl transport from emit st = (Some e, st')"
  shows "is_corrupt e \<or> errors_is e StreamStopped \<or> is_connect e \<and> st' = st"
  using assms
  by (auto simp: stream_conn_def Let_def dest: stream_loop_error
      split: option.splits sum.splits if_splits)

lemma client_stream_connected_reason:
  "client_stream cl accept attempts True st = (Failed e, st') \<Longrightarrow>
     is_corrupt e \<or> (\<exists>a \<in> set attempts. at_ctx a = Some e \<or> at_wait a = Some e)"
proof (induction attempts arbitrary: st)
  case Nil
  then show ?case by simp
next
  case (Cons a attempts)
  obtain err st1 where conn:
    "stream_conn cl (at_transport a) (ss_resume st) (deliver accept) st = (err, st1)"
    by (cases "stream_conn cl (at_transport a) (ss_resume st) (deliver accept) st")
  show ?case
    using Cons.prems conn Cons.IH [of st1]
    by (cases err) (auto simp: error_defs split: if_splits option.splits)
qed

text \<open>C21: A stream does not give up on its own: it ends with an error only when its context is
  done, when the service sent a record that cannot be decoded or is too large, or when the
  very first connection could not be opened, in which case nothing was yielded. Failing to
  reconnect never ends it.\<close>

theorem stream_ends_for_a_reason:
  assumes "stream_from cl accept attempts from = (Failed e, st)"
  shows "(\<exists>a \<in> set attempts. at_ctx a = Some e \<or> at_wait a = Some e) \<or> is_corrupt e \<or>
    is_connect e \<and> ss_out st = [] \<and>
    (\<exists>a rest. attempts = a # rest \<and>
       fst (stream_conn cl (at_transport a) from (deliver accept) (new_session from)) = Some e)"
proof (cases attempts)
  case Nil
  with assms show ?thesis by (simp add: stream_from_def)
next
  case (Cons a rest)
  let ?st0 = "new_session from"
  obtain err st1 where conn:
    "stream_conn cl (at_transport a) from (deliver accept) ?st0 = (err, st1)"
    by (cases "stream_conn cl (at_transport a) from (deliver accept) ?st0")
  have resume: "ss_resume ?st0 = from" "ss_out ?st0 = []" by (simp_all add: new_session_def)
  show ?thesis
  proof (cases "is_some_with is_connect err")
    case False
    with assms Cons conn resume show ?thesis
      by (auto simp: stream_from_def error_defs dest!: client_stream_connected_reason
          split: if_splits option.splits)
  next
    case True
    then obtain x where x: "err = Some x" "is_connect x" by (cases err) (auto simp: error_defs)
    with assms Cons conn resume stream_conn_error [OF conn [unfolded x]] show ?thesis
      by (auto simp: stream_from_def error_defs split: if_splits option.splits)
  qed
qed

text \<open>C22: An event over the size limit stops a stream instead of looping on it: reconnecting at
  the same cursor would meet it again, so it is reported, wherever in the life of the stream
  it arrives and whatever later connections would bring, after the records before it.\<close>

theorem oversized_event_is_reported:
  assumes "cl_new_request cl (stream_url cl (ss_resume st)) = None"
    and "at_transport a (stream_url cl (ss_resume st)) = Inr resp" and "hr_status resp = 200"
    and "arrives (cl_json cl) resp rs"
    and "too_long (snd (scan_all (new_scanner (hr_body resp) (hr_body_err resp))))"
    and "emit_all (deliver accept) rs st = (True, st')" and "at_ctx a = None"
  shows "client_stream cl accept (a # rest) connected st = (Failed oversize_error, st')"
proof -
  have "stream_conn cl (at_transport a) (ss_resume st) (deliver accept) st = (Some oversize_error, st')"
    using assms(5,6) stream_conn_open [where transport = "at_transport a" and t = "ss_resume st"
        and emit = "deliver accept" and st = st, OF assms(1-4)]
    by simp
  with assms(7) show ?thesis by (simp add: error_defs)
qed

section \<open>Against the server's event stream\<close>

lemma segments_append:
  "segments (x @ CHR ''/'' # y) = segments x @ segments y"
proof (induction x)
  case Nil
  then show ?case by simp
next
  case (Cons c x)
  have "segments x \<noteq> []" for x
    by (induction x) (auto split: list.split)
  with Cons show ?case by (simp split: list.split)
qed

lemma endpoint_last: "path_unescape (last (segments (endpoint base [p, q]))) = Some q"
  by (simp add: endpoint_def segments_append segments_no_slash no_slash_escaped unescape_escape)

text \<open>
  The transport to a firehose handler: the router decodes the last segment into the
  handler's parameter, and the connection is cut after \<open>n\<close> bytes of the body, with the
  read error \<open>e\<close>. \<open>stream\<close> is the store's stream and \<open>net\<close> what becomes of the handler's
  writes.
\<close>

definition firehose_transport ::
  "('w, 'r) http_env \<Rightarrow> (bytes \<Rightarrow> bytes \<Rightarrow> error option) \<Rightarrow> (time \<Rightarrow> revocation_record result list) \<Rightarrow>
     nat \<Rightarrow> error option \<Rightarrow> transport" where
  "firehose_transport env net stream n e url =
     (case path_unescape (last (segments url)) of
        None \<Rightarrow> Inl (Foreign ''bad request'')
      | Some param \<Rightarrow>
          (let resp = served (\<lambda>_. []) (\<lambda>_. []) (firehose_handler env net stream param)
           in Inr (resp\<lparr>hr_body := take n (hr_body resp), hr_body_err := e\<rparr>)))"

lemma revocations_in_events:
  assumes "map (\<lambda>(ev, d). (ev, unmarshal_firehose lib d)) es = map (\<lambda>r. (''revocation'', Inr (f r))) rs @ rest"
    and "''revocation'' \<notin> fst ` set rest"
  shows "revocations_in lib es = map Inr (map f rs)"
  using assms
proof (induction rs arbitrary: es)
  case Nil
  then have "map fst es = map fst rest" by (auto simp: case_prod_unfold comp_def dest: arg_cong [where f = "map fst"])
  with Nil.prems(2) have "''revocation'' \<notin> fst ` set es" by (metis list.set_map)
  then show ?case by (force simp: revocations_in_def filter_empty_conv)
next
  case (Cons r rs)
  then obtain d es' where "es = (''revocation'', d) # es'" "unmarshal_firehose lib d = Inr (f r)"
    "map (\<lambda>(ev, d). (ev, unmarshal_firehose lib d)) es' = map (\<lambda>r. (''revocation'', Inr (f r))) rs @ rest"
    by (cases es) auto
  with Cons.IH [of es'] Cons.prems(2) show ?case by (simp add: revocations_in_def)
qed

definition events_of :: "revocation_record list \<Rightarrow> api_firehose list" where
  "events_of recs = map firehose_value_of recs"

lemma log_from_events:
  "log_from t (events_of recs) = events_of (filter (\<lambda>r. t \<le> rr_recorded_at r) recs)"
  by (simp add: log_from_def events_of_def filter_map comp_def firehose_value_of_def)

text \<open>
  The handler serves the log its store streams; it serves all of it when the store
  streams all of it, every write succeeds and the connection is not cut.
\<close>

lemma firehose_arrives:
  assumes "dag_json (he_json env) accepts holds" "list_all (sendable env accepts) recs"
    and "list_all (reportable env) fails"
    and "firehose_loop env net (map Inr recs @ map Inl fails) [] = (err, out)"
  shows "\<exists>k. revocations_in (he_json env) (fst (scan_all (new_scanner (take n out) e))) =
      map Inr (events_of (take k recs)) \<and>
    (fails = [] \<and> err = None \<and> length out \<le> n \<longrightarrow> take k recs = recs)"
proof -
  have "firehose_loop env net (map Inr recs @ map Inl fails) [] = (err, take n out @ drop n out)"
    using assms(4) by simp
  note cut = cut_body_events [OF assms(1-3) this, of e]
  obtain k es where k:
    "map (\<lambda>(ev, d). (ev, unmarshal_firehose (he_json env) d)) (fst (scan_all (new_scanner (take n out) e))) =
       map (\<lambda>r. (''revocation'', Inr (firehose_value_of r))) (take k recs) @ es"
    "fails = [] \<and> err = None \<and> drop n out = [] \<longrightarrow> k = length recs"
    "es = [] \<or> k = length recs \<and> fails \<noteq> [] \<and> map fst es = [''error'']"
    using cut by (elim exE conjE)
  from k(3) have "''revocation'' \<notin> fst ` set es" by auto
  from revocations_in_events [OF k(1) this] k(2) show ?thesis
    by (intro exI [of _ k]) (auto simp: events_of_def)
qed

text \<open>
  A store's stream that brings a part of the log \<open>recs\<close> from the time it is opened at, and
  may end with an error.
\<close>

definition brings ::
  "('w, 'r) http_env \<Rightarrow> revocation_record list \<Rightarrow> (time \<Rightarrow> revocation_record result list) \<Rightarrow> bool" where
  "brings env recs stream \<longleftrightarrow>
     (\<forall>t. 0 \<le> t \<longrightarrow> (\<exists>k fails. stream t = map Inr (take k (filter (\<lambda>r. t \<le> rr_recorded_at r) recs)) @
        map Inl fails \<and> list_all (reportable env) fails))"

lemma brings_prefix:
  assumes "\<And>t. 0 \<le> t \<Longrightarrow> \<exists>k. stream t = map Inr (take k (filter (\<lambda>r. t \<le> rr_recorded_at r) recs))"
  shows "brings env recs stream"
  unfolding brings_def
proof (intro allI impI)
  fix t :: time
  assume "0 \<le> t"
  with assms obtain k where "stream t = map Inr (take k (filter (\<lambda>r. t \<le> rr_recorded_at r) recs))" by blast
  then show "\<exists>k fails. stream t = map Inr (take k (filter (\<lambda>r. t \<le> rr_recorded_at r) recs)) @
      map Inl fails \<and> list_all (reportable env) fails"
    by (intro exI [of _ k] exI [of _ "[]"]) simp
qed

lemma status_of_response [simp]: "status_of (err, Some resp) = rs_status resp"
  by (cases err; cases "the err") (simp_all add: status_of_def)

lemma firehose_transport_url:
  assumes "0 \<le> t" "t < year_10000"
  shows "\<exists>err out. firehose_loop env net (stream t) [] = (err, out) \<and>
    firehose_transport env net stream n e (stream_url cl t) =
      Inr \<lparr>hr_status = 200, hr_status_line = [], hr_body = take n out, hr_body_err = e\<rparr>"
proof -
  have "parse_from (he_parse_time env) (cursor_of t) = Inr t"
    using assms by (simp add: parse_from_def cursor_of_def parse_format format_not_zero)
  then show ?thesis
    by (cases "firehose_loop env net (stream t) []")
      (simp add: firehose_transport_def stream_url_def endpoint_last firehose_handler_def served_def
        Let_def)
qed

lemma firehose_serves:
  assumes "dag_json (he_json env) accepts holds" "list_all (sendable env accepts) recs"
    and "cl_json cl = he_json env" and "brings env recs stream"
  shows "serves cl (events_of recs) (firehose_transport env net stream n e)"
  unfolding serves_def
proof (intro allI impI)
  fix t resp
  assume t: "0 \<le> t" "t < year_10000"
    and resp: "firehose_transport env net stream n e (stream_url cl t) = Inr resp"
  let ?recs = "filter (\<lambda>r. t \<le> rr_recorded_at r) recs"
  obtain k0 fails where k0: "stream t = map Inr (take k0 ?recs) @ map Inl fails" "list_all (reportable env) fails"
    using assms(4) t(1) unfolding brings_def by blast
  obtain err out where loop: "firehose_loop env net (stream t) [] = (err, out)"
    and r: "resp = \<lparr>hr_status = 200, hr_status_line = [], hr_body = take n out, hr_body_err = e\<rparr>"
    using firehose_transport_url [OF t, of env net stream n e cl] resp by auto
  have "list_all (sendable env accepts) (take k0 ?recs)"
    using assms(2) by (auto simp: list_all_iff dest: in_set_takeD)
  from firehose_arrives [OF assms(1) this k0(2) loop [unfolded k0(1)], of n e]
  obtain k where "arrives (cl_json cl) resp (events_of (take k (take k0 ?recs)))"
    by (auto simp: arrives_def r assms(3))
  then show "\<exists>k. arrives (cl_json cl) resp (take k (log_from t (events_of recs)))"
    by (intro exI [of _ "min k k0"])
      (simp add: log_from_events [unfolded events_of_def] events_of_def take_map)
qed

lemma firehose_serves_all:
  assumes "dag_json (he_json env) accepts holds" "list_all (sendable env accepts) recs"
    and "cl_json cl = he_json env" "\<And>url. cl_new_request cl url = None"
    and "\<And>t. 0 \<le> t \<Longrightarrow> stream t = map Inr (filter (\<lambda>r. t \<le> rr_recorded_at r) recs)"
    and "\<And>t. 0 \<le> t \<Longrightarrow> fst (firehose_loop env net (stream t) []) = None"
    and "\<And>t. 0 \<le> t \<Longrightarrow> length (snd (firehose_loop env net (stream t) [])) \<le> n"
  shows "serves_all cl (events_of recs) (firehose_transport env net stream n e)"
  unfolding serves_all_def
proof (intro allI impI)
  fix t :: time
  assume t: "0 \<le> t" "t < year_10000"
  let ?recs = "filter (\<lambda>r. t \<le> rr_recorded_at r) recs"
  obtain err out where loop: "firehose_loop env net (stream t) [] = (err, out)"
    and url: "firehose_transport env net stream n e (stream_url cl t) =
      Inr \<lparr>hr_status = 200, hr_status_line = [], hr_body = take n out, hr_body_err = e\<rparr>"
    using firehose_transport_url [OF t, of env net stream n e cl] by auto
  have "list_all (sendable env accepts) ?recs" using assms(2) by (auto simp: list_all_iff)
  from firehose_arrives [OF assms(1) this, of "[]" net err out n e] loop assms(5-7) [OF t(1)]
  have "revocations_in (cl_json cl) (fst (scan_all (new_scanner (take n out) e))) =
      map Inr (events_of ?recs)" by (auto simp: assms(3))
  with url assms(4) show "\<exists>resp. cl_new_request cl (stream_url cl t) = None \<and>
      firehose_transport env net stream n e (stream_url cl t) = Inr resp \<and> hr_status resp = 200 \<and>
      arrives (cl_json cl) resp (log_from t (events_of recs))"
    by (simp add: arrives_def log_from_events)
qed

text \<open>
  An attempt that is refused, or reaches a firehose handler over a store whose stream brings
  a part of the log.
\<close>

definition connects :: "('w, 'r) http_env \<Rightarrow> revocation_record list \<Rightarrow> transport \<Rightarrow> bool" where
  "connects env recs tr \<longleftrightarrow>
     (\<forall>url. \<exists>e. tr url = Inl e) \<or>
     (\<exists>net stream n e. tr = firehose_transport env net stream n e \<and> brings env recs stream)"

lemma connects_serves:
  assumes "dag_json (he_json env) accepts holds" "list_all (sendable env accepts) recs"
    and "cl_json cl = he_json env" "connects env recs tr"
  shows "serves cl (events_of recs) tr"
  using assms(4) unfolding connects_def
proof
  assume "\<forall>url. \<exists>e. tr url = Inl e"
  then show ?thesis unfolding serves_def by (metis sum.distinct(1))
next
  assume "\<exists>net stream n e. tr = firehose_transport env net stream n e \<and> brings env recs stream"
  with firehose_serves [OF assms(1-3)] show ?thesis by blast
qed

text \<open>An attempt that brings the whole log: nothing fails and nothing is cut off.\<close>

definition connects_whole :: "('w, 'r) http_env \<Rightarrow> revocation_record list \<Rightarrow> transport \<Rightarrow> bool" where
  "connects_whole env recs tr \<longleftrightarrow>
     (\<exists>net stream n e. tr = firehose_transport env net stream n e \<and>
        (\<forall>t. 0 \<le> t \<longrightarrow> stream t = map Inr (filter (\<lambda>r. t \<le> rr_recorded_at r) recs) \<and>
           fst (firehose_loop env net (stream t) []) = None \<and>
           length (snd (firehose_loop env net (stream t) [])) \<le> n))"

lemma connects_whole_serves:
  assumes "dag_json (he_json env) accepts holds" "list_all (sendable env accepts) recs"
    and "cl_json cl = he_json env" "\<And>url. cl_new_request cl url = None" "connects_whole env recs tr"
  shows "serves_all cl (events_of recs) tr" "connects env recs tr"
proof -
  obtain net stream n e where tr: "tr = firehose_transport env net stream n e"
    and whole: "\<And>t. 0 \<le> t \<Longrightarrow> stream t = map Inr (filter (\<lambda>r. t \<le> rr_recorded_at r) recs)"
      "\<And>t. 0 \<le> t \<Longrightarrow> fst (firehose_loop env net (stream t) []) = None"
      "\<And>t. 0 \<le> t \<Longrightarrow> length (snd (firehose_loop env net (stream t) [])) \<le> n"
    using assms(5) unfolding connects_whole_def by blast
  show "serves_all cl (events_of recs) tr"
    unfolding tr by (rule firehose_serves_all [OF assms(1-4) whole])
  have "\<exists>k. stream t = map Inr (take k (filter (\<lambda>r. t \<le> rr_recorded_at r) recs))" if "0 \<le> t" for t
    unfolding whole(1) [OF that] by (metis order_refl take_all_iff)
  then show "connects env recs tr" unfolding connects_def tr using brings_prefix by blast
qed

section \<open>What a session remembers\<close>

text \<open>
  Whatever connections bring, the causes a session remembers are those of records it has
  yielded at the instant it would resume from. So a record that a connection brings is
  yielded, or one with its cause and time was yielded before. Nothing is asked of the order
  of the records here.
\<close>

definition remembered :: "session \<Rightarrow> bool" where
  "remembered st \<longleftrightarrow> (\<forall>c \<in> set (ss_seen st). \<exists>x \<in> set (ss_out st).
     af_cause x = c \<and> af_recorded_at x = ss_resume st)"

definition given :: "session \<Rightarrow> api_firehose \<Rightarrow> bool" where
  "given st r \<longleftrightarrow> (\<exists>x \<in> set (ss_out st). af_cause x = af_cause r \<and> af_recorded_at x = af_recorded_at r)"

lemma deliver_out:
  "ss_out (snd (deliver accept r st)) = ss_out st \<or> ss_out (snd (deliver accept r st)) = ss_out st @ [r]"
  by (simp add: deliver_def Let_def)

lemma deliver_given: "remembered st \<Longrightarrow> given (snd (deliver accept r st)) r"
  by (auto simp: deliver_def given_def remembered_def Let_def)

lemma deliver_remembered: "remembered st \<Longrightarrow> remembered (snd (deliver accept r st))"
  by (auto simp: deliver_def remembered_def Let_def)

lemma given_mono: "given st r \<Longrightarrow> set (ss_out st) \<subseteq> set (ss_out st') \<Longrightarrow> given st' r"
  by (auto simp: given_def)

lemma emit_all_given:
  "remembered st \<Longrightarrow> emit_all (deliver accept) rs st = (True, st') \<Longrightarrow>
     set (ss_out st) \<subseteq> set (ss_out st') \<and> set (ss_out st') \<subseteq> set (ss_out st) \<union> set rs \<and>
     (\<forall>r \<in> set rs. given st' r)"
proof (induction rs arbitrary: st)
  case Nil
  then show ?case by simp
next
  case (Cons r rs)
  let ?st1 = "snd (deliver accept r st)"
  have rest: "emit_all (deliver accept) rs ?st1 = (True, st')"
    using Cons.prems(2) by (cases "deliver accept r st") (auto split: bool.splits)
  note IH = Cons.IH [OF deliver_remembered [OF Cons.prems(1)] rest]
  then have "given st' r" using deliver_given [OF Cons.prems(1)] given_mono by blast
  with IH deliver_out [of accept r st] show ?case by auto
qed

text \<open>What every call of the consumer's callback keeps, a whole stream keeps.\<close>

lemma stream_loop_keeps:
  assumes "\<And>r st. P st \<Longrightarrow> P (snd (emit r st))"
  shows "P st \<Longrightarrow> P (snd (stream_loop lib emit s st))"
proof (induction s arbitrary: st rule: scan_all.induct)
  case (1 s)
  obtain go s' where sc: "scan s = (go, s')" by (cases "scan s")
  show ?case
  proof (cases go)
    case False
    with sc 1 show ?thesis by (simp add: stream_loop.simps [of _ _ s])
  next
    case True
    then have "go = True" by simp
    note IH = "1.IH" [OF sc [symmetric] this]
    show ?thesis
    proof (cases "sc_event s' = ''revocation''")
      case False
      with sc True IH 1 show ?thesis by (simp add: stream_loop.simps [of _ _ s])
    next
      case rev: True
      show ?thesis
      proof (cases "unmarshal_firehose lib (sc_data s')")
        case (Inl e)
        with sc True rev 1 show ?thesis by (simp add: stream_loop.simps [of _ _ s])
      next
        case (Inr r)
        have "P (snd (emit r st))" using 1 assms by blast
        then show ?thesis
          using sc True rev Inr IH [of "snd (emit r st)"]
          by (cases "emit r st") (auto simp: stream_loop.simps [of _ _ s] split: bool.split)
      qed
    qed
  qed
qed

lemma stream_conn_keeps:
  assumes "\<And>r st. P st \<Longrightarrow> P (snd (emit r st))" "P st"
  shows "P (snd (stream_conn cl transport t emit st))"
  using assms(2)
  by (auto simp: stream_conn_def Let_def intro!: stream_loop_keeps [of P emit, OF assms(1)]
      split: option.split sum.split)

lemma client_stream_keeps:
  assumes "\<And>r st. P st \<Longrightarrow> P (snd (deliver accept r st))"
  shows "P st \<Longrightarrow> P (snd (client_stream cl accept attempts connected st))"
proof (induction attempts arbitrary: connected st)
  case Nil
  then show ?case by simp
next
  case (Cons a attempts)
  have "P (snd (stream_conn cl (at_transport a) (ss_resume st) (deliver accept) st))"
    using assms Cons.prems by (rule stream_conn_keeps)
  with Cons.IH show ?case by (auto simp: Let_def split: prod.split option.split)
qed

lemma remembered_stream:
  assumes "remembered st" shows "remembered (snd (client_stream cl accept attempts connected st))"
  using deliver_remembered assms by (rule client_stream_keeps)

lemma client_stream_append:
  "client_stream cl accept (xs @ ys) connected st = (Retrying, st') \<Longrightarrow>
     \<exists>connected' st1. client_stream cl accept xs connected st = (Retrying, st1) \<and>
       client_stream cl accept ys connected' st1 = (Retrying, st')"
proof (induction xs arbitrary: connected st)
  case Nil
  then show ?case by auto
next
  case (Cons a xs)
  from Cons.prems show ?case
    by (auto simp: Let_def split: prod.splits if_splits option.splits dest: Cons.IH)
qed

text \<open>A connection that brings all its stream yields gives the consumer each of the records.\<close>

lemma whole_connection_gives:
  assumes "dag_json (he_json env) accepts holds" "list_all (sendable env accepts) recs"
    and "cl_json cl = he_json env" "\<And>url. cl_new_request cl url = None"
    and tr: "at_transport a = firehose_transport env net stream n e"
    and stream: "stream (ss_resume st) = map Inr recs"
      "fst (firehose_loop env net (map Inr recs) []) = None"
      "length (snd (firehose_loop env net (map Inr recs) [])) \<le> n"
    and range: "0 \<le> ss_resume st" "ss_resume st < year_10000" and "remembered st"
    and goes_on: "client_stream cl accept [a] connected st = (Retrying, st')"
  shows "set (ss_out st') \<subseteq> set (ss_out st) \<union> set (events_of recs)"
    and "\<forall>r \<in> set recs. given st' (firehose_value_of r)"
proof -
  obtain err out where loop: "firehose_loop env net (map Inr recs) [] = (err, out)"
    and url: "at_transport a (stream_url cl (ss_resume st)) =
      Inr \<lparr>hr_status = 200, hr_status_line = [], hr_body = take n out, hr_body_err = e\<rparr>"
    using firehose_transport_url [OF range, of env net stream n e cl] unfolding tr stream(1) by blast
  have "revocations_in (cl_json cl) (fst (scan_all (new_scanner (take n out) e))) = map Inr (events_of recs)"
    using firehose_arrives [OF assms(1,2), of "[]" net err out n e] loop stream(2,3)
    by (auto simp: assms(3))
  from stream_conn_open [where transport = "at_transport a" and t = "ss_resume st"
      and emit = "deliver accept" and st = st, OF assms(4) url] this
  have "stream_conn cl (at_transport a) (ss_resume st) (deliver accept) st =
      (case emit_all (deliver accept) (events_of recs) st of
         (False, st') \<Rightarrow> (Some (Sentinel StreamStopped), st')
       | (True, st') \<Rightarrow> (if too_long (snd (scan_all (new_scanner (take n out) e)))
                        then Some oversize_error else None, st'))"
    by (simp add: arrives_def)
  with goes_on have "emit_all (deliver accept) (events_of recs) st = (True, st')"
    by (cases "emit_all (deliver accept) (events_of recs) st")
      (auto simp: error_defs split: bool.splits if_splits option.splits)
  from emit_all_given [OF assms(11) this]
  show "set (ss_out st') \<subseteq> set (ss_out st) \<union> set (events_of recs)"
    "\<forall>r \<in> set recs. given st' (firehose_value_of r)"
    by (auto simp: events_of_def)
qed

lemma subscriber_given:
  assumes "dag_json (he_json env) accepts holds" "list_all (sendable env accepts) recs"
    and "cl_json cl = he_json env" "\<And>url. cl_new_request cl url = None"
    and "at_transport final = firehose_transport env net stream n e"
    and "fst (stream_from cl accept (earlier @ [final]) from) = Retrying"
    and before: "before = snd (stream_from cl accept earlier from)"
    and "0 \<le> ss_resume before" "ss_resume before < year_10000"
    and "stream (ss_resume before) = map Inr recs"
      "fst (firehose_loop env net (map Inr recs) []) = None"
      "length (snd (firehose_loop env net (map Inr recs) [])) \<le> n"
  shows "set (ss_out (snd (stream_from cl accept (earlier @ [final]) from))) \<subseteq>
      set (ss_out before) \<union> set (events_of recs)"
    and "\<forall>r \<in> set recs. given (snd (stream_from cl accept (earlier @ [final]) from)) (firehose_value_of r)"
proof -
  obtain st' where st': "client_stream cl accept (earlier @ [final]) False (new_session from) = (Retrying, st')"
    using assms(6) unfolding stream_from_def by (metis prod.collapse)
  then obtain c st1 where st1: "client_stream cl accept earlier False (new_session from) = (Retrying, st1)"
    "client_stream cl accept [final] c st1 = (Retrying, st')"
    using client_stream_append by blast
  have b: "before = st1" using st1(1) by (simp add: before stream_from_def)
  have "remembered (new_session from)" by (simp add: remembered_def new_session_def)
  from remembered_stream [OF this] have "remembered st1" using st1(1) by (metis snd_conv)
  note whole = whole_connection_gives [OF assms(1-5) assms(10) [unfolded b] assms(11,12)
      assms(8) [unfolded b] assms(9) [unfolded b] this st1(2)]
  then show "set (ss_out (snd (stream_from cl accept (earlier @ [final]) from))) \<subseteq>
      set (ss_out before) \<union> set (events_of recs)"
    "\<forall>r \<in> set recs. given (snd (stream_from cl accept (earlier @ [final]) from)) (firehose_value_of r)"
    by (simp_all add: stream_from_def st' b)
qed

text \<open>
  With the law that an invocation, named by its CID, revokes one delegation, the record of a
  delegation that a whole connection brings leaves the consumer with a record about it.
\<close>

lemma subscriber_about:
  assumes "dag_json (he_json env) accepts holds" "list_all (sendable env accepts) recs"
    and "cl_json cl = he_json env" "\<And>url. cl_new_request cl url = None"
    and "at_transport final = firehose_transport env net stream n e"
    and "fst (stream_from cl accept (earlier @ [final]) from) = Retrying"
    and "before = snd (stream_from cl accept earlier from)"
    and "0 \<le> ss_resume before" "ss_resume before < year_10000"
    and "stream (ss_resume before) = map Inr recs"
      "fst (firehose_loop env net (map Inr recs) []) = None"
      "length (snd (firehose_loop env net (map Inr recs) [])) \<le> n"
    and one: "\<forall>r \<in> set (ss_out before). af_revoke r = revokes (af_cause r)"
      "\<forall>r \<in> set recs. rr_revoke r = revokes (inv_link (rr_cause r))"
    and "x \<in> set recs"
  shows "\<exists>r \<in> set (ss_out (snd (stream_from cl accept (earlier @ [final]) from))).
    af_revoke r = rr_revoke x \<and> af_cause r = inv_link (rr_cause x) \<and> af_recorded_at r = rr_recorded_at x"
proof -
  note sub = subscriber_given [OF assms(1-12)]
  then obtain r where r: "r \<in> set (ss_out (snd (stream_from cl accept (earlier @ [final]) from)))"
    "af_cause r = inv_link (rr_cause x)" "af_recorded_at r = rr_recorded_at x"
    using assms(15) by (fastforce simp: given_def firehose_value_of_def)
  moreover have "af_revoke r = revokes (af_cause r)"
    using sub(1) r(1) one by (auto simp: events_of_def firehose_value_of_def)
  ultimately show ?thesis using one(2) assms(15) by auto
qed

text \<open>
  What a consumer of Stream gets of such a log.
\<close>

lemma consumer_gets_prefix:
  assumes "dag_json (he_json env) accepts holds" "list_all (sendable env accepts) recs"
    and "cl_json cl = he_json env"
    and "in_time_order (events_of recs)" "instants (events_of recs)"
    and "0 \<le> from" "from < year_10000"
    and "list_all (\<lambda>a. connects env recs (at_transport a)) attempts"
  shows "\<exists>n. ss_out (snd (stream_from cl accept attempts from)) =
    events_of (take n (filter (\<lambda>r. from \<le> rr_recorded_at r) recs))"
proof -
  have "list_all (\<lambda>a. serves cl (events_of recs) (at_transport a)) attempts"
    using assms(8) connects_serves [OF assms(1-3)] by (auto simp: list_all_iff)
  moreover obtain e st where "client_stream cl accept attempts False (new_session from) = (e, st)"
    by (cases "client_stream cl accept attempts False (new_session from)")
  ultimately obtain n where "along (log_from from (events_of recs)) from n st"
    "stream_from cl accept attempts from = (e, st)"
    using client_stream_along [OF assms(4-7) _ along_new] unfolding stream_from_def by blast
  then have "ss_out (snd (stream_from cl accept attempts from)) =
      take n (events_of (filter (\<lambda>r. from \<le> rr_recorded_at r) recs))"
    by (simp add: along_def log_from_events)
  then show ?thesis by (auto simp: events_of_def take_map)
qed

lemma consumer_catches_up:
  assumes "dag_json (he_json env) accepts holds" "list_all (sendable env accepts) recs"
    and "cl_json cl = he_json env" "\<And>url. cl_new_request cl url = None"
    and "in_time_order (events_of recs)" "instants (events_of recs)"
    and "0 \<le> from" "from < year_10000"
    and "list_all (\<lambda>a. connects env recs (at_transport a)) earlier"
    and "connects_whole env recs (at_transport final)"
    and "fst (stream_from cl accept (earlier @ [final]) from) = Retrying"
  shows "ss_out (snd (stream_from cl accept (earlier @ [final]) from)) =
    events_of (filter (\<lambda>r. from \<le> rr_recorded_at r) recs)"
proof -
  note whole = connects_whole_serves [OF assms(1-4,10)]
  have "list_all (\<lambda>a. serves cl (events_of recs) (at_transport a)) (earlier @ [final])"
    using assms(9) whole(2) connects_serves [OF assms(1-3)] by (auto simp: list_all_iff)
  with resumed_stream_catches_up [OF assms(5-8) this _ _ assms(11)] whole(1) show ?thesis
    by (simp add: log_from_events)
qed

lemma consumer_gets_log:
  assumes "dag_json (he_json env) accepts holds" "list_all (sendable env accepts) recs"
    and "cl_json cl = he_json env"
    and "in_time_order (events_of recs)" "instants (events_of recs)"
    and "0 \<le> from" "from < year_10000"
    and "list_all (\<lambda>a. connects env recs (at_transport a)) attempts"
  shows "(\<exists>n. ss_out (snd (stream_from cl accept attempts from)) =
      events_of (take n (filter (\<lambda>r. from \<le> rr_recorded_at r) recs))) \<and>
    (attempts \<noteq> [] \<and> connects_whole env recs (at_transport (last attempts)) \<and>
     (\<forall>url. cl_new_request cl url = None) \<and>
     fst (stream_from cl accept attempts from) = Retrying \<longrightarrow>
       ss_out (snd (stream_from cl accept attempts from)) =
         events_of (filter (\<lambda>r. from \<le> rr_recorded_at r) recs))"
proof (intro conjI impI)
  show "\<exists>n. ss_out (snd (stream_from cl accept attempts from)) =
      events_of (take n (filter (\<lambda>r. from \<le> rr_recorded_at r) recs))"
    using assms by (rule consumer_gets_prefix)
next
  assume last: "attempts \<noteq> [] \<and> connects_whole env recs (at_transport (last attempts)) \<and>
    (\<forall>url. cl_new_request cl url = None) \<and> fst (stream_from cl accept attempts from) = Retrying"
  then have split: "attempts = butlast attempts @ [last attempts]" by simp
  then have "list_all (\<lambda>a. connects env recs (at_transport a)) (butlast attempts)"
    using assms(8) by (metis list_all_append)
  moreover have "fst (stream_from cl accept (butlast attempts @ [last attempts]) from) = Retrying"
    using last split by metis
  ultimately have "ss_out (snd (stream_from cl accept (butlast attempts @ [last attempts]) from)) =
      events_of (filter (\<lambda>r. from \<le> rr_recorded_at r) recs)"
    using last by (intro consumer_catches_up [OF assms(1-3) _ assms(4-7)]) simp_all
  then show "ss_out (snd (stream_from cl accept attempts from)) =
      events_of (filter (\<lambda>r. from \<le> rr_recorded_at r) recs)"
    using split by metis
qed

text \<open>C5: From the server's store to the client's consumer, each record exactly once, provided
  the service has one log, in the order of its times and with no cause twice, of which each
  stream of the store brings a first part: a consumer of Stream then gets a first part of the
  log from its starting time on, in order and none twice, although the store's streams and
  the handler's writes may fail anywhere and each connection may be refused or cut after any
  number of bytes; and it has all of it once a connection brought the whole log and the
  stream goes on. Records that reach a stream out of the order of their times are not
  covered, and cannot be: they may be lost or repeated.\<close>

theorem firehose_to_consumer_exactly_once:
  assumes "dag_json (he_json env) accepts holds" and "list_all (sendable env accepts) recs"
    and "cl_json cl = he_json env"
    and "sorted (map af_recorded_at (events_of recs))" and "distinct (map af_cause (events_of recs))"
    and "instants (events_of recs)"
    and "0 \<le> from" and "from < year_10000"
    and "list_all (\<lambda>a. connects env recs (at_transport a)) attempts"
  shows "(\<exists>n. ss_out (snd (stream_from cl accept attempts from)) =
      events_of (take n (filter (\<lambda>r. from \<le> rr_recorded_at r) recs))) \<and>
    (attempts \<noteq> [] \<and> connects_whole env recs (at_transport (last attempts)) \<and>
     (\<forall>url. cl_new_request cl url = None) \<and>
     fst (stream_from cl accept attempts from) = Retrying \<longrightarrow>
       ss_out (snd (stream_from cl accept attempts from)) =
         events_of (filter (\<lambda>r. from \<le> rr_recorded_at r) recs))"
proof (rule consumer_gets_log [OF assms(1-3) _ assms(6-9)])
  show "in_time_order (events_of recs)" using assms(4,5) by (simp add: in_time_order_def)
qed

section \<open>A stream against a concrete server\<close>

text \<open>Two records of one instant and a later one.\<close>

definition three_records :: "revocation_record list" where
  "three_records = [web_record ''a'' 5, web_record ''b'' 5, web_record ''c'' 7]"

text \<open>The block of a record, in the sample codecs, and the records whose block is small.\<close>

definition web_block :: "revocation_record \<Rightarrow> string \<times> string" where
  "web_block r = (cid_bytes (inv_link (rr_cause r)),
     concat (map tok_text (object_toks (firehose_value (firehose_value_of r)) written_order)))"

definition web_records :: "revocation_record set" where
  "web_records = {r. length (fst (web_block r)) \<le> 50 \<and> nl \<notin> set (fst (web_block r)) \<and>
     length (snd (web_block r)) \<le> 200 \<and> length (rr_path r) \<le> max_key}"

text \<open>An attempt that reaches a server whose stream from \<open>t\<close> is \<open>f t\<close> and then ends.\<close>

definition web_server :: "(time \<Rightarrow> revocation_record list) \<Rightarrow> attempt" where
  "web_server f =
     \<lparr>at_transport = firehose_transport sample_http (\<lambda>_ _. None) (\<lambda>t. map Inr (f t)) 10000 None,
      at_ctx = None, at_wait = None\<rparr>"

lemma web_server_simps [simp]: "at_ctx (web_server f) = None" "at_wait (web_server f) = None"
  by (simp_all add: web_server_def)

lemma is_some_with_None [simp]: "\<not> is_some_with p None"
  by (simp add: error_defs)

lemma web_record_simps [simp]:
  "rr_recorded_at (web_record c t) = t" "rr_revoke (web_record c t) = Cid ''d''"
  "inv_link (rr_cause (web_record c t)) = Cid c" "map dlg_link (rr_path (web_record c t)) = [Cid ''d'']"
  by (simp_all add: web_record_def)

lemma web_block_ok:
  assumes "r \<in> web_records"
  shows "block_ok (web_block r)" "length (snd (web_block r)) \<le> 200"
    "block_of sample_http r (web_block r)" "sendable sample_http (\<lambda>_. True) r"
    "length (fst (web_block r)) \<le> 50"
proof -
  show len: "length (snd (web_block r)) \<le> 200" "length (fst (web_block r)) \<le> 50"
    using assms by (simp_all add: web_records_def)
  have "one_line (snd (web_block r))"
    unfolding web_block_def snd_conv by (rule one_line_plain) (auto dest: tok_text_plain)
  then show ok: "block_ok (web_block r)"
    using assms len by (simp add: web_records_def block_ok_def max_line_bytes_def max_event_bytes_def)
  have "length (af_path (firehose_value_of r)) \<le> max_key"
    using assms by (simp add: web_records_def firehose_value_of_def)
  note data = sample_marshal_firehose [OF this]
  show "block_of sample_http r (web_block r)"
    by (simp add: block_of_def web_block_def data)
  show "sendable sample_http (\<lambda>_. True) r"
    using ok by (simp add: sendable_def data web_block_def list.pred_True)
qed

lemma web_block_web_record: "web_block (web_record c t) = (c, web_data c t)"
  by (simp add: web_block_def web_data_def)

lemma web_members [simp]:
  "web_record ''a'' 5 \<in> web_records" "web_record ''b'' 5 \<in> web_records"
  "web_record ''b'' 3 \<in> web_records" "web_record ''c'' 7 \<in> web_records"
  by (simp_all add: web_records_def web_block_web_record)
    (simp_all add: web_data_def object_toks_def written_order_def path_toks_def tally_def hex_char_def
      firehose_value_of_def max_key_def web_record_def)

lemma three_records_order:
  "in_time_order (events_of three_records)" "instants (events_of three_records)"
  "list_all (sendable sample_http (\<lambda>_. True)) three_records"
  using web_block_ok(4)
  by (simp_all add: in_time_order_def instants_def events_of_def three_records_def
      firehose_value_of_def year_10000_def)

text \<open>A body of whole blocks ends without an oversized event.\<close>

lemma scan_nothing:
  assumes "ls_state (sc_lines s) = Reading" "ls_pending (sc_lines s) = []" "sc_err s = None"
    and "ls_end (sc_lines s) = None"
  shows "\<not> too_long (snd (scan_all s))"
proof -
  have "scan_line (sc_lines s) = (None, (sc_lines s)\<lparr>ls_state := Ended None\<rparr>)"
    using assms by (simp add: scan_line_def first_line_def max_line_bytes_def)
  then show ?thesis
    using assms by (simp add: scan_all.simps [of s] scan_def scan_loop.simps error_defs scanner_err_def line_err_def)
qed

lemma scan_whole_body:
  assumes "list_all block_ok bs"
  shows "\<not> too_long (snd (scan_all (new_scanner (record_blocks bs) None)))"
proof -
  let ?s = "new_scanner (record_blocks bs) None"
  have s: "ls_state (sc_lines ?s) = Reading" "sc_err ?s = None"
    "ls_pending (sc_lines ?s) = record_blocks bs @ []" "ls_end (sc_lines ?s) = None"
    by (simp_all add: new_scanner_def new_line_scanner_def)
  obtain ev d where all: "scan_all ?s =
     (case scan_all (?s\<lparr>sc_lines := (sc_lines ?s)\<lparr>ls_pending := []\<rparr>, sc_event := ev, sc_data := d\<rparr>) of
        (es, z) \<Rightarrow> (map (\<lambda>(link, data). (''revocation'', data)) bs @ es, z))"
    using scan_blocks [OF s(1-3) assms] by blast
  have "\<not> too_long (snd (scan_all
      (?s\<lparr>sc_lines := (sc_lines ?s)\<lparr>ls_pending := []\<rparr>, sc_event := ev, sc_data := d\<rparr>)))"
    by (rule scan_nothing) (use s in simp_all)
  with all show ?thesis by (simp split: prod.splits)
qed

lemma web_loop_blocks:
  assumes "set rs \<subseteq> web_records"
  shows "firehose_loop sample_http (\<lambda>_ _. None) (map Inr rs) [] = (None, record_blocks (map web_block rs))"
    and "length (record_blocks (map web_block rs)) \<le> 300 * length rs"
proof -
  have "list_all2 (block_of sample_http) rs (map web_block rs)"
    using assms web_block_ok(3) by (auto simp: list_all2_conv_all_nth subset_iff)
  from firehose_loop_records [OF this, of "\<lambda>_ _. None" "[]" "[]"]
  show "firehose_loop sample_http (\<lambda>_ _. None) (map Inr rs) [] = (None, record_blocks (map web_block rs))"
    by simp
  show "length (record_blocks (map web_block rs)) \<le> 300 * length rs"
    using assms
  proof (induction rs)
    case Nil
    then show ?case by (simp add: record_blocks_def)
  next
    case (Cons r rs)
    then have "length (record_block (fst (web_block r)) (snd (web_block r))) \<le> 300"
      using web_block_ok(2,5) [of r] by (simp add: record_block_def id_line_def event_block_def)
    with Cons show ?case by (simp add: record_blocks_Cons)
  qed
qed

lemma emit_all_accepts: "fst (emit_all (deliver (\<lambda>_ _. True)) rs st)"
  by (induction rs arbitrary: st) (auto simp: deliver_def Let_def)

text \<open>What such a server answers, and a turn of a stream against it, which goes on.\<close>

lemma web_answer:
  assumes "set (f t) \<subseteq> web_records" "length (f t) \<le> 30" "0 \<le> t" "t < year_10000"
  shows "\<exists>resp. at_transport (web_server f) (stream_url sample_client t) = Inr resp \<and>
    hr_status resp = 200 \<and> arrives sample_json resp (events_of (f t)) \<and>
    \<not> too_long (snd (scan_all (new_scanner (hr_body resp) (hr_body_err resp))))"
proof -
  let ?rs = "f t"
  let ?body = "record_blocks (map web_block ?rs)"
  note loop = web_loop_blocks [OF assms(1)]
  have len: "length ?body \<le> 10000" using loop(2) assms(2) by linarith
  have url: "at_transport (web_server f) (stream_url sample_client t) =
      Inr \<lparr>hr_status = 200, hr_status_line = [], hr_body = ?body, hr_body_err = None\<rparr>"
    using firehose_transport_url [OF assms(3,4), of sample_http "\<lambda>_ _. None" "\<lambda>t. map Inr (f t)"
        10000 None sample_client] loop(1) len
    by (auto simp: web_server_def)
  have sendable: "list_all (sendable sample_http (\<lambda>_. True)) ?rs"
    using assms(1) web_block_ok(4) by (auto simp: list_all_iff)
  have "dag_json (he_json sample_http) (\<lambda>_. True) sample_holds"
    using sample_json.dag_json_axioms by simp
  from firehose_arrives [OF this sendable, of "[]" "\<lambda>_ _. None" None ?body 10000 None]
  have arr: "revocations_in sample_json (fst (scan_all (new_scanner ?body None))) = map Inr (events_of ?rs)"
    using loop(1) len by auto
  have "list_all block_ok (map web_block ?rs)"
    using assms(1) web_block_ok(1) by (auto simp: list_all_iff)
  from scan_whole_body [OF this] url arr show ?thesis by (simp add: arrives_def)
qed

lemma web_turn:
  assumes "set (f (ss_resume st)) \<subseteq> web_records" "length (f (ss_resume st)) \<le> 30"
    and "0 \<le> ss_resume st" "ss_resume st < year_10000"
  shows "client_stream sample_client (\<lambda>_ _. True) (web_server f # rest) c st =
     client_stream sample_client (\<lambda>_ _. True) rest True
       (snd (emit_all (deliver (\<lambda>_ _. True)) (events_of (f (ss_resume st))) st))"
proof -
  let ?rs = "f (ss_resume st)"
  obtain resp where resp: "at_transport (web_server f) (stream_url sample_client (ss_resume st)) = Inr resp"
    "hr_status resp = 200" "arrives (cl_json sample_client) resp (events_of ?rs)"
    and quiet: "\<not> too_long (snd (scan_all (new_scanner (hr_body resp) (hr_body_err resp))))"
    using web_answer [where f = f, OF assms] unfolding sample_client_simps(4) by blast
  have "stream_conn sample_client (at_transport (web_server f)) (ss_resume st) (deliver (\<lambda>_ _. True)) st =
      (None, snd (emit_all (deliver (\<lambda>_ _. True)) (events_of ?rs) st))"
    using stream_conn_open [where cl = sample_client and transport = "at_transport (web_server f)"
        and emit = "deliver (\<lambda>_ _. True)" and st = st, OF _ resp] quiet
      emit_all_accepts [of "events_of ?rs" st]
    by (cases "emit_all (deliver (\<lambda>_ _. True)) (events_of ?rs) st") simp
  then show ?thesis by simp
qed

lemma stream_from_start:
  "stream_from cl accept attempts from =
     client_stream cl accept attempts False \<lparr>ss_resume = from, ss_seen = [], ss_out = []\<rparr>"
  by (simp add: stream_from_def new_session_def)

lemma emitted_simps [simp]:
  "events_of [] = []" "events_of (r # rs) = firehose_value_of r # events_of rs"
  "af_recorded_at (firehose_value_of r) = rr_recorded_at r"
  "af_cause (firehose_value_of r) = inv_link (rr_cause r)"
  by (simp_all add: events_of_def firehose_value_of_def)

definition log_server :: "revocation_record list \<Rightarrow> time \<Rightarrow> revocation_record list" where
  "log_server recs t = filter (\<lambda>r. t \<le> rr_recorded_at r) recs"

text \<open>A connection that brings the first record only, then one that brings the log.\<close>

lemma interrupted_run:
  "stream_from sample_client (\<lambda>_ _. True)
     [web_server (log_server (take 1 three_records)), web_server (log_server three_records)] 5 =
   (Retrying, \<lparr>ss_resume = 7, ss_seen = [Cid ''c''], ss_out = events_of three_records\<rparr>)"
  by (simp add: stream_from_start web_turn log_server_def three_records_def
      year_10000_def deliver_def del: client_stream.simps(2))

lemma filter_take_prefix: "filter P (take k xs) = take (length (filter P (take k xs))) (filter P xs)"
  by (metis append_eq_conv_conj append_take_drop_id filter_append)

lemma log_server_brings:
  "brings env recs (\<lambda>t. map Inr (log_server (take k recs) t))"
proof (rule brings_prefix)
  show "\<exists>j. map Inr (log_server (take k recs) t) = map Inr (take j (filter (\<lambda>r. t \<le> rr_recorded_at r) recs))"
    for t
    using arg_cong [OF filter_take_prefix, of "map Inr" "\<lambda>r. t \<le> rr_recorded_at r" k recs]
    unfolding log_server_def by (rule exI)
qed

lemma log_server_serves:
  "serves sample_client (events_of three_records)
     (at_transport (web_server (log_server (take k three_records))))"
  unfolding web_server_def attempt.simps
  by (rule firehose_serves [where accepts = "\<lambda>_. True" and holds = sample_holds, OF _ _ _ log_server_brings])
    (use sample_json.dag_json_axioms three_records_order in simp_all)

theorem stream_resumes_exactly_witness:
  "\<exists>n. ss_out (snd (stream_from sample_client (\<lambda>_ _. True)
     [web_server (log_server (take 1 three_records)), web_server (log_server (take 3 three_records))] 5)) =
   take n (log_from 5 (events_of three_records))"
  by (rule stream_resumes_exactly)
    (use three_records_order log_server_serves in \<open>simp_all add: year_10000_def\<close>)

lemma log_server_connects:
  "connects sample_http three_records (at_transport (web_server (log_server (take k three_records))))"
  "connects_whole sample_http three_records (at_transport (web_server (log_server three_records)))"
proof -
  show "connects sample_http three_records (at_transport (web_server (log_server (take k three_records))))"
    unfolding connects_def web_server_def attempt.simps using log_server_brings by blast
  have "set (log_server three_records t) \<subseteq> web_records" "length (log_server three_records t) \<le> 3" for t
    using length_filter_le [of "\<lambda>r. t \<le> rr_recorded_at r" three_records]
    by (auto simp: log_server_def three_records_def)
  then have loop: "fst (firehose_loop sample_http (\<lambda>_ _. None) (map Inr (log_server three_records t)) []) = None"
    "length (snd (firehose_loop sample_http (\<lambda>_ _. None) (map Inr (log_server three_records t)) [])) \<le> 10000" for t :: time
  proof -
    fix t :: time
    note blocks = web_loop_blocks [OF \<open>set (log_server three_records t) \<subseteq> web_records\<close>]
    show "fst (firehose_loop sample_http (\<lambda>_ _. None) (map Inr (log_server three_records t)) []) = None"
      by (simp add: blocks(1))
    have "300 * length (log_server three_records t) \<le> 10000"
      using \<open>length (log_server three_records t) \<le> 3\<close> by linarith
    with blocks(2) show "length (snd (firehose_loop sample_http (\<lambda>_ _. None)
        (map Inr (log_server three_records t)) [])) \<le> 10000"
      unfolding blocks(1) snd_conv by (rule order_trans)
  qed
  show "connects_whole sample_http three_records (at_transport (web_server (log_server three_records)))"
    unfolding connects_whole_def web_server_def attempt.simps
    by (rule exI [of _ "\<lambda>_ _. None"], rule exI [of _ "\<lambda>t. map Inr (log_server three_records t)"],
        rule exI [of _ 10000], rule exI [of _ None])
      (use loop in \<open>simp add: log_server_def\<close>)
qed

theorem firehose_to_consumer_exactly_once_witness:
  "ss_out (snd (stream_from sample_client (\<lambda>_ _. True)
     [web_server (log_server (take 1 three_records)), web_server (log_server three_records)] 5)) =
   events_of (filter (\<lambda>r. 5 \<le> rr_recorded_at r) three_records)"
proof -
  let ?attempts = "[web_server (log_server (take 1 three_records)), web_server (log_server three_records)]"
  have "list_all (\<lambda>a. connects sample_http three_records (at_transport a)) ?attempts"
    using log_server_connects(1) [of 1] log_server_connects(1) [of 3] by (simp add: three_records_def)
  moreover have "fst (stream_from sample_client (\<lambda>_ _. True) ?attempts 5) = Retrying"
    by (simp only: interrupted_run fst_conv)
  ultimately show ?thesis
    using firehose_to_consumer_exactly_once [of sample_http "\<lambda>_. True" sample_holds three_records
        sample_client 5 ?attempts "\<lambda>_ _. True"]
      sample_json.dag_json_axioms three_records_order log_server_connects(2)
    by (simp add: year_10000_def in_time_order_def)
qed

text \<open>A client whose first connection is refused, and one that meets an oversized event.\<close>

definition refused :: attempt where
  "refused = \<lparr>at_transport = (\<lambda>_. Inl (Foreign ''connection refused'')), at_ctx = None, at_wait = None\<rparr>"

lemma refused_turn:
  "client_stream sample_client accept (refused # rest) True st =
     client_stream sample_client accept rest True st"
  by (simp add: refused_def stream_conn_def error_defs Let_def)

theorem stream_ends_for_a_reason_witness:
  "\<exists>e st. stream_from sample_client (\<lambda>_ _. True) [refused] 5 = (Failed e, st) \<and>
     is_connect e \<and> ss_out st = [] \<and> \<not> is_corrupt e"
proof -
  have "stream_from sample_client (\<lambda>_ _. True) [refused] 5 =
      (Failed (ConnectError (Wrap ''opening revocation stream'' (Foreign ''connection refused''))), new_session 5)"
    by (simp add: stream_from_def refused_def stream_conn_def error_defs)
  with stream_ends_for_a_reason [OF this] show ?thesis by (auto simp: refused_def)
qed

definition oversized :: attempt where
  "oversized = \<lparr>at_transport = (\<lambda>_. Inr \<lparr>hr_status = 200, hr_status_line = [],
       hr_body = ''data: '' @ replicate (max_event_bytes + 1) (CHR ''x'') @ [nl, nl], hr_body_err = None\<rparr>),
     at_ctx = None, at_wait = None\<rparr>"

theorem oversized_event_is_reported_witness:
  "fst (stream_from sample_client (\<lambda>_ _. True) [oversized, refused] 5) = Failed oversize_error"
proof -
  let ?d = "replicate (max_event_bytes + 1) (CHR ''x'')"
  let ?body = "''data: '' @ ?d @ nl # nl # []"
  have "nl \<notin> set ?d" "?d = [] \<or> last ?d \<noteq> cr" by (simp_all add: last_replicate)
  from scan_sized_event [OF this, of "[]" None] obtain s where
    s: "scan (new_scanner ?body None) = (False, s)" "scanner_err s = Some (Sentinel EventTooLong)"
    by (cases "scan (new_scanner ?body None)") (simp split: if_splits)
  then have all: "scan_all (new_scanner ?body None) = ([], s)" by (simp add: scan_all.simps)
  have "arrives (cl_json sample_client) \<lparr>hr_status = 200, hr_status_line = [], hr_body = ?body,
      hr_body_err = None\<rparr> []"
    unfolding arrives_def http_response.simps all by (simp add: revocations_in_def)
  moreover have "too_long s" by (simp add: too_long_def s(2) error_defs)
  ultimately have "client_stream sample_client (\<lambda>_ _. True) [oversized, refused] False (new_session 5) =
      (Failed oversize_error, new_session 5)"
    by (intro oversized_event_is_reported [where rs = "[]" and resp = "\<lparr>hr_status = 200,
        hr_status_line = [], hr_body = ?body, hr_body_err = None\<rparr>"])
      (simp_all only: http_response.simps all snd_conv, simp_all add: oversized_def)
  then show ?thesis by (simp add: stream_from_def)
qed

section \<open>Records that come out of order\<close>

text \<open>
  A service that honours the cursor: a stream opened at \<open>t\<close> brings nothing recorded before.
\<close>

definition honours :: "('w, 'r) client \<Rightarrow> transport \<Rightarrow> bool" where
  "honours cl transport \<longleftrightarrow>
     (\<forall>t resp. 0 \<le> t \<longrightarrow> t < year_10000 \<longrightarrow>
        transport (stream_url cl t) = Inr resp \<longrightarrow> hr_status resp = 200 \<longrightarrow>
        (\<exists>rs. arrives (cl_json cl) resp rs \<and> instants rs \<and> (\<forall>r \<in> set rs. t \<le> af_recorded_at r)))"

text \<open>A session that is past the instant of a record it was not given.\<close>

definition passed :: "time \<Rightarrow> api_firehose \<Rightarrow> session \<Rightarrow> bool" where
  "passed t a st \<longleftrightarrow> t \<le> ss_resume st \<and> ss_resume st < year_10000 \<and> a \<notin> set (ss_out st)"

lemma deliver_passed:
  "passed t a st \<Longrightarrow> t \<le> af_recorded_at r \<Longrightarrow> af_recorded_at r < year_10000 \<Longrightarrow> r \<noteq> a \<Longrightarrow>
     passed t a (snd (deliver accept r st))"
  by (auto simp: passed_def deliver_def Let_def)

lemma emit_all_passed:
  "passed t a st \<Longrightarrow> \<forall>r \<in> set rs. t \<le> af_recorded_at r \<and> af_recorded_at r < year_10000 \<and> r \<noteq> a \<Longrightarrow>
     passed t a (snd (emit_all (deliver accept) rs st))"
proof (induction rs arbitrary: st)
  case Nil
  then show ?case by simp
next
  case (Cons r rs)
  have "passed t a (snd (deliver accept r st))" using Cons.prems by (intro deliver_passed) simp_all
  with Cons.IH [of "snd (deliver accept r st)"] Cons.prems(2) show ?case
    by (cases "deliver accept r st") (auto split: bool.split)
qed

lemma stream_conn_passed:
  assumes "passed t a st" "0 \<le> t" "af_recorded_at a < t" "honours cl transport"
  shows "passed t a (snd (stream_conn cl transport (ss_resume st) (deliver accept) st))"
proof (cases "\<exists>resp. cl_new_request cl (stream_url cl (ss_resume st)) = None \<and>
    transport (stream_url cl (ss_resume st)) = Inr resp \<and> hr_status resp = 200")
  case False
  obtain err st' where "stream_conn cl transport (ss_resume st) (deliver accept) st = (err, st')"
    by (cases "stream_conn cl transport (ss_resume st) (deliver accept) st")
  with stream_conn_closed [OF this False] assms(1) show ?thesis by simp
next
  case True
  then obtain resp where resp: "cl_new_request cl (stream_url cl (ss_resume st)) = None"
    "transport (stream_url cl (ss_resume st)) = Inr resp" "hr_status resp = 200" by blast
  obtain rs where rs: "arrives (cl_json cl) resp rs" "instants rs" "\<forall>r \<in> set rs. ss_resume st \<le> af_recorded_at r"
    using assms(1,2,4) resp(2,3) unfolding honours_def passed_def by (meson order_trans)
  have "passed t a (snd (emit_all (deliver accept) rs st))"
    using rs(2,3) assms(1,3) by (intro emit_all_passed [OF assms(1)]) (force simp: instants_def passed_def)
  then show ?thesis
    using stream_conn_open [where transport = transport and t = "ss_resume st"
        and emit = "deliver accept" and st = st, OF resp rs(1)]
    by (auto split: prod.split bool.split)
qed

lemma client_stream_passed:
  assumes "0 \<le> t" "af_recorded_at a < t"
  shows "passed t a st \<Longrightarrow> list_all (\<lambda>x. honours cl (at_transport x)) attempts \<Longrightarrow>
    passed t a (snd (client_stream cl accept attempts connected st))"
proof (induction attempts arbitrary: connected st)
  case Nil
  then show ?case by simp
next
  case (Cons x attempts)
  have "passed t a (snd (stream_conn cl (at_transport x) (ss_resume st) (deliver accept) st))"
    using Cons.prems assms by (intro stream_conn_passed) simp_all
  with Cons show ?case by (auto simp: Let_def split: prod.split option.split)
qed

text \<open>A record of another instant than the cursor's is yielded, whether or not it was before.\<close>

definition forgotten :: "api_firehose \<Rightarrow> session \<Rightarrow> bool" where
  "forgotten b st \<longleftrightarrow> (ss_resume st = af_recorded_at b \<longrightarrow> af_cause b \<notin> set (ss_seen st))"

lemma deliver_forgotten:
  "forgotten b st \<Longrightarrow> af_cause r \<noteq> af_cause b \<Longrightarrow> forgotten b (snd (deliver accept r st))"
  by (auto simp: forgotten_def deliver_def Let_def)

lemma deliver_count:
  "count_list (ss_out st) b \<le> count_list (ss_out (snd (deliver accept r st))) b"
  "forgotten b st \<Longrightarrow> count_list (ss_out (snd (deliver accept b st))) b = Suc (count_list (ss_out st) b)"
  by (auto simp: forgotten_def deliver_def Let_def)

lemma emit_all_count:
  "emit_all (deliver accept) rs st = (True, st') \<Longrightarrow> count_list (ss_out st) b \<le> count_list (ss_out st') b"
proof (induction rs arbitrary: st)
  case (Cons r rs)
  then show ?case
    using deliver_count(1) [of st b accept r] Cons.IH [of "snd (deliver accept r st)"]
    by (cases "deliver accept r st") (auto split: bool.splits intro: order_trans)
qed simp

lemma emit_all_again:
  "emit_all (deliver accept) rs st = (True, st') \<Longrightarrow> b \<in> set rs \<Longrightarrow> distinct (map af_cause rs) \<Longrightarrow>
     forgotten b st \<Longrightarrow> Suc (count_list (ss_out st) b) \<le> count_list (ss_out st') b"
proof (induction rs arbitrary: st)
  case (Cons r rs)
  let ?st1 = "snd (deliver accept r st)"
  have rest: "emit_all (deliver accept) rs ?st1 = (True, st')"
    using Cons.prems(1) by (cases "deliver accept r st") (auto split: bool.splits)
  show ?case
  proof (cases "r = b")
    case True
    with emit_all_count [OF rest, of b] deliver_count(2) [OF Cons.prems(4)] show ?thesis by simp
  next
    case False
    then have "b \<in> set rs" "af_cause r \<noteq> af_cause b" using Cons.prems(2,3) by auto
    with Cons.IH [OF rest] Cons.prems(3,4) deliver_forgotten deliver_count(1) [of st b accept r]
    show ?thesis by fastforce
  qed
qed simp

text \<open>C40: The order in which a service brings its records matters. Let a record A have an earlier
  time than a record B and be brought after it, as a stream of the in-memory store can, both
  with times a cursor can express. A client that was given B, was interrupted, and was not
  given A before, is never given A, whatever connections follow, to services that honour its
  cursor; and one that was interrupted after both yields B again when the next connection
  brings it and the stream goes on, so that its consumer has it twice.\<close>

theorem stream_reorder_loses_and_repeats:
  assumes "af_recorded_at a < af_recorded_at b" and "0 \<le> af_recorded_at a"
    and "af_recorded_at b < year_10000" and "af_cause b \<notin> set (ss_seen st)"
    and "st1 = snd (deliver accept b st)" and "st2 = snd (deliver accept a st1)"
  shows "(a \<notin> set (ss_out st) \<and> list_all (\<lambda>x. honours cl (at_transport x)) attempts \<longrightarrow>
      a \<notin> set (ss_out (snd (client_stream cl accept attempts connected st1)))) \<and>
    (cl_new_request cl (stream_url cl (af_recorded_at a)) = None \<and>
     at_transport next_turn (stream_url cl (af_recorded_at a)) = Inr resp \<and> hr_status resp = 200 \<and>
     arrives (cl_json cl) resp rs \<and> b \<in> set rs \<and> distinct (map af_cause rs) \<and>
     client_stream cl accept [next_turn] connected st2 = (Retrying, last_st) \<longrightarrow>
       2 \<le> count_list (ss_out last_st) b)"
proof (intro conjI impI)
  have st1: "ss_resume st1 = af_recorded_at b" "ss_out st1 = ss_out st @ [b]"
    using assms(4,5) by (auto simp: deliver_def Let_def)
  assume lost: "a \<notin> set (ss_out st) \<and> list_all (\<lambda>x. honours cl (at_transport x)) attempts"
  then have "passed (af_recorded_at b) a st1" using st1 assms(1,3) by (auto simp: passed_def)
  then have "passed (af_recorded_at b) a (snd (client_stream cl accept attempts connected st1))"
    using lost assms(1,2) by (intro client_stream_passed) simp_all
  then show "a \<notin> set (ss_out (snd (client_stream cl accept attempts connected st1)))"
    by (simp add: passed_def)
next
  have st1: "ss_resume st1 = af_recorded_at b" "ss_out st1 = ss_out st @ [b]"
    using assms(4,5) by (auto simp: deliver_def Let_def)
  then have st2: "ss_resume st2 = af_recorded_at a" "ss_out st2 = ss_out st @ [b, a]"
    using assms(1,6) by (auto simp: deliver_def Let_def)
  assume again: "cl_new_request cl (stream_url cl (af_recorded_at a)) = None \<and>
     at_transport next_turn (stream_url cl (af_recorded_at a)) = Inr resp \<and> hr_status resp = 200 \<and>
     arrives (cl_json cl) resp rs \<and> b \<in> set rs \<and> distinct (map af_cause rs) \<and>
     client_stream cl accept [next_turn] connected st2 = (Retrying, last_st)"
  then have "stream_conn cl (at_transport next_turn) (ss_resume st2) (deliver accept) st2 =
      (case emit_all (deliver accept) rs st2 of
         (False, st') \<Rightarrow> (Some (Sentinel StreamStopped), st')
       | (True, st') \<Rightarrow> (if too_long (snd (scan_all (new_scanner (hr_body resp) (hr_body_err resp))))
                        then Some oversize_error else None, st'))"
    unfolding st2(1) by (intro stream_conn_open) simp_all
  with again have emit: "emit_all (deliver accept) rs st2 = (True, last_st)"
    by (cases "emit_all (deliver accept) rs st2")
      (auto simp: error_defs split: bool.splits if_splits option.splits)
  have fresh: "forgotten b st2" using st2(1) assms(1) by (simp add: forgotten_def)
  have "Suc (count_list (ss_out st2) b) \<le> count_list (ss_out last_st) b"
    by (rule emit_all_again [OF emit _ _ fresh]) (use again in blast)+
  then show "2 \<le> count_list (ss_out last_st) b" by (simp add: st2(2))
qed

lemma log_server_honours:
  assumes "set recs \<subseteq> web_records" "length recs \<le> 30" "instants (events_of recs)"
  shows "honours sample_client (at_transport (web_server (log_server recs)))"
  unfolding honours_def
proof (intro allI impI)
  fix t resp
  assume t: "0 \<le> t" "t < year_10000"
    and resp: "at_transport (web_server (log_server recs)) (stream_url sample_client t) = Inr resp"
  have "set (log_server recs t) \<subseteq> web_records" "length (log_server recs t) \<le> 30"
    using assms(1) le_trans [OF length_filter_le assms(2)] by (auto simp: log_server_def)
  from web_answer [where f = "log_server recs", OF this t] resp
  have "arrives sample_json resp (events_of (log_server recs t))" by auto
  moreover have "\<forall>r \<in> set (events_of (log_server recs t)). t \<le> af_recorded_at r"
    by (auto simp: events_of_def log_server_def)
  moreover have "instants (events_of (log_server recs t))"
    using assms(3) by (auto simp: instants_def events_of_def log_server_def)
  ultimately show "\<exists>rs. arrives (cl_json sample_client) resp rs \<and> instants rs \<and>
      (\<forall>r \<in> set rs. t \<le> af_recorded_at r)" by auto
qed

definition early_record :: revocation_record where
  "early_record = web_record ''b'' 3"

definition late_record :: revocation_record where
  "late_record = web_record ''c'' 7"

definition after_late :: session where
  "after_late = snd (deliver (\<lambda>_ _. True) (firehose_value_of late_record) (new_session 0))"

definition after_both :: session where
  "after_both = snd (deliver (\<lambda>_ _. True) (firehose_value_of early_record) after_late)"

theorem stream_reorder_loses_and_repeats_witness:
  "firehose_value_of early_record \<notin> set (ss_out (snd (client_stream sample_client (\<lambda>_ _. True)
     [web_server (log_server [early_record, late_record])] True after_late))) \<and>
   (\<exists>last_st. client_stream sample_client (\<lambda>_ _. True)
       [web_server (log_server [early_record, late_record])] True after_both = (Retrying, last_st) \<and>
     2 \<le> count_list (ss_out last_st) (firehose_value_of late_record))"
proof -
  let ?recs = "[early_record, late_record]"
  let ?server = "web_server (log_server ?recs)"
  let ?a = "firehose_value_of early_record" and ?b = "firehose_value_of late_record"
  have recs: "set ?recs \<subseteq> web_records" "instants (events_of ?recs)"
    by (simp_all add: early_record_def late_record_def instants_def year_10000_def)
  have served: "log_server ?recs (af_recorded_at ?a) = ?recs"
    by (simp add: log_server_def early_record_def late_record_def)
  obtain resp where resp: "at_transport ?server (stream_url sample_client (af_recorded_at ?a)) = Inr resp"
    "hr_status resp = 200" "arrives sample_json resp (events_of ?recs)"
    using web_answer [of "log_server ?recs" "af_recorded_at ?a"] recs(1) unfolding served
    by (auto simp: early_record_def year_10000_def)
  have both: "ss_resume after_both = af_recorded_at ?a"
    by (simp add: after_both_def after_late_def new_session_def deliver_def Let_def early_record_def
        late_record_def)
  obtain last_st where last_st: "client_stream sample_client (\<lambda>_ _. True) [?server] True after_both = (Retrying, last_st)"
    using web_turn [of "log_server ?recs" after_both "[]" True] recs(1) unfolding both served
    by (auto simp: early_record_def year_10000_def)
  have causes: "distinct (map af_cause (events_of ?recs))" "?b \<in> set (events_of ?recs)"
    by (simp_all add: early_record_def late_record_def)
  have honest: "list_all (\<lambda>x. honours sample_client (at_transport x)) [?server]"
    using log_server_honours [OF recs(1) _ recs(2)] by simp
  have times: "af_recorded_at ?a < af_recorded_at ?b" "0 \<le> af_recorded_at ?a" "af_recorded_at ?b < year_10000"
    by (simp_all add: early_record_def late_record_def year_10000_def)
  note both_parts = stream_reorder_loses_and_repeats [OF times _ after_late_def after_both_def,
      where cl = sample_client and attempts = "[?server]" and connected = True and next_turn = ?server
        and resp = resp and rs = "events_of ?recs" and last_st = last_st]
  have "?a \<notin> set (ss_out (snd (client_stream sample_client (\<lambda>_ _. True) [?server] True after_late)))"
    by (rule both_parts [THEN conjunct1, THEN mp]) (use honest in \<open>simp_all add: new_session_def\<close>)
  moreover have "2 \<le> count_list (ss_out last_st) ?b"
    by (rule both_parts [THEN conjunct2, THEN mp])
      (use resp causes last_st in \<open>simp_all add: new_session_def del: client_stream.simps(2)\<close>)
  ultimately show ?thesis using last_st by blast
qed

end
