(* ===== verification/Validation.thy ===== *)
theory Validation
  imports Ucan
begin

text \<open>
  Whether an invocation may revoke a delegation: \<open>revocationPath\<close>,
  \<open>validateRevocationPath\<close>, \<open>recoverRevocationPath\<close> and \<open>revocationPaths\<close> of
  \<^verbatim>\<open>pkg/fx/app.go\<close>. Checking one token (its signature and its time bounds, with the
  resolution of DIDs) is \<open>validator.ValidateToken\<close> of the ucantone library: a parameter
  that accepts a token, refuses it, or panics, as a DID resolver may. Panics are
  values here, so that the recovery boundary of the code is visible. The
  worker pool of \<open>revocationPaths\<close> is a step relation with a bounded number of slots.
\<close>

section \<open>Checking one revocation\<close>

datatype token_check = TokenValid | TokenInvalid error | TokenPanics

datatype 'a run = Returns 'a | Panics

record request =
  rq_invocation :: invocation
  rq_args :: revoke_arguments
  rq_delegations :: "delegation list"

abbreviation revoker :: "request \<Rightarrow> did" where
  "revoker req \<equiv> inv_issuer (rq_invocation req)"

text \<open>
  The loop of \<open>validateRevocationPath\<close>; \<open>prev\<close> is \<open>path[i-1]\<close>, absent for the root.
\<close>

fun check_path ::
  "(delegation \<Rightarrow> token_check) \<Rightarrow> did \<Rightarrow> nat \<Rightarrow> delegation option \<Rightarrow> delegation list \<Rightarrow>
     error option run" where
  "check_path vt root i prev [] = Returns None"
| "check_path vt root i prev (d # ds) =
     (case vt d of
        TokenPanics \<Rightarrow> Panics
      | TokenInvalid e \<Rightarrow>
          Returns (Some (Wrap (''validating delegation at path index '' @ show_nat i) e))
      | TokenValid \<Rightarrow>
          (case prev of
             None \<Rightarrow> check_path vt root (Suc i) (Some d) ds
           | Some p \<Rightarrow>
               if dlg_subject d \<noteq> root \<and> dlg_subject d \<noteq> Undef
               then Returns (Some (Msg (''delegation at path index '' @ show_nat i @
                      '' has a different subject'')))
               else if dlg_issuer d \<noteq> dlg_audience p
               then Returns (Some (Msg (''delegation at path index '' @ show_nat i @
                      '' issuer does not match the previous audience'')))
               else check_path vt root (Suc i) (Some d) ds))"

definition validate_revocation_path ::
  "(delegation \<Rightarrow> token_check) \<Rightarrow> delegation list \<Rightarrow> error option run" where
  "validate_revocation_path vt path =
     (case path of
        [] \<Rightarrow> Returns (Some (Msg ''revocation path must not be empty''))
      | root # _ \<Rightarrow>
          if dlg_subject root \<noteq> dlg_issuer root
          then Returns (Some (Msg ''root delegation subject must equal its issuer''))
          else check_path vt (dlg_subject root) 0 None path)"

text \<open>The delegations of the request's metadata by link; a later one replaces an earlier.\<close>

definition witness_map :: "delegation list \<Rightarrow> cid \<Rightarrow> delegation option" where
  "witness_map ds = fold (\<lambda>d m. m(dlg_link d \<mapsto> d)) ds Map.empty"

definition collect_path ::
  "(cid \<Rightarrow> string) \<Rightarrow> (cid \<Rightarrow> delegation option) \<Rightarrow> cid list \<Rightarrow> delegation list result" where
  "collect_path cs witnesses links =
     traverse 0
       (\<lambda>i link. case witnesses link of
          None \<Rightarrow> Inl (Msg (''delegation '' @ cs link @ '' at path index '' @ show_nat i @
                      '' is not in request metadata''))
        | Some d \<Rightarrow> Inr d) links"

definition revocation_path ::
  "(cid \<Rightarrow> string) \<Rightarrow> (delegation \<Rightarrow> token_check) \<Rightarrow> request \<Rightarrow> delegation list result run" where
  "revocation_path cs vt req =
     (let args = rq_args req; witnesses = witness_map (rq_delegations req) in
      case witnesses (arg_revoke args) of
        None \<Rightarrow>
          Returns (Inl (Msg ''the revoked delegation must be included in request metadata''))
      | Some revoked \<Rightarrow>
          if arg_path args = [] then
            if dlg_issuer revoked \<noteq> revoker req
            then Returns (Inl (Msg ''witness path required: revocation issuer did not issue the revoked delegation''))
            else (case vt revoked of
                TokenPanics \<Rightarrow> Panics
              | TokenInvalid e \<Rightarrow> Returns (Inl (Wrap ''validating revoked delegation'' e))
              | TokenValid \<Rightarrow> Returns (Inr [revoked]))
          else (case collect_path cs witnesses (arg_path args) of
              Inl e \<Rightarrow> Returns (Inl e)
            | Inr path \<Rightarrow>
                if dlg_link (last path) \<noteq> arg_revoke args
                then Returns (Inl (Msg ''revocation path must end with the revoked delegation''))
                else (case validate_revocation_path vt path of
                    Panics \<Rightarrow> Panics
                  | Returns (Some e) \<Rightarrow> Returns (Inl (Wrap ''validating revocation path'' e))
                  | Returns None \<Rightarrow>
                      if list_ex (\<lambda>d. dlg_issuer d = revoker req) path
                      then Returns (Inr path)
                      else Returns (Inl (Msg ''revocation issuer is not an issuer in the delegation path'')))))"

definition validation_panicked :: error where
  "validation_panicked = Msg ''validating revocation failed''"

text \<open>The recovery boundary; what it logs is not modelled.\<close>

definition recover_revocation_path ::
  "(cid \<Rightarrow> string) \<Rightarrow> (delegation \<Rightarrow> token_check) \<Rightarrow> request \<Rightarrow> delegation list result" where
  "recover_revocation_path cs vt req =
     (case revocation_path cs vt req of
        Returns r \<Rightarrow> r
      | Panics \<Rightarrow> Inl validation_panicked)"

text \<open>The results of \<open>revocationPaths\<close>, in item order.\<close>

definition revocation_paths ::
  "(cid \<Rightarrow> string) \<Rightarrow> (delegation \<Rightarrow> token_check) \<Rightarrow> request list \<Rightarrow> delegation list result list" where
  "revocation_paths cs vt items = map (recover_revocation_path cs vt) items"

section \<open>What is authorised\<close>

text \<open>
  A delegation chain from a root: the root's subject delegates its own authority, each
  further delegation is issued by the audience of the one before it, and keeps the
  root's subject or names none.
\<close>

definition delegation_chain :: "delegation list \<Rightarrow> bool" where
  "delegation_chain path \<longleftrightarrow>
     path \<noteq> [] \<and> dlg_subject (hd path) = dlg_issuer (hd path) \<and>
     (\<forall>d \<in> set (tl path). dlg_subject d = dlg_subject (hd path) \<or> dlg_subject d = Undef) \<and>
     successively (\<lambda>p d. dlg_issuer d = dlg_audience p) path"

text \<open>
  A request is authorised to revoke along \<open>path\<close> when the path leads to the revoked
  delegation, every token of it is in the request and valid, and the revoker either
  issued the revoked delegation (no path given) or is an issuer in a delegation chain
  that ends with it.
\<close>

definition authorised :: "(delegation \<Rightarrow> bool) \<Rightarrow> request \<Rightarrow> delegation list \<Rightarrow> bool" where
  "authorised valid req path \<longleftrightarrow>
     path \<noteq> [] \<and> dlg_link (last path) = arg_revoke (rq_args req) \<and>
     (\<forall>d \<in> set path. witness_map (rq_delegations req) (dlg_link d) = Some d \<and> valid d) \<and>
     (if arg_path (rq_args req) = []
      then length path = 1 \<and> dlg_issuer (hd path) = revoker req
      else map dlg_link path = arg_path (rq_args req) \<and> delegation_chain path \<and>
           (\<exists>d \<in> set path. dlg_issuer d = revoker req))"

lemma witness_map_snoc:
  "witness_map (ds @ [d]) = (witness_map ds)(dlg_link d \<mapsto> d)"
  by (simp add: witness_map_def)

lemma witness_map_Some:
  "witness_map ds l = Some d \<Longrightarrow> d \<in> set ds \<and> dlg_link d = l"
  by (induction ds rule: rev_induct)
    (auto simp: witness_map_snoc split: if_splits, simp add: witness_map_def)

lemma witness_map_None: "witness_map ds l = None \<longleftrightarrow> l \<notin> dlg_link ` set ds"
  by (induction ds rule: rev_induct) (auto simp: witness_map_snoc, simp add: witness_map_def)

text \<open>With distinct links the map finds every delegation of the list.\<close>

lemma witness_map_distinct:
  "distinct (map dlg_link ds) \<Longrightarrow> d \<in> set ds \<Longrightarrow> witness_map ds (dlg_link d) = Some d"
proof (induction ds rule: rev_induct)
  case Nil
  then show ?case by simp
next
  case (snoc x xs)
  show ?case
  proof (cases "d = x")
    case True
    then show ?thesis by (simp add: witness_map_snoc)
  next
    case False
    with snoc.prems have "d \<in> set xs" by simp
    moreover from this have "dlg_link d \<in> dlg_link ` set xs" by (rule imageI)
    then have "dlg_link d \<noteq> dlg_link x" using snoc.prems(1) by auto
    ultimately show ?thesis using snoc by (simp add: witness_map_snoc)
  qed
qed

lemma check_path_ok:
  "check_path vt root i (Some p) ds = Returns None \<longleftrightarrow>
     (\<forall>d \<in> set ds. vt d = TokenValid \<and> (dlg_subject d = root \<or> dlg_subject d = Undef)) \<and>
     successively (\<lambda>p d. dlg_issuer d = dlg_audience p) (p # ds)"
  by (induction ds arbitrary: i p) (auto split: token_check.splits)

lemma validate_revocation_path_ok:
  "validate_revocation_path vt path = Returns None \<longleftrightarrow>
     delegation_chain path \<and> (\<forall>d \<in> set path. vt d = TokenValid)"
  by (cases path)
    (auto simp: validate_revocation_path_def delegation_chain_def check_path_ok
      split: token_check.splits)

lemma collect_path_ok:
  "collect_path cs w links = Inr path \<longleftrightarrow> map w links = map Some path"
  unfolding collect_path_def by (intro traverse_lookup) (simp split: option.split)

lemma witness_links:
  "map (witness_map ds) links = map Some path \<longleftrightarrow>
     map dlg_link path = links \<and> (\<forall>d \<in> set path. witness_map ds (dlg_link d) = Some d)"
proof (induction path arbitrary: links)
  case Nil
  then show ?case by auto
next
  case (Cons d path)
  show ?case
    by (cases links) (auto simp: Cons dest: witness_map_Some)
qed

lemma accepted_authorised:
  "recover_revocation_path cs vt req = Inr path \<longleftrightarrow>
     authorised (\<lambda>d. vt d = TokenValid) req path"
proof (cases "witness_map (rq_delegations req) (arg_revoke (rq_args req))")
  case None
  then show ?thesis
    by (auto simp: recover_revocation_path_def revocation_path_def authorised_def)
      (metis last_in_set option.distinct(1))+
next
  case (Some revoked)
  let ?w = "witness_map (rq_delegations req)" and ?links = "arg_path (rq_args req)"
  have link: "dlg_link revoked = arg_revoke (rq_args req)" using witness_map_Some [OF Some] by simp
  show ?thesis
  proof (cases "?links = []")
    case True
    with Some link show ?thesis
      by (auto simp: recover_revocation_path_def revocation_path_def authorised_def length_Suc_conv
          split: token_check.splits)
  next
    case False
    show ?thesis
    proof (cases "collect_path cs ?w ?links")
      case (Inl e)
      then have "map ?w ?links \<noteq> map Some path" using collect_path_ok [of cs ?w ?links path] by simp
      with Inl Some False show ?thesis
        by (auto simp: recover_revocation_path_def revocation_path_def authorised_def witness_links)
    next
      case (Inr path')
      then have "map ?w ?links = map Some path'" by (simp add: collect_path_ok)
      then have path': "map dlg_link path' = ?links" "\<forall>d \<in> set path'. ?w (dlg_link d) = Some d"
        by (simp_all add: witness_links)
      have same: "path = path'" if "map dlg_link path = ?links"
        "\<forall>d \<in> set path. ?w (dlg_link d) = Some d"
        using that \<open>map ?w ?links = map Some path'\<close> witness_links [of _ ?links path]
        by (metis inj_Some map_injective option.inject inj_map_eq_map)
      show ?thesis
        using Some False Inr path' same
          validate_revocation_path_ok [of vt path']
        by (auto simp: recover_revocation_path_def revocation_path_def authorised_def list_ex_iff
            split: run.splits option.splits)
    qed
  qed
qed

text \<open>C1: The service accepts exactly the authorised revocations, and stores with each the path
  that authorises it.\<close>

theorem revocation_accepted_iff_authorised:
  "recover_revocation_path cs vt req = Inr path \<longleftrightarrow>
     authorised (\<lambda>d. vt d = TokenValid) req path"
  by (rule accepted_authorised)


text \<open>Nobody outside a delegation's chain can revoke it: an accepted revocation comes from
  a principal who issued a valid delegation of the request from which an unbroken chain of
  issuers and audiences leads to the revoked delegation.\<close>

theorem revoker_is_upstream:
  assumes "recover_revocation_path cs vt req = Inr path"
  shows "\<exists>pre d post. path = pre @ d # post \<and> dlg_issuer d = revoker req \<and>
           d \<in> set (rq_delegations req) \<and> vt d = TokenValid \<and>
           dlg_link (last (d # post)) = arg_revoke (rq_args req) \<and>
           successively (\<lambda>p d. dlg_issuer d = dlg_audience p) (d # post)"
proof -
  from assms have a: "authorised (\<lambda>d. vt d = TokenValid) req path"
    by (simp add: accepted_authorised)
  then have ne: "path \<noteq> []" by (simp add: authorised_def)
  have "\<exists>d \<in> set path. dlg_issuer d = revoker req"
    using a by (auto simp: authorised_def split: if_splits intro: hd_in_set)
  then obtain d where d: "d \<in> set path" "dlg_issuer d = revoker req" by blast
  then obtain pre post where split: "path = pre @ d # post" by (blast dest: split_list)
  have "successively (\<lambda>p d. dlg_issuer d = dlg_audience p) path"
    using a by (cases path rule: remdups_adj.cases)
      (auto simp: authorised_def delegation_chain_def split: if_splits)
  then have "successively (\<lambda>p d. dlg_issuer d = dlg_audience p) (d # post)"
    by (simp add: split successively_append_iff)
  moreover have "d \<in> set (rq_delegations req)" "vt d = TokenValid"
    using a d(1) by (auto simp: authorised_def dest: witness_map_Some)
  moreover have "dlg_link (last (d # post)) = arg_revoke (rq_args req)"
    using a by (simp add: authorised_def split)
  ultimately show ?thesis using split d(2) by blast
qed

definition root_delegation :: delegation where
  "root_delegation =
     \<lparr>dlg_link = Cid ''root'', dlg_issuer = Did ''alice'', dlg_audience = Did ''bob'',
      dlg_subject = Did ''alice''\<rparr>"

definition leaf_delegation :: delegation where
  "leaf_delegation =
     \<lparr>dlg_link = Cid ''leaf'', dlg_issuer = Did ''bob'', dlg_audience = Did ''carol'',
      dlg_subject = Undef\<rparr>"

definition revoke_request :: "did \<Rightarrow> cid list \<Rightarrow> request" where
  "revoke_request who path =
     \<lparr>rq_invocation = \<lparr>inv_link = Cid ''inv'', inv_task = Cid ''task'', inv_issuer = who,
                       inv_command = ''/ucan/revoke''\<rparr>,
      rq_args = \<lparr>arg_revoke = Cid ''leaf'', arg_path = path\<rparr>,
      rq_delegations = [root_delegation, leaf_delegation]\<rparr>"

lemmas request_defs = root_delegation_def leaf_delegation_def revoke_request_def

lemma upstream_accepted:
  "recover_revocation_path cid_bytes (\<lambda>_. TokenValid)
     (revoke_request (Did ''alice'') [Cid ''root'', Cid ''leaf'']) =
   Inr [root_delegation, leaf_delegation]"
  by (simp add: recover_revocation_path_def revocation_path_def witness_map_def
      collect_path_def validate_revocation_path_def request_defs)

theorem revoker_is_upstream_witness:
  "\<exists>d \<in> {root_delegation, leaf_delegation}. dlg_issuer d = Did ''alice''"
  using revoker_is_upstream [OF upstream_accepted] by (auto simp: revoke_request_def)

section \<open>Validating the revocations of a request side by side\<close>

text \<open>
  The loop of \<open>revocationPaths\<close> takes a slot, starts a goroutine for the next item,
  and goes on; a goroutine writes the result of its item and gives its slot back. The
  order in which goroutines finish is open.
\<close>

definition max_concurrent_validations :: nat where
  "max_concurrent_validations = 16"

record 'r pool =
  pl_next :: nat
  pl_running :: "nat list"
  pl_results :: "'r option list"

definition init_pool :: "'a list \<Rightarrow> 'r pool" where
  "init_pool items =
     \<lparr>pl_next = 0, pl_running = [], pl_results = replicate (length items) None\<rparr>"

inductive pool_step :: "('a \<Rightarrow> 'r) \<Rightarrow> 'a list \<Rightarrow> 'r pool \<Rightarrow> 'r pool \<Rightarrow> bool"
  for f :: "'a \<Rightarrow> 'r" and items :: "'a list" where
  spawn:
    "pl_next p < length items \<Longrightarrow> length (pl_running p) < max_concurrent_validations \<Longrightarrow>
     pool_step f items p (p\<lparr>pl_running := pl_running p @ [pl_next p], pl_next := Suc (pl_next p)\<rparr>)"
| finish:
    "i \<in> set (pl_running p) \<Longrightarrow>
     pool_step f items p (p\<lparr>pl_running := remove1 i (pl_running p),
                           pl_results := (pl_results p)[i := Some (f (items ! i))]\<rparr>)"

text \<open>\<open>wg.Wait()\<close> returns: every item was started and every goroutine has finished.\<close>

definition pool_done :: "'a list \<Rightarrow> 'r pool \<Rightarrow> bool" where
  "pool_done items p \<longleftrightarrow> pl_next p = length items \<and> pl_running p = []"

definition pool_invar :: "('a \<Rightarrow> 'r) \<Rightarrow> 'a list \<Rightarrow> 'r pool \<Rightarrow> bool" where
  "pool_invar f items p \<longleftrightarrow>
     pl_next p \<le> length items \<and> distinct (pl_running p) \<and>
     length (pl_running p) \<le> max_concurrent_validations \<and>
     (\<forall>i \<in> set (pl_running p). i < pl_next p) \<and>
     length (pl_results p) = length items \<and>
     (\<forall>i < length items. pl_results p ! i =
        (if i < pl_next p \<and> i \<notin> set (pl_running p) then Some (f (items ! i)) else None))"

lemma pool_invar_init: "pool_invar f items (init_pool items)"
  by (simp add: pool_invar_def init_pool_def)

lemma pool_invar_step: "pool_step f items p p' \<Longrightarrow> pool_invar f items p \<Longrightarrow> pool_invar f items p'"
proof (induction rule: pool_step.induct)
  case (spawn p)
  then show ?case by (auto simp: pool_invar_def less_Suc_eq)
next
  case (finish i p)
  then show ?case
    by (auto simp: pool_invar_def nth_list_update length_remove1 dest: notin_set_remove1)
qed

lemma pool_invar_steps:
  "rtranclp (pool_step f items) p p' \<Longrightarrow> pool_invar f items p \<Longrightarrow> pool_invar f items p'"
  by (induction rule: rtranclp_induct) (auto intro: pool_invar_step)

lemma pool_invar_reachable: "rtranclp (pool_step f items) (init_pool items) p \<Longrightarrow> pool_invar f items p"
  using pool_invar_steps pool_invar_init by blast

definition pool_work :: "'a list \<Rightarrow> 'r pool \<Rightarrow> nat" where
  "pool_work items p = 2 * (length items - pl_next p) + length (pl_running p)"

lemma pool_step_decreases:
  "pool_step f items p p' \<Longrightarrow> pool_work items p' < pool_work items p"
proof (induction rule: pool_step.induct)
  case (spawn p)
  then show ?case by (simp add: pool_work_def)
next
  case (finish i p)
  moreover from this have "0 < length (pl_running p)" by (cases "pl_running p") auto
  ultimately show ?case by (simp add: pool_work_def length_remove1)
qed

text \<open>C30: However the goroutines interleave, when all have finished the results are those of
  validating the items one by one, each in its item's place, and at no time were more than
  16 validations running.\<close>

theorem pool_computes_revocation_paths:
  assumes "rtranclp (pool_step (recover_revocation_path cs vt) items) (init_pool items) p"
  shows "length (pl_running p) \<le> 16 \<and>
         (pool_done items p \<longrightarrow> pl_results p = map Some (revocation_paths cs vt items))"
proof -
  have inv: "pool_invar (recover_revocation_path cs vt) items p"
    using assms by (rule pool_invar_reachable)
  then have "pl_results p = map Some (revocation_paths cs vt items)" if "pool_done items p"
    using that
    by (intro nth_equalityI) (auto simp: pool_invar_def pool_done_def revocation_paths_def)
  with inv show ?thesis by (auto simp: pool_invar_def max_concurrent_validations_def)
qed

definition one_request :: "request list" where
  "one_request = [revoke_request (Did ''alice'') [Cid ''root'', Cid ''leaf'']]"

lemma one_request_run:
  "rtranclp (pool_step f one_request) (init_pool one_request)
     \<lparr>pl_next = 1, pl_running = [], pl_results = [Some (f (hd one_request))]\<rparr>"
proof -
  let ?p1 = "\<lparr>pl_next = 1, pl_running = [0], pl_results = [None]\<rparr>"
  have "pool_step f one_request (init_pool one_request) ?p1"
    using pool_step.spawn [of "init_pool one_request" one_request f]
    by (simp add: init_pool_def one_request_def max_concurrent_validations_def)
  moreover have "pool_step f one_request ?p1
      \<lparr>pl_next = 1, pl_running = [], pl_results = [Some (f (hd one_request))]\<rparr>"
    using pool_step.finish [of 0 ?p1 f one_request] by (simp add: one_request_def)
  ultimately show ?thesis by simp
qed

theorem pool_computes_revocation_paths_witness:
  "revocation_paths cid_bytes (\<lambda>_. TokenValid) one_request = [Inr [root_delegation, leaf_delegation]]"
  using pool_computes_revocation_paths
    [OF one_request_run, of cid_bytes "\<lambda>_. TokenValid"] upstream_accepted
  by (auto simp: pool_done_def one_request_def Cons_eq_map_conv)

text \<open>C31: The pool never gets stuck and always finishes: while some item is not done a step is
  possible, and no run is longer than two steps per item.\<close>

theorem pool_progress_and_termination:
  assumes "rtranclp (pool_step f items) (init_pool items) p"
  shows "(pool_done items p \<or> (\<exists>p'. pool_step f items p p')) \<and>
         (\<forall>n q. (pool_step f items ^^ n) p q \<longrightarrow> n \<le> 2 * length items)"
proof
  have inv: "pool_invar f items p" using assms by (rule pool_invar_reachable)
  show "pool_done items p \<or> (\<exists>p'. pool_step f items p p')"
  proof (cases "pl_running p")
    case Nil
    show ?thesis
    proof (cases "pl_next p < length items")
      case True
      then have "\<exists>p'. pool_step f items p p'"
        using pool_step.spawn [of p items f] Nil by (auto simp: max_concurrent_validations_def)
      then show ?thesis ..
    next
      case False
      with inv Nil show ?thesis by (simp add: pool_done_def pool_invar_def)
    qed
  next
    case (Cons i js)
    then have "i \<in> set (pl_running p)" by simp
    then show ?thesis by (blast intro: pool_step.finish)
  qed
  have bound: "n + pool_work items q' \<le> pool_work items p'"
    if "(pool_step f items ^^ n) p' q'" for n p' q'
    using that
  proof (induction n arbitrary: q')
    case 0
    then show ?case by simp
  next
    case (Suc n)
    then obtain r where "(pool_step f items ^^ n) p' r" "pool_step f items r q'" by auto
    with Suc.IH pool_step_decreases [of f items r q'] show ?case by fastforce
  qed
  obtain m where "(pool_step f items ^^ m) (init_pool items) p"
    using assms by (auto simp: rtranclp_power)
  then have "pool_work items p \<le> 2 * length items"
    using bound [of m "init_pool items" p] by (simp add: pool_work_def init_pool_def)
  with bound [of _ p] show "\<forall>n q. (pool_step f items ^^ n) p q \<longrightarrow> n \<le> 2 * length items"
    by fastforce
qed

theorem pool_progress_and_termination_witness:
  "\<exists>p'. pool_step (recover_revocation_path cid_bytes (\<lambda>_. TokenValid)) one_request
     (init_pool one_request) p'"
  using pool_progress_and_termination
    [OF rtranclp.rtrancl_refl, where items = one_request and
      f = "recover_revocation_path cid_bytes (\<lambda>_. TokenValid)"]
  by (simp add: pool_done_def init_pool_def one_request_def)

end
