(* ===== verification/Service.thy ===== *)
theory Service
  imports Validation Memory_Store
begin

text \<open>
  The \<^verbatim>\<open>/ucan/revoke\<close> route of \<^verbatim>\<open>pkg/fx/app.go\<close>: \<open>revokeRoute\<close>'s batch handler,
  \<open>setTransientFailure\<close> and \<open>storeRevocations\<close>. The store is the parameter
  \<open>add\<close>, any operation with the contract of \<^verbatim>\<open>Ucan.thy\<close>; issuing and setting receipts,
  the clock and the constants of the UCAN library are the record \<open>env\<close>. What the
  handler writes to the log is part of its result.
\<close>

section \<open>The handler\<close>

record failure =
  fl_task :: cid
  fl_name :: string
  fl_message :: string
  fl_expires :: int

text \<open>The response of one invocation; a handler may leave it unset.\<close>

datatype reply = Unset | Failure failure | Success

datatype log_entry = LogError nat error | LogInfo nat

record env =
  env_cid_string :: "cid \<Rightarrow> string"
  env_validate :: "delegation \<Rightarrow> token_check"
  env_error_name :: string
  env_quote :: "string \<Rightarrow> string"
  env_sentinel_text :: "sentinel \<Rightarrow> string"
  env_failure_ttl :: int
  env_now :: "request \<Rightarrow> int"
  env_issue :: "failure \<Rightarrow> error option"
  env_set_receipt :: "failure \<Rightarrow> error option"
  env_set_success :: "request \<Rightarrow> error option"

definition transient_failure :: "env \<Rightarrow> request \<Rightarrow> error \<Rightarrow> failure" where
  "transient_failure env req cause =
     \<lparr>fl_task = inv_task (rq_invocation req),
      fl_name = env_error_name env,
      fl_message = env_quote env (inv_command (rq_invocation req)) @
        '' handler execution error: '' @ error_text (env_sentinel_text env) cause,
      fl_expires = env_now env req + env_failure_ttl env\<rparr>"

definition set_transient_failure :: "env \<Rightarrow> request \<Rightarrow> error \<Rightarrow> reply result" where
  "set_transient_failure env req cause =
     (let failure = transient_failure env req cause in
      case env_issue env failure of
        Some e \<Rightarrow> Inl (Wrap ''issuing failure receipt'' e)
      | None \<Rightarrow>
          (case env_set_receipt env failure of
             Some e \<Rightarrow> Inl e
           | None \<Rightarrow> Inr (Failure failure)))"

text \<open>
  The first loop: a failed item is answered at once, a valid one joins the batch. An
  error ends the handler and leaves the items after it unanswered.
\<close>

fun answer_failures ::
  "env \<Rightarrow> (request \<times> delegation list result) list \<Rightarrow>
     error option \<times> reply list \<times> revocation list" where
  "answer_failures env [] = (None, [], [])"
| "answer_failures env ((req, Inl e) # rest) =
     (case set_transient_failure env req e of
        Inl err \<Rightarrow> (Some err, Unset # map (\<lambda>_. Unset) rest, [])
      | Inr reply \<Rightarrow>
          (case answer_failures env rest of (err, rs, b) \<Rightarrow> (err, reply # rs, b)))"
| "answer_failures env ((req, Inr path) # rest) =
     (case answer_failures env rest of
        (err, rs, b) \<Rightarrow>
          (err, Unset # rs, \<lparr>rv_cause = rq_invocation req, rv_path = path\<rparr> # b))"

text \<open>The last loop, over the valid items.\<close>

fun answer_successes ::
  "env \<Rightarrow> (request \<times> delegation list result) list \<Rightarrow> reply list \<Rightarrow> error option \<times> reply list" where
  "answer_successes env ((req, Inr path) # rest) (r # rs) =
     (case env_set_success env req of
        Some e \<Rightarrow> (Some e, r # rs)
      | None \<Rightarrow> (case answer_successes env rest rs of (err, rs') \<Rightarrow> (err, Success # rs')))"
| "answer_successes env ((req, Inl e) # rest) (r # rs) =
     (case answer_successes env rest rs of (err, rs') \<Rightarrow> (err, r # rs'))"
| "answer_successes env items rs = (None, rs)"

definition store_revocations ::
  "(error option \<Rightarrow> time \<Rightarrow> revocation list \<Rightarrow> 's \<Rightarrow> error option \<times> 's) \<Rightarrow>
     error option \<Rightarrow> time \<Rightarrow> revocation list \<Rightarrow> 's \<Rightarrow> error option \<times> log_entry list \<times> 's" where
  "store_revocations add ctx now batch s =
     (case add ctx now batch s of
        (Some e, s') \<Rightarrow>
          (Some (Wrap ''storing revocations'' e),
           (if errors_is e Canceled then [] else [LogError (length batch) e]), s')
      | (None, s') \<Rightarrow> (None, [LogInfo (length batch)], s'))"

definition revoke_route ::
  "env \<Rightarrow> (error option \<Rightarrow> time \<Rightarrow> revocation list \<Rightarrow> 's \<Rightarrow> error option \<times> 's) \<Rightarrow>
     error option \<Rightarrow> time \<Rightarrow> request list \<Rightarrow> 's \<Rightarrow>
     error option \<times> reply list \<times> log_entry list \<times> 's" where
  "revoke_route env add ctx now items s =
     (let results = zip items (revocation_paths (env_cid_string env) (env_validate env) items) in
      case answer_failures env results of
        (Some e, replies, _) \<Rightarrow> (Some e, replies, [], s)
      | (None, replies, batch) \<Rightarrow>
          if batch = [] then (None, replies, [], s)
          else (case store_revocations add ctx now batch s of
              (Some e, logs, s') \<Rightarrow> (Some e, replies, logs, s')
            | (None, logs, s') \<Rightarrow>
                (case answer_successes env results replies of
                   (err, replies') \<Rightarrow> (err, replies', logs, s'))))"

definition route_replies :: "error option \<times> reply list \<times> log_entry list \<times> 's \<Rightarrow> reply list" where
  "route_replies r = fst (snd r)"

definition route_store :: "error option \<times> reply list \<times> log_entry list \<times> 's \<Rightarrow> 's" where
  "route_store r = snd (snd (snd r))"

definition route_log :: "error option \<times> reply list \<times> log_entry list \<times> 's \<Rightarrow> log_entry list" where
  "route_log r = fst (snd (snd r))"

section \<open>The batch and the replies\<close>

text \<open>The valid revocations of a request, in item order.\<close>

definition validate_item :: "env \<Rightarrow> request \<Rightarrow> delegation list result" where
  "validate_item env req = recover_revocation_path (env_cid_string env) (env_validate env) req"

fun valid_batch :: "(request \<times> delegation list result) list \<Rightarrow> revocation list" where
  "valid_batch [] = []"
| "valid_batch ((req, Inl e) # rest) = valid_batch rest"
| "valid_batch ((req, Inr path) # rest) =
     \<lparr>rv_cause = rq_invocation req, rv_path = path\<rparr> # valid_batch rest"

lemma zip_revocation_paths:
  "zip items (revocation_paths (env_cid_string env) (env_validate env) items) =
     map (\<lambda>req. (req, validate_item env req)) items"
  by (induction items) (simp_all add: revocation_paths_def validate_item_def)

lemma in_valid_batch:
  "r \<in> set (valid_batch items) \<longleftrightarrow>
     (\<exists>(req, res) \<in> set items. \<exists>path. res = Inr path \<and>
        r = \<lparr>rv_cause = rq_invocation req, rv_path = path\<rparr>)"
  by (induction items rule: valid_batch.induct) auto

lemma answer_failures_batch:
  "answer_failures env items = (None, rs, b) \<Longrightarrow> b = valid_batch items"
  by (induction env items arbitrary: rs b rule: answer_failures.induct)
    (auto split: sum.splits prod.splits)

lemma answer_failures_length:
  "answer_failures env items = (err, rs, b) \<Longrightarrow> length rs = length items"
  by (induction env items arbitrary: err rs b rule: answer_failures.induct)
    (auto split: sum.splits prod.splits)

lemma answer_failures_each:
  "answer_failures env items = (err, rs, b) \<Longrightarrow>
     list_all2 (\<lambda>(req, res) r. r = Unset \<or>
       (\<exists>e. res = Inl e \<and> r = Failure (transient_failure env req e))) items rs"
proof (induction env items arbitrary: err rs b rule: answer_failures.induct)
  case (2 env req e rest)
  then show ?case
    by (auto simp: set_transient_failure_def Let_def list_all2_map2 list.rel_refl_strong
        split: sum.splits prod.splits option.splits intro!: list.rel_refl_strong)
qed (auto split: prod.splits)

lemma answer_failures_ok:
  "answer_failures env items = (None, rs, b) \<Longrightarrow>
     rs = map (\<lambda>(req, res). case res of
                 Inl e \<Rightarrow> Failure (transient_failure env req e) | Inr _ \<Rightarrow> Unset) items"
  by (induction env items arbitrary: rs b rule: answer_failures.induct)
    (auto simp: set_transient_failure_def Let_def split: sum.splits prod.splits option.splits)

lemma list_all2_zip_same:
  "length rs = length xs \<Longrightarrow> (\<And>x r. P (x, r) r) \<Longrightarrow> list_all2 P (zip xs rs) rs"
  by (auto simp: list_all2_conv_all_nth)

lemma answer_successes_each:
  "answer_successes env items rs = (err, rs') \<Longrightarrow> length rs = length items \<Longrightarrow>
     list_all2 (\<lambda>((req, res), r) r'. r' = r \<or> (r' = Success \<and> (\<exists>path. res = Inr path)))
       (zip items rs) rs'"
proof (induction env items rs arbitrary: err rs' rule: answer_successes.induct)
  case (1 env req path rest r rs)
  then show ?case
    by (auto split: option.splits prod.splits intro!: list_all2_zip_same)
qed (auto split: prod.splits)

lemma answer_successes_ok:
  "answer_successes env items rs = (None, rs') \<Longrightarrow> length rs = length items \<Longrightarrow>
     rs' = map2 (\<lambda>(req, res) r. case res of Inl e \<Rightarrow> r | Inr _ \<Rightarrow> Success) items rs"
  by (induction env items rs arbitrary: rs' rule: answer_successes.induct)
    (auto split: option.splits prod.splits)

lemma answer_successes_length:
  "answer_successes env items rs = (err, rs') \<Longrightarrow> length rs' = length rs"
  by (induction env items rs arbitrary: err rs' rule: answer_successes.induct)
    (auto split: option.splits prod.splits)

section \<open>Properties of the route\<close>

lemma valid_batch_items:
  "r \<in> set (valid_batch (map (\<lambda>req. (req, validate_item env req)) items)) \<longleftrightarrow>
     (\<exists>req \<in> set items. \<exists>path. validate_item env req = Inr path \<and>
        r = \<lparr>rv_cause = rq_invocation req, rv_path = path\<rparr>)"
  by (auto simp: in_valid_batch)

lemma length_valid_batch: "length (valid_batch results) \<le> length results"
  by (induction results rule: valid_batch.induct) auto

lemma valid_batch_Nil:
  "valid_batch (map (\<lambda>req. (req, validate_item env req)) items) = [] \<longleftrightarrow>
     (\<forall>req \<in> set items. \<exists>e. validate_item env req = Inl e)"
proof (induction items)
  case Nil
  then show ?case by simp
next
  case (Cons req items)
  then show ?case by (cases "validate_item env req") auto
qed

text \<open>The handler's effect on the store is nothing, or one write of the valid batch.\<close>

lemma route_cases:
  obtains (untouched) "route_store (revoke_route env add ctx now items s) = s"
      "list_all2 (\<lambda>req r. r \<noteq> Success)
         items (route_replies (revoke_route env add ctx now items s))"
      "route_log (revoke_route env add ctx now items s) = []"
  | (wrote) b where "b = valid_batch (map (\<lambda>req. (req, validate_item env req)) items)" "b \<noteq> []"
      "route_store (revoke_route env add ctx now items s) = snd (add ctx now b s)"
      "fst (add ctx now b s) \<noteq> None \<Longrightarrow>
         list_all2 (\<lambda>req r. r \<noteq> Success)
           items (route_replies (revoke_route env add ctx now items s))"
      "list_all2 (\<lambda>req r. r = Success \<longrightarrow> (\<exists>path. validate_item env req = Inr path))
         items (route_replies (revoke_route env add ctx now items s))"
proof -
  let ?items = "map (\<lambda>req. (req, validate_item env req)) items"
  obtain err rs b where a: "answer_failures env ?items = (err, rs, b)"
    by (cases "answer_failures env ?items")
  have each: "list_all2 (\<lambda>req r. r \<noteq> Success) items rs"
    using answer_failures_each [OF a]
    by (auto simp: list_all2_map1 elim!: list_all2_mono)
  note defs = revoke_route_def zip_revocation_paths Let_def a route_store_def route_replies_def
    route_log_def
  show ?thesis
  proof (cases "err = None \<and> b \<noteq> []")
    case False
    then show ?thesis using each by (intro untouched) (auto simp: defs split: option.split)
  next
    case True
    then have b: "b = valid_batch ?items" using a answer_failures_batch by blast
    obtain res s' where add: "add ctx now b s = (res, s')" by (cases "add ctx now b s")
    show ?thesis
    proof (cases res)
      case (Some e)
      have "route_replies (revoke_route env add ctx now items s) = rs"
        "route_store (revoke_route env add ctx now items s) = snd (add ctx now b s)"
        using True Some add by (simp_all add: defs store_revocations_def)
      moreover from this each
      have "list_all2 (\<lambda>req r. r = Success \<longrightarrow> (\<exists>path. validate_item env req = Inr path))
          items (route_replies (revoke_route env add ctx now items s))"
        by (auto elim: list_all2_mono)
      ultimately show ?thesis using True b each by (intro wrote [of b]) auto
    next
      case None
      obtain err' rs' where s: "answer_successes env ?items rs = (err', rs')"
        by (cases "answer_successes env ?items rs")
      have out: "route_replies (revoke_route env add ctx now items s) = rs'"
        "route_store (revoke_route env add ctx now items s) = snd (add ctx now b s)"
        using True None add s by (simp_all add: defs store_revocations_def)
      have len: "length rs = length ?items" using a by (rule answer_failures_length)
      have "list_all2 (\<lambda>req r. r = Success \<longrightarrow> (\<exists>path. validate_item env req = Inr path)) items rs'"
        using answer_successes_each [OF s len] each
        by (auto simp: list_all2_conv_all_nth)
      then show ?thesis using True b None add out by (intro wrote [of b]) auto
    qed
  qed
qed

text \<open>The batch a request leads to.\<close>

definition request_batch :: "env \<Rightarrow> request list \<Rightarrow> revocation list" where
  "request_batch env items = valid_batch (map (\<lambda>req. (req, validate_item env req)) items)"

lemma validated_is_authorised:
  "validate_item env req = Inr path \<longleftrightarrow>
     authorised (\<lambda>d. env_validate env d = TokenValid) req path"
  by (simp add: validate_item_def accepted_authorised)

lemma validated_link:
  "validate_item env req = Inr path \<Longrightarrow>
     revoked_link \<lparr>rv_cause = c, rv_path = path\<rparr> = arg_revoke (rq_args req)"
  by (simp add: validated_is_authorised authorised_def revoked_link_def)

text \<open>
  What a client of the service can count on, proved for every store that meets the
  contract: a success reply means the delegation is revoked from then on, whatever is
  written later, and a record that appears was asked for by an authorised request.
\<close>

context revocation_store
begin

lemma route_invar:
  assumes "invar s" "admissible (request_batch env items) s"
  shows "invar (route_store (revoke_route env add_batch ctx now items s))"
  by (rule route_cases [of env add_batch ctx now items s])
    (use assms add_invar in \<open>simp_all add: request_batch_def\<close>)

lemma route_success_revoked:
  assumes "invar s" "admissible (request_batch env items) s"
    and "i < length items"
    and "route_replies (revoke_route env add_batch ctx now items s) ! i = Success"
    and "admissible_all admissible add_batch ws (route_store (revoke_route env add_batch ctx now items s))"
  shows "\<exists>x. get None (arg_revoke (rq_args (items ! i)))
           (write_all add_batch ws (route_store (revoke_route env add_batch ctx now items s))) = Inr x"
proof (rule route_cases [of env add_batch ctx now items s])
  assume "list_all2 (\<lambda>req r. r \<noteq> Success) items
    (route_replies (revoke_route env add_batch ctx now items s))"
  with assms(3,4) show ?thesis by (auto dest: list_all2_nthD)
next
  fix b
  assume b: "b = valid_batch (map (\<lambda>req. (req, validate_item env req)) items)"
    and st: "route_store (revoke_route env add_batch ctx now items s) = snd (add_batch ctx now b s)"
    and fail: "fst (add_batch ctx now b s) \<noteq> None \<Longrightarrow>
      list_all2 (\<lambda>req r. r \<noteq> Success) items
        (route_replies (revoke_route env add_batch ctx now items s))"
    and ok: "list_all2 (\<lambda>req r. r = Success \<longrightarrow> (\<exists>path. validate_item env req = Inr path)) items
        (route_replies (revoke_route env add_batch ctx now items s))"
  have "fst (add_batch ctx now b s) = None"
  proof (rule ccontr)
    assume "fst (add_batch ctx now b s) \<noteq> None"
    from fail [OF this] assms(3,4) show False by (auto dest: list_all2_nthD)
  qed
  moreover from ok assms(3,4) obtain path where path: "validate_item env (items ! i) = Inr path"
    by (auto dest: list_all2_nthD)
  let ?r = "\<lparr>rv_cause = rq_invocation (items ! i), rv_path = path\<rparr>"
  have "?r \<in> set b" using path assms(3) by (auto simp: b valid_batch_items)
  moreover have "revoked_link ?r = arg_revoke (rq_args (items ! i))"
    using path by (rule validated_link)
  ultimately show ?thesis
    using assms(1,2,5) stored_stays [of s b ctx now ?r ws] by (simp add: st b request_batch_def)
qed

lemma route_only_authorised:
  assumes "invar s" "admissible (request_batch env items) s"
    and "get None k (route_store (revoke_route env add_batch ctx now items s)) = Inr x"
  shows "get None k s = Inr x \<or>
           (\<exists>req \<in> set items. authorised (\<lambda>d. env_validate env d = TokenValid) req (rr_path x) \<and>
              rr_cause x = rq_invocation req \<and> k = arg_revoke (rq_args req))"
proof (rule route_cases [of env add_batch ctx now items s])
  assume "route_store (revoke_route env add_batch ctx now items s) = s"
  with assms(3) show ?thesis by simp
next
  fix b
  assume b: "b = valid_batch (map (\<lambda>req. (req, validate_item env req)) items)"
    and st: "route_store (revoke_route env add_batch ctx now items s) = snd (add_batch ctx now b s)"
  have "get None k s = Inr x \<or> (\<exists>r \<in> set b. x = record_of now r \<and> revoked_link r = k)"
    using assms add_nothing_else [of s b k ctx now x] by (simp add: st b request_batch_def)
  then show ?thesis
  proof
    assume "\<exists>r \<in> set b. x = record_of now r \<and> revoked_link r = k"
    then obtain r where r: "r \<in> set b" "x = record_of now r" "revoked_link r = k" by blast
    then obtain req path where req: "req \<in> set items" "validate_item env req = Inr path"
      and x: "x = record_of now \<lparr>rv_cause = rq_invocation req, rv_path = path\<rparr>"
      and k: "revoked_link \<lparr>rv_cause = rq_invocation req, rv_path = path\<rparr> = k"
      by (auto simp: b valid_batch_items)
    from req(2) k have "k = arg_revoke (rq_args req)" by (metis validated_link)
    with req x show ?thesis by (auto simp: validated_is_authorised)
  qed simp
qed

end

text \<open>C2: A success reply is a promise that holds for good: on the in-memory store, once the
  handler answers an invocation with success, looking its delegation up finds a revocation,
  after any number of later writes.\<close>

theorem mem_success_is_permanent:
  assumes "mem_invar s" and "i < length items"
    and "route_replies (revoke_route env mem_add_batch ctx now items s) ! i = Success"
  shows "\<exists>x. mem_get None (arg_revoke (rq_args (items ! i)))
           (write_all mem_add_batch ws
              (route_store (revoke_route env mem_add_batch ctx now items s))) = Inr x"
  using assms by (intro mem.route_success_revoked) simp_all

definition sample_env :: env where
  "sample_env =
     \<lparr>env_cid_string = cid_bytes, env_validate = (\<lambda>_. TokenValid),
      env_error_name = ''HandlerExecutionError'', env_quote = (\<lambda>s. s),
      env_sentinel_text = (\<lambda>_. []), env_failure_ttl = 60, env_now = (\<lambda>_. 1000),
      env_issue = (\<lambda>_. None), env_set_receipt = (\<lambda>_. None), env_set_success = (\<lambda>_. None)\<rparr>"

lemma sample_validated:
  "validate_item sample_env (revoke_request (Did ''alice'') [Cid ''root'', Cid ''leaf'']) =
     Inr [root_delegation, leaf_delegation]"
  using upstream_accepted by (simp add: validate_item_def sample_env_def)

lemma sample_route:
  "route_replies (revoke_route sample_env mem_add_batch None 5 one_request new_store) = [Success]"
proof -
  have "revocation_paths cid_bytes (\<lambda>_. TokenValid) one_request =
      [Inr [root_delegation, leaf_delegation]]"
    by (simp add: revocation_paths_def one_request_def upstream_accepted)
  moreover have "fst (mem_add_batch None 5
      [\<lparr>rv_cause = rq_invocation (hd one_request), rv_path = [root_delegation, leaf_delegation]\<rparr>]
      new_store) = None"
    by (simp add: mem_add_batch_ok)
  ultimately show ?thesis
    by (auto simp: revoke_route_def route_replies_def sample_env_def one_request_def
        store_revocations_def split: prod.split)
qed

theorem mem_success_is_permanent_witness:
  "\<exists>x. mem_get None (Cid ''leaf'')
     (write_all mem_add_batch [(None, 9, [sample_revocation ''c''])]
        (route_store (revoke_route sample_env mem_add_batch None 5 one_request new_store))) = Inr x"
  using mem_success_is_permanent
    [OF mem_invar_new, of 0 one_request sample_env None 5 "[(None, 9, [sample_revocation ''c''])]"]
    sample_route
  by (simp add: one_request_def revoke_request_def)

text \<open>C11: Only authorised requests revoke: every record the in-memory store holds after a
  request was there before or belongs to an invocation of the request that was authorised to
  revoke that delegation, along the path stored with it.\<close>

theorem mem_stores_only_authorised:
  assumes "mem_invar s"
    and "mem_get None k (route_store (revoke_route env mem_add_batch ctx now items s)) = Inr x"
  shows "mem_get None k s = Inr x \<or>
           (\<exists>req \<in> set items. authorised (\<lambda>d. env_validate env d = TokenValid) req (rr_path x) \<and>
              rr_cause x = rq_invocation req \<and> k = arg_revoke (rq_args req))"
  using assms by (intro mem.route_only_authorised) simp_all

text \<open>C29: Every invocation gets its own answer: when receipts can be issued, an invalid one gets
  a short-lived failure that names its own reason, a valid one succeeds exactly when the single
  write of all valid ones does, whatever the other items of the request are.\<close>

theorem route_answers_each_item:
  assumes "\<And>f. env_issue env f = None" and "\<And>f. env_set_receipt env f = None"
    and "\<And>req. env_set_success env req = None"
  shows "route_replies (revoke_route env add ctx now items s) =
     map (\<lambda>req. case validate_item env req of
            Inl e \<Rightarrow> Failure (transient_failure env req e)
          | Inr path \<Rightarrow>
              if fst (add ctx now (request_batch env items) s) = None then Success else Unset) items"
proof -
  let ?items = "map (\<lambda>req. (req, validate_item env req)) items"
  obtain err rs b where a: "answer_failures env ?items = (err, rs, b)"
    by (cases "answer_failures env ?items")
  have "fst (answer_failures env xs) = None" for xs
    using assms
    by (induction env xs rule: answer_failures.induct)
      (auto simp: set_transient_failure_def Let_def split: prod.splits)
  then have err: "err = None" using a by (metis fst_conv)
  have b: "b = request_batch env items"
    using a err by (auto simp: request_batch_def dest: answer_failures_batch)
  have rs: "rs = map (\<lambda>(req, res). case res of
      Inl e \<Rightarrow> Failure (transient_failure env req e) | Inr _ \<Rightarrow> Unset) ?items"
    using a err by (auto dest: answer_failures_ok)
  note defs = revoke_route_def zip_revocation_paths Let_def a err route_replies_def
  show ?thesis
  proof (cases "b = []")
    case True
    then have "\<forall>req \<in> set items. \<exists>e. validate_item env req = Inl e"
      using b by (simp add: request_batch_def valid_batch_Nil)
    with True show ?thesis by (auto simp: defs rs split: sum.split)
  next
    case False
    obtain res s' where add: "add ctx now b s = (res, s')" by (cases "add ctx now b s")
    show ?thesis
    proof (cases res)
      case (Some e)
      with False add b show ?thesis
        by (auto simp: defs store_revocations_def rs split: sum.split)
    next
      case None
      have ok: "fst (answer_successes env xs ys) = None" for xs ys
        using assms(3) by (induction env xs ys rule: answer_successes.induct)
          (auto split: prod.splits)
      obtain rs' where s: "answer_successes env ?items rs = (None, rs')"
        using ok [of ?items rs] by (metis prod.collapse)
      have "rs' = map2 (\<lambda>(req, res) r. case res of Inl e \<Rightarrow> r | Inr _ \<Rightarrow> Success) ?items rs"
        using s answer_failures_length [OF a] by (rule answer_successes_ok)
      also have "\<dots> = map (\<lambda>req. case validate_item env req of
          Inl e \<Rightarrow> Failure (transient_failure env req e) | Inr path \<Rightarrow> Success) items"
        by (auto simp: rs zip_map1 zip_map2 zip_same_conv_map split: sum.split)
      finally show ?thesis using False None add b s by (simp add: defs store_revocations_def)
    qed
  qed
qed

theorem route_answers_each_item_witness:
  "route_replies (revoke_route sample_env mem_add_batch None 5 one_request new_store) =
     map (\<lambda>req. case validate_item sample_env req of
            Inl e \<Rightarrow> Failure (transient_failure sample_env req e)
          | Inr path \<Rightarrow>
              if fst (mem_add_batch None 5 (request_batch sample_env one_request) new_store) = None
              then Success else Unset) one_request"
  by (rule route_answers_each_item) (simp_all add: sample_env_def)

text \<open>A failed write reaches the log: when the store refuses the batch for another reason
  than a canceled request, the handler logs the error with the number of revocations lost,
  returns it, and answers no valid invocation with success.\<close>

theorem failed_write_is_reported:
  assumes "fst (answer_failures env
             (zip items (revocation_paths (env_cid_string env) (env_validate env) items))) = None"
    and "request_batch env items \<noteq> []"
    and "fst (add ctx now (request_batch env items) s) = Some e" and "\<not> errors_is e Canceled"
  shows "fst (revoke_route env add ctx now items s) = Some (Wrap ''storing revocations'' e) \<and>
         route_log (revoke_route env add ctx now items s) =
           [LogError (length (request_batch env items)) e] \<and>
         Success \<notin> set (route_replies (revoke_route env add ctx now items s))"
proof -
  let ?items = "map (\<lambda>req. (req, validate_item env req)) items"
  obtain rs b where a: "answer_failures env ?items = (None, rs, b)"
    using assms(1) by (cases "answer_failures env ?items") (simp add: zip_revocation_paths)
  then have b: "b = request_batch env items" by (simp add: request_batch_def answer_failures_batch)
  obtain s' where add: "add ctx now b s = (Some e, s')"
    using assms(3) b by (cases "add ctx now b s") simp
  have "Success \<notin> set rs"
    using answer_failures_each [OF a] by (auto simp: list_all2_conv_all_nth in_set_conv_nth)
  then show ?thesis
    using assms(2,4) add b a
    by (simp add: revoke_route_def zip_revocation_paths store_revocations_def route_log_def
        route_replies_def)
qed

theorem failed_write_is_reported_witness:
  "route_log (revoke_route sample_env mem_add_batch (Some (Sentinel DeadlineExceeded)) 5
     one_request new_store) =
   [LogError (length (request_batch sample_env one_request)) (Sentinel DeadlineExceeded)]"
proof -
  have "revocation_paths cid_bytes (\<lambda>_. TokenValid) one_request =
      [Inr [root_delegation, leaf_delegation]]"
    by (simp add: revocation_paths_def one_request_def upstream_accepted)
  then have "fst (answer_failures sample_env (zip one_request
      (revocation_paths (env_cid_string sample_env) (env_validate sample_env) one_request))) = None"
    by (simp add: sample_env_def one_request_def)
  moreover have "request_batch sample_env one_request \<noteq> []"
    by (simp add: request_batch_def one_request_def sample_validated)
  ultimately show ?thesis
    using failed_write_is_reported
      [of sample_env one_request mem_add_batch "Some (Sentinel DeadlineExceeded)" 5 new_store
        "Sentinel DeadlineExceeded"]
    by (simp add: mem_add_batch_def)
qed

theorem mem_stores_only_authorised_witness:
  "\<exists>req \<in> set one_request.
     authorised (\<lambda>d. env_validate sample_env d = TokenValid) req [root_delegation, leaf_delegation]"
proof -
  let ?s = "route_store (revoke_route sample_env mem_add_batch None 5 one_request new_store)"
  obtain x where x: "mem_get None (Cid ''leaf'') ?s = Inr x"
    using mem.route_success_revoked [OF mem_invar_new, where env = sample_env and
        items = one_request and i = 0 and ctx = None and now = 5 and ws = "[]"]
      sample_route
    by (auto simp: one_request_def revoke_request_def)
  have "mem_get None (Cid ''leaf'') new_store \<noteq> Inr x"
    by (simp add: mem_get_def new_store_def)
  with mem_stores_only_authorised [OF mem_invar_new x]
  obtain req where req: "req \<in> set one_request"
    "authorised (\<lambda>d. env_validate sample_env d = TokenValid) req (rr_path x)" by blast
  then have "validate_item sample_env req = Inr (rr_path x)" by (simp add: validated_is_authorised)
  with req(1) sample_validated have "rr_path x = [root_delegation, leaf_delegation]"
    by (simp add: one_request_def)
  with req show ?thesis by auto
qed

end
