(* ===== verification/Postgres_Store.thy ===== *)
theory Postgres_Store
  imports Codec "HOL-Library.Signed_Division"
begin

text \<open>
  The PostgreSQL store, \<^verbatim>\<open>pkg/store/postgres/store.go\<close>: the arrays \<open>AddBatch\<close> builds
  and the INSERT it sends, \<open>Get\<close> and the decoding of a row, with the meaning PostgreSQL
  gives the statements (array slices, \<open>unnest\<close>, ON CONFLICT DO NOTHING, ORDER BY). A
  table is the list of its rows; a statement is atomic. What the driver reports is a
  parameter: a write may be applied, refused, or applied with its answer lost.
\<close>

section \<open>The table and the statements\<close>

record row =
  row_id :: string
  row_cause :: bytes
  row_revoked :: string
  row_witness :: "bytes list"
  row_recorded_at :: time

type_synonym table = "row list"

text \<open>\<open>arr[lo:hi]\<close> of SQL: one-based, both ends included, cut at the ends of the array.\<close>

definition pg_slice :: "'a list \<Rightarrow> int \<Rightarrow> int \<Rightarrow> 'a list" where
  "pg_slice xs lo hi = take (nat (hi - (max lo 1 - 1))) (drop (nat (max lo 1 - 1)) xs)"

text \<open>The six parameters of the INSERT; \<open>path_start\<close> and \<open>path_end\<close> are \<open>int32\<close>.\<close>

record batch_args =
  ba_ids :: "string list"
  ba_causes :: "bytes list"
  ba_revoked :: "string list"
  ba_witnesses :: "bytes list"
  ba_starts :: "32 word list"
  ba_ends :: "32 word list"

definition no_args :: batch_args where
  "no_args = \<lparr>ba_ids = [], ba_causes = [], ba_revoked = [], ba_witnesses = [],
    ba_starts = [], ba_ends = []\<rparr>"

text \<open>The rows the SELECT over \<open>unnest\<close> yields; \<open>recorded_at\<close> defaults to NOW().\<close>

definition select_rows :: "time \<Rightarrow> batch_args \<Rightarrow> row list" where
  "select_rows now a =
     map (\<lambda>(i, cause, revoked, lo, hi).
            \<lparr>row_id = i, row_cause = cause, row_revoked = revoked,
             row_witness = pg_slice (ba_witnesses a) (sint lo) (sint hi), row_recorded_at = now\<rparr>)
       (zip (ba_ids a) (zip (ba_causes a) (zip (ba_revoked a) (zip (ba_starts a) (ba_ends a)))))"

text \<open>ON CONFLICT (id) DO NOTHING, row after row.\<close>

definition insert_row :: "row \<Rightarrow> table \<Rightarrow> table" where
  "insert_row r s = (if row_id r \<in> row_id ` set s then s else s @ [r])"

definition insert_rows :: "row list \<Rightarrow> table \<Rightarrow> table" where
  "insert_rows rs s = fold insert_row rs s"

section \<open>Adding a batch\<close>

definition witness_error :: "nat \<Rightarrow> nat \<Rightarrow> string" where
  "witness_error i j =
     ''encoding delegation at path index '' @ show_nat j @ '' of revocation at batch index '' @ show_nat i"

text \<open>The loop of \<open>AddBatch\<close>; \<open>added\<close> is the set of causes met so far.\<close>

fun prepare ::
  "ucan_lib \<Rightarrow> nat \<Rightarrow> cid list \<Rightarrow> batch_args \<Rightarrow> revocation list \<Rightarrow> batch_args result" where
  "prepare ul i added a [] = Inr a"
| "prepare ul i added a (r # rs) =
     (if rv_path r = [] then Inl (empty_path_error i)
      else if cause_link r \<in> set added then prepare ul (Suc i) added a rs
      else case encode_invocation ul (rv_cause r) of
          Inl e \<Rightarrow> Inl (Wrap (''encoding revocation at batch index '' @ show_nat i) e)
        | Inr cause \<Rightarrow>
            (case encode_path ul (witness_error i) (rv_path r) of
               Inl e \<Rightarrow> Inl e
             | Inr ws \<Rightarrow>
                 prepare ul (Suc i) (cause_link r # added)
                   \<lparr>ba_ids = ba_ids a @ [cid_text ul (cause_link r)],
                    ba_causes = ba_causes a @ [cause],
                    ba_revoked = ba_revoked a @ [cid_text ul (revoked_link r)],
                    ba_witnesses = ba_witnesses a @ ws,
                    ba_starts = ba_starts a @ [word_of_nat (length (ba_witnesses a) + 1)],
                    ba_ends = ba_ends a @ [word_of_nat (length (ba_witnesses a @ ws))]\<rparr> rs))"

datatype exec_outcome = Applied | Refused error | Applied_but_lost error

text \<open>\<open>net now\<close> is what becomes of the statement whose transaction starts at \<open>now\<close>.\<close>

definition pg_add_batch ::
  "ucan_lib \<Rightarrow> (time \<Rightarrow> exec_outcome) \<Rightarrow> error option \<Rightarrow> time \<Rightarrow> revocation list \<Rightarrow> table \<Rightarrow>
     error option \<times> table" where
  "pg_add_batch ul net ctx now revocations s =
     (case ctx of
        Some e \<Rightarrow> (Some e, s)
      | None \<Rightarrow>
          if revocations = [] then (None, s)
          else case prepare ul 0 [] no_args revocations of
              Inl e \<Rightarrow> (Some e, s)
            | Inr a \<Rightarrow>
                (case net now of
                   Applied \<Rightarrow> (None, insert_rows (select_rows now a) s)
                 | Refused e \<Rightarrow> (Some (Wrap ''storing revocations'' e), s)
                 | Applied_but_lost e \<Rightarrow>
                     (Some (Wrap ''storing revocations'' e), insert_rows (select_rows now a) s)))"

definition pg_add ::
  "ucan_lib \<Rightarrow> (time \<Rightarrow> exec_outcome) \<Rightarrow> error option \<Rightarrow> time \<Rightarrow> invocation \<Rightarrow> delegation list \<Rightarrow>
     table \<Rightarrow> error option \<times> table" where
  "pg_add ul net ctx now revocation path s =
     pg_add_batch ul net ctx now [\<lparr>rv_cause = revocation, rv_path = path\<rparr>] s"

section \<open>Reading\<close>

definition decode_row :: "ucan_lib \<Rightarrow> row \<Rightarrow> revocation_record result" where
  "decode_row ul r =
     (case decode_invocation ul (row_cause r) of
        Inl e \<Rightarrow> Inl (Wrap ''decoding revocation cause'' e)
      | Inr cause \<Rightarrow>
          (case cid_decode ul (row_revoked r) of
             Inl e \<Rightarrow> Inl (Wrap ''decoding revoked delegation CID'' e)
           | Inr revoke \<Rightarrow>
               (case decode_path ul (row_witness r) of
                  Inl e \<Rightarrow> Inl e
                | Inr path \<Rightarrow>
                    Inr \<lparr>rr_revoke = revoke, rr_path = path, rr_cause = cause,
                         rr_recorded_at = row_recorded_at r\<rparr>)))"

definition row_key :: "row \<Rightarrow> time \<times> string" where
  "row_key r = (row_recorded_at r, row_id r)"

text \<open>ORDER BY recorded_at DESC, id DESC LIMIT 1.\<close>

definition latest_row :: "string \<Rightarrow> table \<Rightarrow> row option" where
  "latest_row revoked s =
     (case rev (sort_key row_key (filter (\<lambda>r. row_revoked r = revoked) s)) of
        [] \<Rightarrow> None | r # _ \<Rightarrow> Some r)"

text \<open>\<open>q\<close> is the error of the query, of the context or the database, if it met one.\<close>

definition pg_get ::
  "ucan_lib \<Rightarrow> error option \<Rightarrow> cid \<Rightarrow> table \<Rightarrow> revocation_record result" where
  "pg_get ul q revoked s =
     (let found = (case q of
                     Some e \<Rightarrow> Inl e
                   | None \<Rightarrow> (case latest_row (cid_text ul revoked) s of
                                None \<Rightarrow> Inl (Sentinel NoRows) | Some r \<Rightarrow> Inr r))
      in case found of
           Inl e \<Rightarrow>
             if errors_is e NoRows then Inl (Sentinel NotFound)
             else Inl (Wrap ''getting revocation'' e)
         | Inr r \<Rightarrow>
             (case decode_row ul r of
                Inl e \<Rightarrow> Inl (Wrap ''decoding revocation'' e) | Inr x \<Rightarrow> Inr x))"

section \<open>The rows of a batch\<close>

text \<open>
  The reference for the loop and the SELECT together: one row per revocation with a new
  cause, its witnesses the encoding of its own path.
\<close>

fun batch_rows ::
  "ucan_lib \<Rightarrow> time \<Rightarrow> nat \<Rightarrow> cid list \<Rightarrow> revocation list \<Rightarrow> row list result" where
  "batch_rows ul now i added [] = Inr []"
| "batch_rows ul now i added (r # rs) =
     (if rv_path r = [] then Inl (empty_path_error i)
      else if cause_link r \<in> set added then batch_rows ul now (Suc i) added rs
      else case encode_invocation ul (rv_cause r) of
          Inl e \<Rightarrow> Inl (Wrap (''encoding revocation at batch index '' @ show_nat i) e)
        | Inr cause \<Rightarrow>
            (case encode_path ul (witness_error i) (rv_path r) of
               Inl e \<Rightarrow> Inl e
             | Inr ws \<Rightarrow>
                 (case batch_rows ul now (Suc i) (cause_link r # added) rs of
                    Inl e \<Rightarrow> Inl e
                  | Inr rest \<Rightarrow>
                      Inr (\<lparr>row_id = cid_text ul (cause_link r), row_cause = cause,
                            row_revoked = cid_text ul (revoked_link r), row_witness = ws,
                            row_recorded_at = now\<rparr> # rest))))"

definition witness_count :: "revocation list \<Rightarrow> nat" where
  "witness_count rs = sum_list (map (\<lambda>r. length (rv_path r)) rs)"

definition args_ok :: "batch_args \<Rightarrow> bool" where
  "args_ok a \<longleftrightarrow>
     length (ba_causes a) = length (ba_ids a) \<and> length (ba_revoked a) = length (ba_ids a) \<and>
     length (ba_starts a) = length (ba_ids a) \<and> length (ba_ends a) = length (ba_ids a) \<and>
     (\<forall>hi \<in> set (ba_ends a). sint hi \<le> int (length (ba_witnesses a)))"

lemma pg_slice_prefix: "hi \<le> int (length xs) \<Longrightarrow> pg_slice (xs @ ys) lo hi = pg_slice xs lo hi"
  by (cases "nat (max lo 1 - 1) \<le> length xs") (auto simp: pg_slice_def)

lemma pg_slice_suffix: "pg_slice (xs @ ys) (int (length xs) + 1) (int (length xs + length ys)) = ys"
  by (simp add: pg_slice_def)

lemma sint_small: "n < 2 ^ 31 \<Longrightarrow> sint (word_of_nat n :: 32 word) = int n"
  by (simp add: signed_of_nat take_bit_nat_eq_self signed_take_bit_int_eq_self)

lemma select_rows_snoc:
  assumes "args_ok a" "ws \<noteq> []" "length (ba_witnesses a) + length ws < 2 ^ 31"
  shows "select_rows now
      \<lparr>ba_ids = ba_ids a @ [i], ba_causes = ba_causes a @ [c], ba_revoked = ba_revoked a @ [v],
       ba_witnesses = ba_witnesses a @ ws,
       ba_starts = ba_starts a @ [word_of_nat (length (ba_witnesses a) + 1)],
       ba_ends = ba_ends a @ [word_of_nat (length (ba_witnesses a @ ws))]\<rparr> =
    select_rows now a @
      [\<lparr>row_id = i, row_cause = c, row_revoked = v, row_witness = ws, row_recorded_at = now\<rparr>]"
proof -
  let ?n = "length (ba_witnesses a)"
  have "Suc ?n \<le> ?n + length ws" using assms(2) by (cases ws) auto
  with assms(3) have "sint (word_of_nat (?n + 1) :: 32 word) = int ?n + 1"
    "sint (word_of_nat (length (ba_witnesses a @ ws)) :: 32 word) = int (?n + length ws)"
    using sint_small [of "?n + 1"] sint_small [of "?n + length ws"] by simp_all
  then have new: "pg_slice (ba_witnesses a @ ws) (sint (word_of_nat (?n + 1) :: 32 word))
      (sint (word_of_nat (length (ba_witnesses a @ ws)) :: 32 word)) = ws"
    using pg_slice_suffix by metis
  have old: "pg_slice (ba_witnesses a @ ws) lo (sint hi) = pg_slice (ba_witnesses a) lo (sint hi)"
    if "hi \<in> set (ba_ends a)" for lo hi
    using assms(1) that by (intro pg_slice_prefix) (simp add: args_ok_def)
  show ?thesis
    using assms(1) new old
    by (auto simp: select_rows_def args_ok_def dest!: set_zip_rightD)
qed

lemma prepare_rows:
  assumes "args_ok a" "length (ba_witnesses a) + witness_count rs < 2 ^ 31"
  shows "(case prepare ul i added a rs of Inl e \<Rightarrow> Inl e | Inr a' \<Rightarrow> Inr (select_rows now a')) =
         (case batch_rows ul now i added rs of
            Inl e \<Rightarrow> Inl e | Inr new \<Rightarrow> Inr (select_rows now a @ new))"
  using assms
proof (induction rs arbitrary: i added a)
  case Nil
  then show ?case by simp
next
  case (Cons r rs)
  note total = Cons.prems(2)
  show ?case
  proof (cases "rv_path r = [] \<or> cause_link r \<in> set added")
    case True
    with Cons.IH [OF Cons.prems(1)] total show ?thesis
      by (auto simp: witness_count_def)
  next
    case new: False
    show ?thesis
    proof (cases "encode_invocation ul (rv_cause r)")
      case (Inl e)
      with new show ?thesis by simp
    next
      case cause: (Inr cause)
      show ?thesis
      proof (cases "encode_path ul (witness_error i) (rv_path r)")
        case (Inl e)
        with new cause show ?thesis by simp
      next
        case ws: (Inr ws)
        have len: "length ws = length (rv_path r)" using ws by (rule encode_path_length)
        let ?a = "\<lparr>ba_ids = ba_ids a @ [cid_text ul (cause_link r)],
          ba_causes = ba_causes a @ [cause], ba_revoked = ba_revoked a @ [cid_text ul (revoked_link r)],
          ba_witnesses = ba_witnesses a @ ws,
          ba_starts = ba_starts a @ [word_of_nat (length (ba_witnesses a) + 1)],
          ba_ends = ba_ends a @ [word_of_nat (length (ba_witnesses a @ ws))]\<rparr>"
        have bound: "length (ba_witnesses a) + length ws < 2 ^ 31"
          using total len by (simp add: witness_count_def)
        have "args_ok ?a"
          using Cons.prems(1) sint_small [OF bound] by (auto simp: args_ok_def)
        moreover have "length (ba_witnesses ?a) + witness_count rs < 2 ^ 31"
          using total len by (simp add: witness_count_def)
        ultimately have "(case prepare ul (Suc i) (cause_link r # added) ?a rs of
              Inl e \<Rightarrow> Inl e | Inr a' \<Rightarrow> Inr (select_rows now a')) =
            (case batch_rows ul now (Suc i) (cause_link r # added) rs of
              Inl e \<Rightarrow> Inl e | Inr new \<Rightarrow> Inr (select_rows now ?a @ new))"
          by (rule Cons.IH)
        moreover have "ws \<noteq> []" using new len by auto
        ultimately show ?thesis
          using new cause ws select_rows_snoc [OF Cons.prems(1) _ bound]
          by (simp split: sum.split)
      qed
    qed
  qed
qed

lemma prepare_batch:
  assumes "witness_count rs < 2 ^ 31"
  shows "(case prepare ul 0 [] no_args rs of Inl e \<Rightarrow> Inl e | Inr a \<Rightarrow> Inr (select_rows now a)) =
         batch_rows ul now 0 [] rs"
proof -
  have "args_ok no_args" by (simp add: args_ok_def no_args_def)
  moreover have "select_rows now no_args = []" by (simp add: select_rows_def no_args_def)
  ultimately show ?thesis
    using prepare_rows [of no_args rs now ul 0 "[]"] assms
    by (simp add: no_args_def split: sum.splits)
qed


section \<open>What is in the table\<close>

definition row_of :: "ucan_lib \<Rightarrow> revocation \<Rightarrow> row \<Rightarrow> bool" where
  "row_of ul r row \<longleftrightarrow>
     row_id row = cid_text ul (cause_link r) \<and>
     encode_invocation ul (rv_cause r) = Inr (row_cause row) \<and>
     row_revoked row = cid_text ul (revoked_link r) \<and> revoked_link r \<noteq> undef_cid \<and>
     rv_path r \<noteq> [] \<and> (\<exists>msg. encode_path ul msg (rv_path r) = Inr (row_witness row))"

definition pg_invar :: "ucan_lib \<Rightarrow> table \<Rightarrow> bool" where
  "pg_invar ul s \<longleftrightarrow> distinct (map row_id s) \<and> (\<forall>row \<in> set s. \<exists>r. row_of ul r row)"

text \<open>
  What a batch has to meet: fewer than \<open>2^31\<close> witnesses in all, defined links, and
  causes that say which delegation they revoke, as a revocation's arguments do.
\<close>

definition pg_admissible :: "ucan_lib \<Rightarrow> revocation list \<Rightarrow> table \<Rightarrow> bool" where
  "pg_admissible ul b s \<longleftrightarrow>
     witness_count b < 2 ^ 31 \<and> (\<forall>r \<in> set b. revoked_link r \<noteq> undef_cid) \<and>
     (\<forall>r \<in> set b. \<forall>r' \<in> set b. cause_link r = cause_link r' \<longrightarrow> revoked_link r = revoked_link r') \<and>
     (\<forall>r \<in> set b. \<forall>row \<in> set s. row_id row = cid_text ul (cause_link r) \<longrightarrow>
        row_revoked row = cid_text ul (revoked_link r))"

lemma pg_admissibleD:
  "pg_admissible ul b s \<Longrightarrow> witness_count b < 2 ^ 31"
  "pg_admissible ul b s \<Longrightarrow> \<forall>r \<in> set b. revoked_link r \<noteq> undef_cid"
  "pg_admissible ul b s \<Longrightarrow> r \<in> set b \<Longrightarrow> r' \<in> set b \<Longrightarrow> cause_link r = cause_link r' \<Longrightarrow>
     revoked_link r = revoked_link r'"
  "pg_admissible ul b s \<Longrightarrow> r \<in> set b \<Longrightarrow> row \<in> set s \<Longrightarrow> row_id row = cid_text ul (cause_link r) \<Longrightarrow>
     row_revoked row = cid_text ul (revoked_link r)"
  unfolding pg_admissible_def by blast+

lemma insert_row_cases: "insert_row r s = s \<or> insert_row r s = s @ [r] \<and> row_id r \<notin> row_id ` set s"
  by (simp add: insert_row_def)

lemma insert_rows_prefix: "\<exists>new. insert_rows rs s = s @ new \<and> set new \<subseteq> set rs"
proof (induction rs arbitrary: s)
  case Nil
  then show ?case by (simp add: insert_rows_def)
next
  case (Cons r rs)
  obtain new where "insert_rows rs (insert_row r s) = insert_row r s @ new" "set new \<subseteq> set rs"
    using Cons by blast
  then show ?case
    using insert_row_cases [of r s] by (auto simp: insert_rows_def)
qed

lemma insert_rows_ids: "row_id ` set (insert_rows rs s) = row_id ` set s \<union> row_id ` set rs"
  unfolding insert_rows_def
  by (induction rs arbitrary: s) (auto simp: insert_row_def)

lemma insert_rows_distinct:
  "distinct (map row_id s) \<Longrightarrow> distinct (map row_id (insert_rows rs s))"
  unfolding insert_rows_def
  by (induction rs arbitrary: s) (auto simp: insert_row_def)

lemma insert_rows_known:
  "row_id ` set rs \<subseteq> row_id ` set s \<Longrightarrow> insert_rows rs s = s"
  unfolding insert_rows_def by (induction rs) (auto simp: insert_row_def)

lemma batch_rows_Cons:
  assumes "batch_rows ul now i added (r # rs) = Inr rows"
  obtains (repeated) "rv_path r \<noteq> []" "cause_link r \<in> set added"
      "batch_rows ul now (Suc i) added rs = Inr rows"
  | (new) row rest where "rv_path r \<noteq> []" "rows = row # rest" "row_id row = cid_text ul (cause_link r)"
      "row_recorded_at row = now" "revoked_link r \<noteq> undef_cid \<longrightarrow> row_of ul r row"
      "cause_link r \<notin> set added"
      "batch_rows ul now (Suc i) (cause_link r # added) rs = Inr rest"
proof (cases "cause_link r \<in> set added")
  case True
  with assms repeated show ?thesis by (simp split: if_splits)
next
  case False
  with assms obtain cause ws rest where found: "rv_path r \<noteq> []"
    "encode_invocation ul (rv_cause r) = Inr cause"
    "encode_path ul (witness_error i) (rv_path r) = Inr ws"
    "batch_rows ul now (Suc i) (cause_link r # added) rs = Inr rest"
    "rows = \<lparr>row_id = cid_text ul (cause_link r), row_cause = cause,
       row_revoked = cid_text ul (revoked_link r), row_witness = ws, row_recorded_at = now\<rparr> # rest"
    by (auto split: if_splits sum.splits)
  show ?thesis
    by (rule new [OF found(1,5) _ _ _ False found(4)]) (use found in \<open>auto simp: row_of_def\<close>)
qed

lemma batch_rows_elem:
  "batch_rows ul now i added rs = Inr rows \<Longrightarrow> row \<in> set rows \<Longrightarrow>
     \<forall>r \<in> set rs. revoked_link r \<noteq> undef_cid \<Longrightarrow>
     row_recorded_at row = now \<and> (\<exists>r \<in> set rs. row_of ul r row)"
proof (induction rs arbitrary: i added rows)
  case Nil
  then show ?case by simp
next
  case (Cons r rs)
  from Cons.prems(1) show ?case
    by (cases rule: batch_rows_Cons) (use Cons in auto)
qed

lemma batch_rows_covers:
  "batch_rows ul now i added rs = Inr rows \<Longrightarrow> r \<in> set rs \<Longrightarrow>
     rv_path r \<noteq> [] \<and>
     (cause_link r \<in> set added \<or> (\<exists>row \<in> set rows. row_id row = cid_text ul (cause_link r)))"
proof (induction rs arbitrary: i added rows)
  case Nil
  then show ?case by simp
next
  case (Cons r' rs)
  from Cons.prems(1) show ?case
  proof (cases rule: batch_rows_Cons)
    case repeated
    then show ?thesis using Cons.IH [OF repeated(3)] Cons.prems(2) by auto
  next
    case (new row rest)
    show ?thesis
    proof (cases "r = r'")
      case True
      with new show ?thesis by simp
    next
      case False
      then have "rv_path r \<noteq> [] \<and> (cause_link r \<in> set (cause_link r' # added) \<or>
          (\<exists>row \<in> set rest. row_id row = cid_text ul (cause_link r)))"
        using Cons.IH [OF new(7)] Cons.prems(2) by simp
      with new(2,3) show ?thesis by auto
    qed
  qed
qed

lemma batch_rows_ids:
  "batch_rows ul now i added rs = Inr rows \<Longrightarrow>
     row_id ` set rows \<subseteq> (\<lambda>r. cid_text ul (cause_link r)) ` set rs"
proof (induction rs arbitrary: i added rows)
  case Nil
  then show ?case by simp
next
  case (Cons r rs)
  from Cons.prems(1) show ?case
    by (cases rule: batch_rows_Cons) (use Cons.IH in force)+
qed

lemma batch_rows_error:
  "batch_rows ul now i added rs = Inl e \<Longrightarrow> batch_rows ul now' i added rs = Inl e"
  by (induction rs arbitrary: i added) (auto split: sum.splits if_splits)

text \<open>The effect of a call, whatever the driver reports.\<close>

lemma pg_add_batch_cases:
  assumes "witness_count b < 2 ^ 31"
  obtains (unchanged) e where "fst (pg_add_batch ul net ctx now b s) = Some e"
      "snd (pg_add_batch ul net ctx now b s) = s"
  | (inserted) rows where "batch_rows ul now 0 [] b = Inr rows"
      "snd (pg_add_batch ul net ctx now b s) = insert_rows rows s"
proof (cases "ctx = None \<and> b \<noteq> []")
  case False
  show ?thesis
  proof (cases ctx)
    case None
    with False have "batch_rows ul now 0 [] b = Inr []" "snd (pg_add_batch ul net ctx now b s) = s"
      by (simp_all add: pg_add_batch_def)
    then show ?thesis by (intro inserted [of "[]"]) (simp_all add: insert_rows_def)
  next
    case (Some e)
    then show ?thesis by (intro unchanged [of e]) (simp_all add: pg_add_batch_def)
  qed
next
  case True
  note rows = prepare_batch [OF assms, of now ul]
  show ?thesis
  proof (cases "prepare ul 0 [] no_args b")
    case (Inl e)
    with True show ?thesis using unchanged by (simp add: pg_add_batch_def)
  next
    case (Inr a)
    with rows have "batch_rows ul now 0 [] b = Inr (select_rows now a)" by simp
    with True Inr show ?thesis
      using unchanged inserted by (cases "net now") (simp_all add: pg_add_batch_def)
  qed
qed

lemma pg_add_batch_ok:
  assumes "witness_count b < 2 ^ 31" "fst (pg_add_batch ul net ctx now b s) = None"
  obtains rows where "batch_rows ul now 0 [] b = Inr rows"
    "snd (pg_add_batch ul net ctx now b s) = insert_rows rows s"
  using pg_add_batch_cases [OF assms(1), of ul net ctx now s] assms(2) by auto

section \<open>The latest row\<close>

lemma latest_row_None: "latest_row v s = None \<longleftrightarrow> (\<forall>r \<in> set s. row_revoked r \<noteq> v)"
proof -
  let ?xs = "sort_key row_key (filter (\<lambda>r. row_revoked r = v) s)"
  have "set ?xs = {r \<in> set s. row_revoked r = v}" by auto
  then show ?thesis
    unfolding latest_row_def by (cases ?xs rule: rev_cases) auto
qed

lemma latest_row_Some:
  assumes "latest_row v s = Some r"
  shows "r \<in> set s" "row_revoked r = v"
    "\<And>r'. r' \<in> set s \<Longrightarrow> row_revoked r' = v \<Longrightarrow> row_key r' \<le> row_key r"
proof -
  let ?xs = "sort_key row_key (filter (\<lambda>r. row_revoked r = v) s)"
  have set: "set ?xs = {r \<in> set s. row_revoked r = v}" by auto
  from assms obtain ys where ys: "?xs = ys @ [r]"
    unfolding latest_row_def by (cases ?xs rule: rev_cases) auto
  then have "r \<in> set ?xs" by simp
  then show "r \<in> set s" "row_revoked r = v" unfolding set by simp_all
  have "sorted (map row_key (ys @ [r]))" using ys by (metis sorted_sort_key)
  then have "\<forall>r' \<in> set (ys @ [r]). row_key r' \<le> row_key r" by (auto simp: sorted_append)
  then show "\<And>r'. r' \<in> set s \<Longrightarrow> row_revoked r' = v \<Longrightarrow> row_key r' \<le> row_key r"
    using set ys by auto
qed

lemma latest_row_kept:
  assumes "latest_row v (s @ new) = Some r" "r \<in> set s" "distinct (map row_id (s @ new))"
  shows "latest_row v s = Some r"
proof -
  have "latest_row v s \<noteq> None"
    unfolding latest_row_None using assms(2) latest_row_Some(2) [OF assms(1)] by blast
  then obtain r' where r': "latest_row v s = Some r'" by auto
  have "row_key r' \<le> row_key r"
    using latest_row_Some [OF r'] by (intro latest_row_Some(3) [OF assms(1)]) auto
  moreover have "row_key r \<le> row_key r'"
    using assms(1,2) latest_row_Some(2) [OF assms(1)] by (intro latest_row_Some(3) [OF r'])
  ultimately have "row_key r' = row_key r" by (rule antisym)
  then have "row_id r' = row_id r" by (simp add: row_key_def)
  moreover have "inj_on row_id (set s)" using assms(3) by (simp add: distinct_map)
  ultimately have "r' = r" using latest_row_Some(1) [OF r'] assms(2) by (simp add: inj_onD)
  with r' show ?thesis by simp
qed


section \<open>The store contract\<close>

lemma pg_get_Inr:
  "pg_get ul None k s = Inr x \<longleftrightarrow>
     (\<exists>row. latest_row (cid_text ul k) s = Some row \<and> decode_row ul row = Inr x)"
  by (auto simp: pg_get_def Let_def split: option.splits sum.splits)

context ucan_codec
begin

lemma decode_row_of: "row_of ul r row \<Longrightarrow> decode_row ul row = Inr (record_of (row_recorded_at row) r)"
  by (auto simp: row_of_def decode_row_def invocation_back cid_back path_back record_of_def)

lemma pg_get_ex:
  assumes "pg_invar ul s"
  shows "(\<exists>x. pg_get ul None k s = Inr x) \<longleftrightarrow> (\<exists>row \<in> set s. row_revoked row = cid_text ul k)"
proof
  assume "\<exists>x. pg_get ul None k s = Inr x"
  then show "\<exists>row \<in> set s. row_revoked row = cid_text ul k"
    unfolding pg_get_Inr using latest_row_Some by blast
next
  assume "\<exists>row \<in> set s. row_revoked row = cid_text ul k"
  then obtain row where row: "latest_row (cid_text ul k) s = Some row"
    using latest_row_None [of "cid_text ul k" s] by fastforce
  then have "row \<in> set s" by (rule latest_row_Some)
  with assms obtain r where "row_of ul r row" by (auto simp: pg_invar_def)
  with row decode_row_of show "\<exists>x. pg_get ul None k s = Inr x"
    unfolding pg_get_Inr by blast
qed

lemma pg_invar_add:
  assumes "pg_invar ul s" "pg_admissible ul b s"
  shows "pg_invar ul (snd (pg_add_batch ul net ctx now b s))"
proof -
  have "witness_count b < 2 ^ 31" using assms(2) by (rule pg_admissibleD)
  then show ?thesis
  proof (cases rule: pg_add_batch_cases [of b ul net ctx now s])
    case (unchanged e)
    with assms(1) show ?thesis by simp
  next
    case (inserted rows)
    obtain new where new: "insert_rows rows s = s @ new" "set new \<subseteq> set rows"
      using insert_rows_prefix by blast
    then have "row \<in> set s \<or> row \<in> set rows" if "row \<in> set (s @ new)" for row
      using that by auto
    then have "\<exists>r. row_of ul r row" if "row \<in> set (s @ new)" for row
      using that assms(1) batch_rows_elem [OF inserted(1) _ pg_admissibleD(2) [OF assms(2)]]
      unfolding pg_invar_def by blast
    moreover have "distinct (map row_id (insert_rows rows s))"
      using assms(1) by (intro insert_rows_distinct) (simp add: pg_invar_def)
    ultimately show ?thesis using inserted(2) new(1) by (simp add: pg_invar_def)
  qed
qed

lemma pg_stored:
  assumes "pg_invar ul s" "pg_admissible ul b s"
    and "fst (pg_add_batch ul net ctx now b s) = None" "r \<in> set b"
  shows "\<exists>row \<in> set (snd (pg_add_batch ul net ctx now b s)).
           row_id row = cid_text ul (cause_link r) \<and> row_revoked row = cid_text ul (revoked_link r)"
proof -
  have small: "witness_count b < 2 ^ 31" using assms(2) by (rule pg_admissibleD)
  obtain rows where rows: "batch_rows ul now 0 [] b = Inr rows"
    "snd (pg_add_batch ul net ctx now b s) = insert_rows rows s"
    using pg_add_batch_ok [OF small assms(3)] by blast
  obtain new where new: "insert_rows rows s = s @ new" "set new \<subseteq> set rows"
    using insert_rows_prefix by blast
  have "cid_text ul (cause_link r) \<in> row_id ` set (insert_rows rows s)"
    using batch_rows_covers [OF rows(1) assms(4)] unfolding insert_rows_ids
    by (auto intro: rev_image_eqI)
  then obtain row where row: "row \<in> set (s @ new)" "row_id row = cid_text ul (cause_link r)"
    unfolding new(1) by (metis imageE)
  have "row_revoked row = cid_text ul (revoked_link r)"
  proof (cases "row \<in> set s")
    case True
    then show ?thesis using pg_admissibleD(4) [OF assms(2,4) _ row(2)] by blast
  next
    case False
    with row(1) new(2) have "row \<in> set rows" by auto
    then obtain r' where r': "r' \<in> set b" "row_of ul r' row"
      using batch_rows_elem [OF rows(1) _ pg_admissibleD(2) [OF assms(2)]] by blast
    then have "cause_link r' = cause_link r" using row(2) by (simp add: row_of_def)
    then have "revoked_link r' = revoked_link r"
      by (rule pg_admissibleD(3) [OF assms(2) r'(1) assms(4)])
    with r'(2) show ?thesis by (simp add: row_of_def)
  qed
  with row new(1) rows(2) show ?thesis by auto
qed

lemma pg_get_after:
  assumes "pg_invar ul s" "pg_admissible ul b s"
    and "pg_get ul None k (snd (pg_add_batch ul net ctx now b s)) = Inr x"
  shows "pg_get ul None k s = Inr x \<or> (\<exists>r \<in> set b. x = record_of now r \<and> revoked_link r = k)"
proof -
  have "witness_count b < 2 ^ 31" using assms(2) by (rule pg_admissibleD)
  then show ?thesis
  proof (cases rule: pg_add_batch_cases [of b ul net ctx now s])
    case (unchanged e)
    with assms(3) show ?thesis by simp
  next
    case (inserted rows)
    obtain new where new: "insert_rows rows s = s @ new" "set new \<subseteq> set rows"
      using insert_rows_prefix by blast
    obtain row where row: "latest_row (cid_text ul k) (s @ new) = Some row" "decode_row ul row = Inr x"
      using assms(3) inserted(2) new(1) by (auto simp: pg_get_Inr)
    show ?thesis
    proof (cases "row \<in> set s")
      case True
      have "distinct (map row_id (s @ new))"
        using insert_rows_distinct [of s rows] assms(1) new(1) by (simp add: pg_invar_def)
      with row True show ?thesis
        using latest_row_kept [OF row(1) True] by (auto simp: pg_get_Inr)
    next
      case False
      with latest_row_Some(1) [OF row(1)] new(2) have "row \<in> set rows" by auto
      then obtain r where r: "row_recorded_at row = now" "r \<in> set b" "row_of ul r row"
        using batch_rows_elem [OF inserted(1) _ pg_admissibleD(2) [OF assms(2)]] by blast
      then have "x = record_of now r" using decode_row_of [OF r(3)] row(2) by simp
      moreover have "revoked_link r = k"
        using r(3) latest_row_Some(2) [OF row(1)] by (simp add: row_of_def)
      ultimately show ?thesis using r(2) by blast
    qed
  qed
qed

lemma pg_get_is_about:
  assumes "pg_invar ul s" "pg_get ul None k s = Inr x"
  shows "rr_revoke x = k \<and> rr_path x \<noteq> [] \<and> dlg_link (last (rr_path x)) = k"
proof -
  obtain row where row: "latest_row (cid_text ul k) s = Some row" "decode_row ul row = Inr x"
    using assms(2) by (auto simp: pg_get_Inr)
  obtain r where r: "row_of ul r row"
    using assms(1) latest_row_Some(1) [OF row(1)] by (auto simp: pg_invar_def)
  then have "x = record_of (row_recorded_at row) r" using decode_row_of row(2) by simp
  moreover have "revoked_link r = k" using r latest_row_Some(2) [OF row(1)] by (simp add: row_of_def)
  ultimately show ?thesis using r by (auto simp: row_of_def revoked_link_def)
qed

end

text \<open>The PostgreSQL store keeps the contract, whatever the network does to its statements.\<close>

sublocale ucan_codec \<subseteq> pg: revocation_store "pg_invar ul" "pg_admissible ul"
  "pg_add_batch ul net" "pg_get ul" for net
proof (unfold_locales, goal_cases)
  case (1 s b c t)
  then show ?case by (rule pg_invar_add)
next
  case (2 r b c t s)
  have "prepare ul i added a rs \<noteq> Inr a'" if "r \<in> set rs" for i added a a' rs
    using that
  proof (induction rs arbitrary: i added a)
    case (Cons r' rs)
    then show ?case using 2(2) by (auto split: sum.splits)
  qed simp
  then have "\<exists>e. prepare ul 0 [] no_args b = Inl e"
    using 2(1) by (cases "prepare ul 0 [] no_args b") auto
  with 2(1) show ?case by (auto simp: pg_add_batch_def split: option.splits)
next
  case (3 e t b s)
  show ?case by (simp add: pg_add_batch_def)
next
  case (4 s b c t r)
  then show ?case
    using pg_stored [of s b] unfolding pg_get_ex [OF pg_invar_add [OF 4(1,2)]] by blast
next
  case (5 s b k x c t)
  then have "\<exists>row \<in> set s. row_revoked row = cid_text ul k" using pg_get_ex [OF 5(1)] by blast
  moreover have "set s \<subseteq> set (snd (pg_add_batch ul net c t b s))"
    using pg_admissibleD(1) [OF 5(2)]
  proof (cases rule: pg_add_batch_cases [of b ul net c t s])
    case (inserted rows)
    obtain new where "insert_rows rows s = s @ new" using insert_rows_prefix by blast
    with inserted show ?thesis by simp
  qed simp_all
  ultimately show ?case unfolding pg_get_ex [OF pg_invar_add [OF 5(1,2)]] by blast
next
  case (6 s b k c t x)
  then show ?case by (rule pg_get_after)
next
  case (7 s k x)
  then show ?case by (rule pg_get_is_about)
qed


context ucan_codec
begin

lemma pg_writes_invar:
  "pg_invar ul s \<Longrightarrow> admissible_all (pg_admissible ul) (pg_add_batch ul net) ws s \<Longrightarrow>
     pg_invar ul (write_all (pg_add_batch ul net) ws s)"
  by (rule pg.write_all_invar)

end

section \<open>Properties of the PostgreSQL store\<close>

text \<open>C14: The flat array of witnesses and the int32 bounds give every row exactly the
  encoding of its own path: while a batch has fewer than 2^31 witnesses, AddBatch
  inserts the rows the reference computes, or fails with the error the reference meets.\<close>

theorem pg_inserts_the_reference_rows:
  assumes "witness_count b < 2 ^ 31" and "b \<noteq> []"
  shows "pg_add_batch ul net None now b s =
    (case batch_rows ul now 0 [] b of
       Inl e \<Rightarrow> (Some e, s)
     | Inr rows \<Rightarrow>
         (case net now of
            Applied \<Rightarrow> (None, insert_rows rows s)
          | Refused e \<Rightarrow> (Some (Wrap ''storing revocations'' e), s)
          | Applied_but_lost e \<Rightarrow> (Some (Wrap ''storing revocations'' e), insert_rows rows s)))"
  using assms(2) prepare_batch [OF assms(1), of now ul]
  by (auto simp: pg_add_batch_def split: sum.splits)

definition pg_sample :: "string \<Rightarrow> string \<Rightarrow> revocation" where
  "pg_sample c d =
     \<lparr>rv_cause = \<lparr>inv_link = Cid c, inv_task = Cid c, inv_issuer = Did ''alice'',
        inv_command = ''/ucan/revoke''\<rparr>,
      rv_path = [\<lparr>dlg_link = Cid ''root'', dlg_issuer = Did ''alice'', dlg_audience = Did ''bob'',
        dlg_subject = Did ''alice''\<rparr>, \<lparr>dlg_link = Cid d, dlg_issuer = Did ''bob'',
        dlg_audience = Did ''carol'', dlg_subject = Undef\<rparr>]\<rparr>"

lemma pg_sample_simps [simp]:
  "cause_link (pg_sample c d) = Cid c" "revoked_link (pg_sample c d) = Cid d"
  "rv_path (pg_sample c d) \<noteq> []" "length (rv_path (pg_sample c d)) = 2"
  by (simp_all add: pg_sample_def cause_link_def revoked_link_def)

lemma sample_encodes [simp]:
  "encode_invocation sample_ucan v = Inr (invocation_text v)"
  "encode_path sample_ucan msg path = Inr (map delegation_text path)"
  "cid_text sample_ucan = cid_bytes"
  by (simp_all add: sample_ucan_def encode_path_def traverse_map_Inr)

definition sample_row :: "time \<Rightarrow> string \<Rightarrow> string \<Rightarrow> row" where
  "sample_row t c d =
     \<lparr>row_id = c, row_cause = invocation_text (rv_cause (pg_sample c d)), row_revoked = d,
      row_witness = map delegation_text (rv_path (pg_sample c d)), row_recorded_at = t\<rparr>"

lemma sample_batch_rows:
  "batch_rows sample_ucan t 0 [] [pg_sample c d] = Inr [sample_row t c d]"
  "c \<noteq> c' \<Longrightarrow> batch_rows sample_ucan t 0 [] [pg_sample c d, pg_sample c' d'] =
     Inr [sample_row t c d, sample_row t c' d']"
  by (simp_all add: sample_row_def)

lemma sample_add:
  "pg_add_batch sample_ucan (\<lambda>_. Applied) None t [pg_sample c d] [] = (None, [sample_row t c d])"
proof -
  have "witness_count [pg_sample c d] < 2 ^ 31" by (simp add: witness_count_def)
  from prepare_batch [OF this, of t sample_ucan] show ?thesis
    unfolding sample_batch_rows
    by (simp add: pg_add_batch_def insert_rows_def insert_row_def split: sum.splits del: prepare.simps)
qed

theorem pg_inserts_the_reference_rows_witness:
  "pg_add_batch sample_ucan (\<lambda>_. Applied) None 5 [pg_sample ''c'' ''d''] [] =
     (None, [sample_row 5 ''c'' ''d''])"
proof -
  have "witness_count [pg_sample ''c'' ''d''] < 2 ^ 31" by (simp add: witness_count_def)
  from pg_inserts_the_reference_rows [OF this, of sample_ucan "\<lambda>_. Applied" 5 "[]"]
  show ?thesis
    by (simp only: sample_batch_rows) (simp add: insert_rows_def insert_row_def)
qed

text \<open>The table only grows: no call changes or removes a row, and no two rows have the same
  id, so a revocation keeps its first record and its first timestamp for ever.\<close>

theorem pg_append_only:
  assumes "witness_count b < 2 ^ 31" and "distinct (map row_id s)"
  shows "\<exists>new. snd (pg_add_batch ul net ctx now b s) = s @ new \<and> distinct (map row_id (s @ new))"
  using assms(1)
proof (cases rule: pg_add_batch_cases [of b ul net ctx now s])
  case (unchanged e)
  with assms(2) show ?thesis by simp
next
  case (inserted rows)
  with insert_rows_prefix [of rows s] insert_rows_distinct [OF assms(2), of rows] show ?thesis
    by auto
qed

theorem pg_append_only_witness:
  "\<exists>new. snd (pg_add_batch sample_ucan (\<lambda>_. Applied) None 9 [pg_sample ''b'' ''d''] [sample_row 5 ''c'' ''d'']) =
     sample_row 5 ''c'' ''d'' # new"
  using pg_append_only [of "[pg_sample ''b'' ''d'']" "[sample_row 5 ''c'' ''d'']" sample_ucan
      "\<lambda>_. Applied" None 9]
  by (auto simp: witness_count_def)

text \<open>C37: A retry is safe: once a batch was applied, whether or not its answer arrived, sending
  it again leaves the table as it is.\<close>

theorem pg_retry_noop:
  assumes "witness_count b < 2 ^ 31" and "\<And>e. net now \<noteq> Refused e"
  shows "snd (pg_add_batch ul net' ctx' now' b (snd (pg_add_batch ul net None now b s))) =
         snd (pg_add_batch ul net None now b s)"
    (is "snd (pg_add_batch ul net' ctx' now' b ?s) = ?s")
  using assms(1)
proof (cases rule: pg_add_batch_cases [of b ul net' ctx' now' ?s])
  case (inserted rows')
  show ?thesis
  proof (cases "batch_rows ul now 0 [] b")
    case (Inl e)
    with inserted(1) batch_rows_error [OF Inl, of now'] show ?thesis by simp
  next
    case (Inr rows)
    have s: "?s = insert_rows rows s"
    proof (cases "b = []")
      case True
      with Inr show ?thesis by (auto simp: pg_add_batch_def insert_rows_def)
    next
      case False
      show ?thesis
      proof (cases "prepare ul 0 [] no_args b")
        case (Inl e)
        with Inr prepare_batch [OF assms(1), of now ul] show ?thesis by simp
      next
        case a: (Inr a)
        with Inr prepare_batch [OF assms(1), of now ul] have sel: "select_rows now a = rows" by simp
        consider "net now = Applied" | e where "net now = Applied_but_lost e"
          using assms(2) by (cases "net now") auto
        then show ?thesis by cases (simp_all add: pg_add_batch_def False a sel)
      qed
    qed
    have "row_id ` set rows' \<subseteq> row_id ` set rows"
    proof
      fix i assume "i \<in> row_id ` set rows'"
      then obtain r where r: "r \<in> set b" "i = cid_text ul (cause_link r)"
        using batch_rows_ids [OF inserted(1)] by auto
      then show "i \<in> row_id ` set rows"
        using batch_rows_covers [OF Inr r(1)] by (metis empty_iff empty_set image_eqI)
    qed
    then have "insert_rows rows' ?s = ?s"
      by (intro insert_rows_known) (auto simp: s insert_rows_ids)
    with inserted(2) show ?thesis by simp
  qed
qed simp

theorem pg_retry_noop_witness:
  "snd (pg_add_batch sample_ucan (\<lambda>_. Applied) None 9 [pg_sample ''c'' ''d''] [sample_row 5 ''c'' ''d'']) =
     [sample_row 5 ''c'' ''d'']"
  using pg_retry_noop [of "[pg_sample ''c'' ''d'']" "\<lambda>_. Applied" 5 sample_ucan "\<lambda>_. Applied" None 9 "[]"]
    sample_add [of 5 "''c''" "''d''"]
  by (simp add: witness_count_def)

text \<open>Get returns the most recent revocation of a delegation: no row of the table about
  the delegation was recorded later than the record returned.\<close>

theorem pg_get_is_most_recent:
  assumes "pg_get ul None k s = Inr x" and "row \<in> set s" and "row_revoked row = cid_text ul k"
  shows "row_recorded_at row \<le> rr_recorded_at x"
proof -
  obtain r where r: "latest_row (cid_text ul k) s = Some r" "decode_row ul r = Inr x"
    using assms(1) by (auto simp: pg_get_Inr)
  have "row_key row \<le> row_key r" using latest_row_Some(3) [OF r(1)] assms(2,3) by blast
  moreover have "rr_recorded_at x = row_recorded_at r"
    using r(2) by (auto simp: decode_row_def split: sum.splits)
  ultimately show ?thesis by (auto simp: row_key_def)
qed

lemma decode_sample_row:
  "decode_row sample_ucan (sample_row t c d) =
     (if d = [] then Inl (Wrap ''decoding revoked delegation CID'' (Foreign ''cid too short''))
      else Inr (record_of t (pg_sample c d)))"
proof (cases "d = []")
  case True
  then show ?thesis
    by (simp add: decode_row_def sample_row_def)
      (simp add: sample_ucan_def or_malformed_def text_invocation_text)
next
  case False
  have "row_of sample_ucan (pg_sample c d) (sample_row t c d)"
    using False by (simp add: row_of_def sample_row_def undef_cid_def)
  from sample_ucan.decode_row_of [OF this] False show ?thesis by (simp add: sample_row_def)
qed

theorem pg_get_is_most_recent_witness:
  "pg_get sample_ucan None (Cid ''d'') [sample_row 5 ''c'' ''d'', sample_row 9 ''b'' ''d''] =
     Inr (record_of 9 (pg_sample ''b'' ''d''))"
proof -
  let ?s = "[sample_row 5 ''c'' ''d'', sample_row 9 ''b'' ''d'']"
  have latest: "latest_row ''d'' ?s = Some (sample_row 9 ''b'' ''d'')"
    by (simp add: latest_row_def sample_row_def row_key_def)
  then have get: "pg_get sample_ucan None (Cid ''d'') ?s = Inr (record_of 9 (pg_sample ''b'' ''d''))"
    by (simp add: pg_get_Inr decode_sample_row)
  have "row_recorded_at (sample_row 5 ''c'' ''d'') \<le> 9"
    using pg_get_is_most_recent [OF get, of "sample_row 5 ''c'' ''d''"] by (simp add: sample_row_def)
  with get show ?thesis by simp
qed

text \<open>C15: The table stays well typed: after any writes to an empty table, also of batches that
  repeat each other, fail or lose their answer, each row decodes to a record whose cause and
  path encode back to the row's columns, with the row's id, time and delegation, the last of
  a path that is not empty, and no other row has its id.\<close>

theorem pg_rows_well_typed:
  assumes "ucan_codec ul"
    and "admissible_all (pg_admissible ul) (pg_add_batch ul net) ws []"
    and "row \<in> set (write_all (pg_add_batch ul net) ws [])"
  shows "\<exists>x msg. decode_row ul row = Inr x \<and>
     cid_text ul (inv_link (rr_cause x)) = row_id row \<and>
     encode_invocation ul (rr_cause x) = Inr (row_cause row) \<and>
     encode_path ul msg (rr_path x) = Inr (row_witness row) \<and>
     cid_text ul (rr_revoke x) = row_revoked row \<and> rr_recorded_at x = row_recorded_at row \<and>
     rr_path x \<noteq> [] \<and> rr_revoke x = dlg_link (last (rr_path x)) \<and>
     (\<forall>row' \<in> set (write_all (pg_add_batch ul net) ws []). row_id row' = row_id row \<longrightarrow> row' = row)"
proof -
  let ?T = "write_all (pg_add_batch ul net) ws []"
  have "pg_invar ul []" by (simp add: pg_invar_def)
  then have inv: "pg_invar ul ?T"
    using ucan_codec.pg_writes_invar [OF assms(1) _ assms(2)] by blast
  then obtain r where r: "row_of ul r row" using assms(3) by (auto simp: pg_invar_def)
  note decode = ucan_codec.decode_row_of [OF assms(1) r]
  have unique: "\<forall>row' \<in> set ?T. row_id row' = row_id row \<longrightarrow> row' = row"
    using inv assms(3) by (auto simp: pg_invar_def distinct_map inj_on_def)
  from r obtain msg where "encode_path ul msg (rv_path r) = Inr (row_witness row)"
    by (auto simp: row_of_def)
  with decode unique r show ?thesis
    by (intro exI [of _ "record_of (row_recorded_at row) r"] exI [of _ msg])
      (simp add: row_of_def cause_link_def revoked_link_def)
qed

theorem pg_rows_well_typed_witness:
  "\<exists>x. decode_row sample_ucan (sample_row 5 ''c'' ''d'') = Inr x \<and> rr_recorded_at x = 5"
proof -
  let ?ws = "[(None, 5, [pg_sample ''c'' ''d''])]"
  have "write_all (pg_add_batch sample_ucan (\<lambda>_. Applied)) ?ws [] = [sample_row 5 ''c'' ''d'']"
    by (simp add: sample_add)
  moreover have "admissible_all (pg_admissible sample_ucan) (pg_add_batch sample_ucan (\<lambda>_. Applied)) ?ws []"
    by (simp add: pg_admissible_def witness_count_def undef_cid_def)
  ultimately show ?thesis
    using pg_rows_well_typed [OF sample_ucan.ucan_codec_axioms, of "\<lambda>_. Applied" ?ws "sample_row 5 ''c'' ''d''"]
    by (auto simp: sample_row_def)
qed

end
