(* ===== verification/Publish.thy ===== *)
theory Publish
  imports Client Service Postgres_Store
begin

text \<open>
  Publishing revocations: \<open>Publish\<close> and \<open>PublishBatch\<close> of \<^verbatim>\<open>pkg/client/client.go\<close>, and
  what they mean together with the \<^verbatim>\<open>/ucan/revoke\<close> route. Signing an invocation, sending
  a request with its delegations and reading a receipt belong to the UCAN library: they are
  the record \<open>executor\<close>.
\<close>

section \<open>The operations\<close>

text \<open>
  \<open>ex_invoke issuer subject args audience\<close> is \<open>Revoke.Invoke\<close>; the other fields are the
  executor's \<open>Execute\<close> (whose response has one receipt), its \<open>ExecuteBatch\<close> (whose response
  finds receipts by task) and \<open>Revoke.Unpack\<close>.
\<close>

record 'rc executor =
  ex_invoke :: "did \<Rightarrow> did \<Rightarrow> revoke_arguments \<Rightarrow> did \<Rightarrow> invocation result"
  ex_execute :: "invocation \<Rightarrow> delegation list \<Rightarrow> 'rc result"
  ex_execute_batch :: "invocation list \<Rightarrow> delegation list \<Rightarrow> (cid \<Rightarrow> 'rc option) result"
  ex_unpack :: "'rc \<Rightarrow> error option"

text \<open>The witness path without the revoked delegation, should it end with it.\<close>

definition upstream_path :: "delegation list \<Rightarrow> delegation \<Rightarrow> delegation list" where
  "upstream_path path revoked =
     (if path \<noteq> [] \<and> dlg_link (last path) = dlg_link revoked then butlast path else path)"

definition publish_witnesses :: "delegation list \<Rightarrow> delegation \<Rightarrow> delegation list" where
  "publish_witnesses path revoked = upstream_path path revoked @ [revoked]"

definition publish_args :: "delegation list \<Rightarrow> delegation \<Rightarrow> revoke_arguments" where
  "publish_args path revoked =
     \<lparr>arg_revoke = dlg_link revoked,
      arg_path = (if upstream_path path revoked \<noteq> []
                  then map dlg_link (publish_witnesses path revoked) else [])\<rparr>"

text \<open>The options of a call change its configuration, the later ones last.\<close>

record publish_config =
  pb_witness_path :: "delegation list"

type_synonym publish_option = "publish_config \<Rightarrow> publish_config"

definition with_witness_path :: "delegation list \<Rightarrow> publish_option" where
  "with_witness_path path cfg = cfg\<lparr>pb_witness_path := path\<rparr>"

definition configured_path :: "publish_option list \<Rightarrow> delegation list" where
  "configured_path options = pb_witness_path (fold (\<lambda>option cfg. option cfg) options \<lparr>pb_witness_path = []\<rparr>)"

lemma configured_path_simps [simp]:
  "configured_path [] = []"
  "configured_path (options @ [with_witness_path path]) = path"
  "configured_path [with_witness_path path] = path"
  by (simp_all add: configured_path_def with_witness_path_def)

text \<open>A revoker or delegation may be nil.\<close>

definition publish ::
  "('w, 'r) client \<Rightarrow> 'rc executor \<Rightarrow> did option \<Rightarrow> delegation option \<Rightarrow> publish_option list \<Rightarrow>
     error option" where
  "publish cl ex signer revoked options =
     (case signer of
        None \<Rightarrow> Some (Msg ''revoker is required'')
      | Some issuer \<Rightarrow>
          (case revoked of
             None \<Rightarrow> Some (Msg ''revoked delegation is required'')
           | Some d \<Rightarrow>
               (let path = configured_path options in
                case ex_invoke ex issuer issuer (publish_args path d) (cl_service_id cl) of
                  Inl e \<Rightarrow> Some (Wrap ''creating revoke invocation'' e)
                | Inr sent \<Rightarrow>
                    (case ex_execute ex sent (publish_witnesses path d) of
                       Inl e \<Rightarrow> Some (Wrap ''publishing revocation'' e)
                     | Inr receipt \<Rightarrow>
                         (case ex_unpack ex receipt of
                            Some e \<Rightarrow> Some (Wrap ''unpacking revoke receipt'' e)
                          | None \<Rightarrow> None)))))"

definition batch_args_of :: "delegation \<Rightarrow> revoke_arguments" where
  "batch_args_of d = \<lparr>arg_revoke = dlg_link d, arg_path = []\<rparr>"

definition batch_invocations ::
  "('w, 'r) client \<Rightarrow> 'rc executor \<Rightarrow> did \<Rightarrow> delegation option list \<Rightarrow>
     invocation list result" where
  "batch_invocations cl ex issuer revoked =
     traverse 0
       (\<lambda>i d. case d of
          None \<Rightarrow> Inl (Msg ''revoked delegation is required'')
        | Some d \<Rightarrow>
            (case ex_invoke ex issuer issuer (batch_args_of d) (cl_service_id cl) of
               Inl e \<Rightarrow> Inl (Wrap ''creating revoke invocation'' e)
             | Inr sent \<Rightarrow> Inr sent)) revoked"

fun check_receipts ::
  "('w, 'r) client \<Rightarrow> 'rc executor \<Rightarrow> (cid \<Rightarrow> 'rc option) \<Rightarrow> (invocation \<times> delegation) list \<Rightarrow>
     error option" where
  "check_receipts cl ex receipts [] = None"
| "check_receipts cl ex receipts ((sent, d) # rest) =
     (case receipts (inv_task sent) of
        None \<Rightarrow> Some (Msg (''no receipt for the revocation of '' @ cid_text (cl_ucan cl) (dlg_link d)))
      | Some receipt \<Rightarrow>
          (case ex_unpack ex receipt of
             Some e \<Rightarrow> Some (Wrap ''unpacking revoke receipt'' e)
           | None \<Rightarrow> check_receipts cl ex receipts rest))"

definition publish_batch ::
  "('w, 'r) client \<Rightarrow> 'rc executor \<Rightarrow> did option \<Rightarrow> delegation option list \<Rightarrow> error option" where
  "publish_batch cl ex signer revoked =
     (case signer of
        None \<Rightarrow> Some (Msg ''revoker is required'')
      | Some issuer \<Rightarrow>
          if revoked = [] then None
          else (case batch_invocations cl ex issuer revoked of
              Inl e \<Rightarrow> Some e
            | Inr invs \<Rightarrow>
                (case ex_execute_batch ex invs (map the revoked) of
                   Inl e \<Rightarrow> Some (Wrap ''publishing revocations'' e)
                 | Inr receipts \<Rightarrow> check_receipts cl ex receipts (zip invs (map the revoked)))))"

section \<open>What the service receives\<close>

text \<open>The request of a single publication, its arguments as the service decodes them.\<close>

definition publish_request :: "invocation \<Rightarrow> delegation list \<Rightarrow> delegation \<Rightarrow> request" where
  "publish_request sent path revoked =
     \<lparr>rq_invocation = sent, rq_args = publish_args path revoked,
      rq_delegations = publish_witnesses path revoked\<rparr>"

lemma publish_witnesses_last [simp]:
  "publish_witnesses path d \<noteq> []" "last (publish_witnesses path d) = d"
  by (simp_all add: publish_witnesses_def)

lemma witnesses_found:
  assumes "distinct (map dlg_link ds)"
  shows "map dlg_link p = map dlg_link ds \<and> (\<forall>d \<in> set p. witness_map ds (dlg_link d) = Some d) \<longleftrightarrow>
    p = ds"
proof
  assume p: "map dlg_link p = map dlg_link ds \<and> (\<forall>d \<in> set p. witness_map ds (dlg_link d) = Some d)"
  have "map (witness_map ds) (map dlg_link ds) = map Some p"
    using p witness_links [of ds "map dlg_link ds" p] by simp
  moreover have "map (witness_map ds) (map dlg_link ds) = map Some ds"
    using assms witness_map_distinct by (simp add: comp_def)
  ultimately show "p = ds" by (simp add: inj_map_eq_map)
qed (use assms witness_map_distinct in auto)

lemma publish_accepted:
  assumes "inv_issuer sent = signer" and "distinct (map dlg_link (publish_witnesses path d))"
  shows "recover_revocation_path cs vt (publish_request sent path d) = Inr p \<longleftrightarrow>
     p = publish_witnesses path d \<and> (\<forall>x \<in> set p. vt x = TokenValid) \<and>
     (if upstream_path path d = [] then dlg_issuer d = signer
      else delegation_chain p \<and> (\<exists>x \<in> set p. dlg_issuer x = signer))"
proof (cases "upstream_path path d = []")
  case True
  then have ws: "publish_witnesses path d = [d]" by (simp add: publish_witnesses_def)
  have "witness_map [d] (dlg_link x) = Some x \<longleftrightarrow> x = d" for x
    by (auto simp: witness_map_def)
  then show ?thesis
    using True assms(1) ws
    by (auto simp: accepted_authorised authorised_def publish_request_def publish_args_def length_Suc_conv)
next
  case False
  let ?ws = "publish_witnesses path d"
  have "authorised (\<lambda>x. vt x = TokenValid) (publish_request sent path d) p \<longleftrightarrow>
      (map dlg_link p = map dlg_link ?ws \<and> (\<forall>x \<in> set p. witness_map ?ws (dlg_link x) = Some x)) \<and>
      p \<noteq> [] \<and> dlg_link (last p) = dlg_link d \<and> (\<forall>x \<in> set p. vt x = TokenValid) \<and>
      delegation_chain p \<and> (\<exists>x \<in> set p. dlg_issuer x = signer)"
    using False assms(1) by (auto simp: authorised_def publish_request_def publish_args_def)
  also have "\<dots> \<longleftrightarrow> p = ?ws \<and> (\<forall>x \<in> set p. vt x = TokenValid) \<and>
      delegation_chain p \<and> (\<exists>x \<in> set p. dlg_issuer x = signer)"
    unfolding witnesses_found [OF assms(2)] by auto
  finally show ?thesis using False by (simp add: accepted_authorised)
qed

text \<open>C23: What Publish sends is what the service asks for: its request is accepted exactly when
  every token it carries is valid and, with a witness path, the path leads from a root to the
  revoked delegation and the revoker is an issuer in it; without one, when the revoker issued
  the revoked delegation. It does not matter whether the path ended with that delegation.\<close>

theorem publish_accepted_iff:
  assumes "inv_issuer sent = signer" and "distinct (map dlg_link (publish_witnesses path d))"
  shows "recover_revocation_path cs vt (publish_request sent path d) = Inr p \<longleftrightarrow>
     p = publish_witnesses path d \<and> (\<forall>x \<in> set p. vt x = TokenValid) \<and>
     (if upstream_path path d = [] then dlg_issuer d = signer
      else delegation_chain p \<and> (\<exists>x \<in> set p. dlg_issuer x = signer))"
  using assms by (rule publish_accepted)

theorem publish_accepted_iff_witness:
  "recover_revocation_path cid_bytes (\<lambda>_. TokenValid)
     (publish_request (rq_invocation (hd one_request)) [root_delegation, leaf_delegation] leaf_delegation) =
   Inr [root_delegation, leaf_delegation]"
proof -
  have up: "upstream_path [root_delegation, leaf_delegation] leaf_delegation = [root_delegation]"
    by (simp add: upstream_path_def)
  then have ws: "publish_witnesses [root_delegation, leaf_delegation] leaf_delegation =
      [root_delegation, leaf_delegation]"
    by (simp add: publish_witnesses_def)
  moreover have "delegation_chain [root_delegation, leaf_delegation]"
    by (simp add: delegation_chain_def request_defs)
  ultimately show ?thesis
    using publish_accepted_iff [OF refl, of "[root_delegation, leaf_delegation]" leaf_delegation
        cid_bytes "\<lambda>_. TokenValid" "rq_invocation (hd one_request)"] up
    by (simp add: one_request_def request_defs)
qed

section \<open>A batch and the service\<close>

definition batch_items :: "invocation list \<Rightarrow> delegation list \<Rightarrow> request list" where
  "batch_items invs ds =
     map (\<lambda>(sent, d). \<lparr>rq_invocation = sent, rq_args = batch_args_of d, rq_delegations = ds\<rparr>)
       (zip invs ds)"

text \<open>
  What the executor's receipts mean: one that reports no failure is the service's success
  reply to an invocation of the batch with that task. \<open>replies\<close> is the service's route.
  And what a task means: it is the hash of the invocation's contents, so that the
  arguments can be told from it.
\<close>

definition relays :: "'rc executor \<Rightarrow> (request list \<Rightarrow> reply list) \<Rightarrow> bool" where
  "relays ex replies \<longleftrightarrow>
     (\<forall>invs ds receipts t rc. ex_execute_batch ex invs ds = Inr receipts \<longrightarrow> receipts t = Some rc \<longrightarrow>
        ex_unpack ex rc = None \<longrightarrow>
        (\<exists>i < length invs. inv_task (invs ! i) = t \<and> replies (batch_items invs ds) ! i = Success))"

definition content_addressed :: "'rc executor \<Rightarrow> bool" where
  "content_addressed ex \<longleftrightarrow>
     (\<forall>i s a a' au v v'. ex_invoke ex i s a au = Inr v \<longrightarrow> ex_invoke ex i s a' au = Inr v' \<longrightarrow>
        inv_task v = inv_task v' \<longrightarrow> a = a')"

lemma check_receipts_ok:
  "check_receipts cl ex receipts ps = None \<longleftrightarrow>
     (\<forall>(sent, d) \<in> set ps. \<exists>rc. receipts (inv_task sent) = Some rc \<and> ex_unpack ex rc = None)"
  by (induction cl ex receipts ps rule: check_receipts.induct) (auto split: option.splits)

lemma batch_invocations_nth:
  assumes "batch_invocations cl ex issuer revoked = Inr invs" "i < length revoked"
  obtains d where "revoked ! i = Some d"
    "ex_invoke ex issuer issuer (batch_args_of d) (cl_service_id cl) = Inr (invs ! i)"
  using traverse_Inr_nth [OF assms(1) [unfolded batch_invocations_def] assms(2)] that
  by (auto split: option.splits sum.splits)

lemma batch_invocations_length:
  "batch_invocations cl ex issuer revoked = Inr invs \<Longrightarrow> length invs = length revoked"
  unfolding batch_invocations_def by (rule traverse_Inr_length)

context revocation_store
begin

lemma batch_published_revoked:
  assumes "batch_invocations cl ex issuer revoked = Inr invs"
    and "items = batch_items invs (map the revoked)"
    and "invar s" "admissible (request_batch env items) s"
    and "relays ex (\<lambda>items. route_replies (revoke_route env add_batch ctx now items s))"
    and "content_addressed ex"
    and "publish_batch cl ex (Some issuer) revoked = None" and "Some d \<in> set revoked"
    and "admissible_all admissible add_batch ws
      (route_store (revoke_route env add_batch ctx now items s))"
  shows "\<exists>x. get None (dlg_link d) (write_all add_batch ws
      (route_store (revoke_route env add_batch ctx now items s))) = Inr x"
proof -
  note len = batch_invocations_length [OF assms(1)]
  have "revoked \<noteq> []" using assms(8) by auto
  then obtain receipts where receipts: "ex_execute_batch ex invs (map the revoked) = Inr receipts"
    "check_receipts cl ex receipts (zip invs (map the revoked)) = None"
    using assms(1,7) by (auto simp: publish_batch_def split: sum.splits)
  obtain i where i: "i < length revoked" "revoked ! i = Some d"
    using assms(8) by (auto simp: in_set_conv_nth)
  then have sent: "ex_invoke ex issuer issuer (batch_args_of d) (cl_service_id cl) = Inr (invs ! i)"
    using batch_invocations_nth [OF assms(1) i(1)] by auto
  have "(invs ! i, d) \<in> set (zip invs (map the revoked))"
    using i len by (auto simp: set_zip intro!: exI [of _ i])
  then obtain rc where rc: "receipts (inv_task (invs ! i)) = Some rc" "ex_unpack ex rc = None"
    using receipts(2) by (auto simp: check_receipts_ok)
  obtain j where j: "j < length invs" "inv_task (invs ! j) = inv_task (invs ! i)"
    "route_replies (revoke_route env add_batch ctx now items s) ! j = Success"
    using assms(5) receipts(1) rc unfolding relays_def assms(2) by blast
  obtain d' where d': "revoked ! j = Some d'"
    "ex_invoke ex issuer issuer (batch_args_of d') (cl_service_id cl) = Inr (invs ! j)"
    using batch_invocations_nth [OF assms(1)] j(1) len by metis
  have "batch_args_of d' = batch_args_of d"
    using assms(6) sent d'(2) j(2) unfolding content_addressed_def by blast
  then have "dlg_link d' = dlg_link d" by (simp add: batch_args_of_def)
  moreover have "j < length items" "arg_revoke (rq_args (items ! j)) = dlg_link d'"
    using j(1) d'(1) len by (simp_all add: assms(2) batch_items_def batch_args_of_def)
  ultimately show ?thesis
    using route_success_revoked [OF assms(3,4) _ j(3) assms(9)] by simp
qed

end

text \<open>C10: When PublishBatch returns no error, every delegation of the batch is revoked: on the
  in-memory store, looking any of them up finds a revocation from then on, through all later
  writes. A missing receipt or a failed one would have been an error.\<close>

theorem publish_batch_revokes:
  assumes "batch_invocations cl ex issuer revoked = Inr invs"
    and "items = batch_items invs (map the revoked)" and "mem_invar s"
    and "relays ex (\<lambda>items. route_replies (revoke_route env mem_add_batch ctx now items s))"
    and "content_addressed ex"
    and "publish_batch cl ex (Some issuer) revoked = None" and "Some d \<in> set revoked"
  shows "\<exists>x. mem_get None (dlg_link d) (write_all mem_add_batch ws
      (route_store (revoke_route env mem_add_batch ctx now items s))) = Inr x"
  using assms(1-3) _ assms(4-7) by (rule mem.batch_published_revoked) simp_all

text \<open>An executor that talks to a service, the in-memory one, and a batch that it publishes.\<close>

definition sample_replies :: "request list \<Rightarrow> reply list" where
  "sample_replies items = route_replies (revoke_route sample_env mem_add_batch None 5 items new_store)"

definition calling :: "(request list \<Rightarrow> reply list) \<Rightarrow> reply executor" where
  "calling service =
     \<lparr>ex_invoke = (\<lambda>issuer subject args audience.
        if arg_path args = []
        then Inr \<lparr>inv_link = arg_revoke args, inv_task = arg_revoke args, inv_issuer = issuer,
                  inv_command = ''/ucan/revoke''\<rparr>
        else Inl (Foreign ''no path'')),
      ex_execute = (\<lambda>_ _. Inl (Foreign ''unused'')),
      ex_execute_batch = (\<lambda>invs ds.
        Inr (map_of (zip (map inv_task invs) (service (batch_items invs ds))))),
      ex_unpack = (\<lambda>rc. if rc = Success then None else Some (Foreign ''failed''))\<rparr>"

definition sample_executor :: "reply executor" where
  "sample_executor = calling sample_replies"

definition bob_revokes :: invocation where
  "bob_revokes =
     \<lparr>inv_link = Cid ''leaf'', inv_task = Cid ''leaf'', inv_issuer = Did ''bob'',
      inv_command = ''/ucan/revoke''\<rparr>"

lemma sample_batch_replies:
  "sample_replies (batch_items [bob_revokes] [leaf_delegation]) = [Success]"
proof -
  have paths: "revocation_paths cid_bytes (\<lambda>_. TokenValid) (batch_items [bob_revokes] [leaf_delegation]) =
      [Inr [leaf_delegation]]"
    by (simp add: revocation_paths_def batch_items_def recover_revocation_path_def revocation_path_def
        witness_map_def batch_args_of_def bob_revokes_def leaf_delegation_def)
  have items: "batch_items [bob_revokes] [leaf_delegation] =
      [\<lparr>rq_invocation = bob_revokes, rq_args = batch_args_of leaf_delegation,
        rq_delegations = [leaf_delegation]\<rparr>]"
    by (simp add: batch_items_def)
  have "fst (mem_add_batch None 5 [\<lparr>rv_cause = bob_revokes, rv_path = [leaf_delegation]\<rparr>] new_store) = None"
    by (simp add: mem_add_batch_ok)
  then show ?thesis
    using paths
    by (auto simp: sample_replies_def revoke_route_def route_replies_def sample_env_def
        store_revocations_def items split: prod.split)
qed

lemma calling_relays: "relays (calling service) service"
  unfolding relays_def
proof (intro allI impI)
  fix invs ds receipts t rc
  assume "ex_execute_batch (calling service) invs ds = Inr receipts" "receipts t = Some rc"
    and ok: "ex_unpack (calling service) rc = None"
  then have "(t, rc) \<in> set (zip (map inv_task invs) (service (batch_items invs ds)))"
    by (auto simp: calling_def dest: map_of_SomeD)
  then obtain i where "i < length invs" "inv_task (invs ! i) = t" "service (batch_items invs ds) ! i = rc"
    by (auto simp: set_zip)
  moreover have "rc = Success" using ok by (auto simp: calling_def split: if_splits)
  ultimately show "\<exists>i < length invs. inv_task (invs ! i) = t \<and> service (batch_items invs ds) ! i = Success"
    by blast
qed

lemma calling_content_addressed: "content_addressed (calling service)"
  by (auto simp: content_addressed_def calling_def split: if_splits)

lemma calling_publishes:
  assumes "service (batch_items [bob_revokes] [leaf_delegation]) = [Success]"
  shows "batch_invocations sample_client (calling service) (Did ''bob'') [Some leaf_delegation] = Inr [bob_revokes]"
    and "publish_batch sample_client (calling service) (Some (Did ''bob'')) [Some leaf_delegation] = None"
proof -
  show "batch_invocations sample_client (calling service) (Did ''bob'') [Some leaf_delegation] = Inr [bob_revokes]"
    by (simp add: batch_invocations_def calling_def batch_args_of_def bob_revokes_def leaf_delegation_def)
  then show "publish_batch sample_client (calling service) (Some (Did ''bob'')) [Some leaf_delegation] = None"
    using assms by (simp add: publish_batch_def) (simp add: calling_def bob_revokes_def)
qed

lemmas sample_invocations = calling_publishes(1) [where service = sample_replies, OF sample_batch_replies, folded sample_executor_def]

lemma sample_relays:
  "relays sample_executor (\<lambda>items. route_replies (revoke_route sample_env mem_add_batch None 5 items new_store))"
  using calling_relays [of sample_replies] unfolding sample_executor_def sample_replies_def .

theorem publish_batch_revokes_witness:
  "\<exists>x. mem_get None (Cid ''leaf'')
     (write_all mem_add_batch [(None, 9, [sample_revocation ''c''])]
        (route_store (revoke_route sample_env mem_add_batch None 5
           (batch_items [bob_revokes] [leaf_delegation]) new_store))) = Inr x"
proof -
  have "content_addressed sample_executor"
    unfolding sample_executor_def by (rule calling_content_addressed)
  moreover have "publish_batch sample_client sample_executor (Some (Did ''bob'')) [Some leaf_delegation] = None"
    unfolding sample_executor_def by (rule calling_publishes(2) [where service = sample_replies, OF sample_batch_replies])
  ultimately have "\<exists>x. mem_get None (dlg_link leaf_delegation)
     (write_all mem_add_batch [(None, 9, [sample_revocation ''c''])]
        (route_store (revoke_route sample_env mem_add_batch None 5
           (batch_items [bob_revokes] [leaf_delegation]) new_store))) = Inr x"
    using publish_batch_revokes [OF sample_invocations refl mem_invar_new sample_relays,
        where d = leaf_delegation and ws = "[(None, 9, [sample_revocation ''c''])]"] by simp
  then show ?thesis by (simp add: leaf_delegation_def)
qed

end
