(* ===== verification/Memory_Stream.thy ===== *)
theory Memory_Stream
  imports Memory_Store
begin

text \<open>
  \<open>Stream\<close> of \<^verbatim>\<open>pkg/store/memory/store.go\<close>, running beside concurrent writers. The
  critical sections of the store's mutex are the atomic steps; between them any
  other goroutine may move. A stream is delivering the entries of its last snapshot,
  waiting for a notification, or has taken a notification and not yet read the next
  snapshot. A writer reads the clock before it takes the lock, so writers may commit
  in another order than their timestamps. A system-wide clock that never goes back is
  what \<open>time.Now()\<close> reads. The 64-bit counters are bounded in the rules that advance
  them: no more than \<open>2^64\<close> revocations and subscribers in one process.
\<close>

section \<open>State and steps\<close>

datatype phase = Delivering "memory_record list" | Waiting | Woken

text \<open>\<open>sm_out\<close> is the history of what the stream has yielded.\<close>

record stream_state =
  sm_from :: time
  sm_seq :: "64 word"
  sm_phase :: phase
  sm_out :: "memory_record list"

record mem_sys =
  sys_clock :: time
  sys_writers :: "(time \<times> revocation list) list"
  sys_store :: mem_store
  sys_streams :: "64 word \<Rightarrow> stream_state option"

text \<open>Taking the lock at the start of a stream: a snapshot and a new subscriber.\<close>

definition stream_open :: "time \<Rightarrow> mem_store \<Rightarrow> 64 word \<times> stream_state \<times> mem_store" where
  "stream_open from s =
     (let (entries, sequence) = records_from_locked 0 from s;
          subscriber = ms_next_subscriber s + 1
      in (subscriber,
          \<lparr>sm_from = from, sm_seq = sequence, sm_phase = Delivering entries, sm_out = []\<rparr>,
          s\<lparr>ms_next_subscriber := subscriber,
            ms_subscribers := AList.update subscriber False (ms_subscribers s)\<rparr>))"

text \<open>One turn of the delivery loop; the consumer's \<open>yield\<close> returned true.\<close>

definition stream_yield :: "stream_state \<Rightarrow> stream_state" where
  "stream_yield st =
     (case sm_phase st of
        Delivering (e # es) \<Rightarrow> st\<lparr>sm_out := sm_out st @ [e], sm_phase := Delivering es\<rparr>
      | Delivering [] \<Rightarrow> st\<lparr>sm_phase := Waiting\<rparr>
      | p \<Rightarrow> st)"

text \<open>Receiving from the subscriber's channel, then, as a later step, the next snapshot.\<close>

definition stream_wake :: "64 word \<Rightarrow> mem_store \<Rightarrow> mem_store" where
  "stream_wake i s = s\<lparr>ms_subscribers := AList.update i False (ms_subscribers s)\<rparr>"

definition stream_refresh :: "mem_store \<Rightarrow> stream_state \<Rightarrow> stream_state" where
  "stream_refresh s st =
     (let (entries, sequence) = records_from_locked (sm_seq st) (sm_from st) s
      in st\<lparr>sm_phase := Delivering entries, sm_seq := sequence\<rparr>)"

text \<open>The deferred removal of the subscriber, whatever ended the stream.\<close>

definition stream_close :: "64 word \<Rightarrow> mem_store \<Rightarrow> mem_store" where
  "stream_close i s = s\<lparr>ms_subscribers := AList.delete i (ms_subscribers s)\<rparr>"

inductive mem_step :: "mem_sys \<Rightarrow> mem_sys \<Rightarrow> bool" where
  tick: "0 \<le> d \<Longrightarrow> mem_step c (c\<lparr>sys_clock := sys_clock c + d\<rparr>)"
| begin_write:
    "b \<noteq> [] \<Longrightarrow> \<forall>r \<in> set b. rv_path r \<noteq> [] \<Longrightarrow>
     mem_step c (c\<lparr>sys_writers := sys_writers c @ [(sys_clock c, b)]\<rparr>)"
| commit_write:
    "sys_writers c = ws @ (t, b) # ws' \<Longrightarrow>
     unat (ms_next_seq (sys_store c)) + length b < 2 ^ 64 \<Longrightarrow>
     mem_step c (c\<lparr>sys_writers := ws @ ws',
                  sys_store := snd (mem_add_batch None t b (sys_store c))\<rparr>)"
| open_stream:
    "Suc (unat (ms_next_subscriber (sys_store c))) < 2 ^ 64 \<Longrightarrow>
     stream_open from (sys_store c) = (i, st, s) \<Longrightarrow>
     mem_step c (c\<lparr>sys_store := s, sys_streams := (sys_streams c)(i \<mapsto> st)\<rparr>)"
| yield:
    "sys_streams c i = Some st \<Longrightarrow> sm_phase st = Delivering es \<Longrightarrow>
     mem_step c (c\<lparr>sys_streams := (sys_streams c)(i \<mapsto> stream_yield st)\<rparr>)"
| wake:
    "sys_streams c i = Some st \<Longrightarrow> sm_phase st = Waiting \<Longrightarrow>
     map_of (ms_subscribers (sys_store c)) i = Some True \<Longrightarrow>
     mem_step c (c\<lparr>sys_store := stream_wake i (sys_store c),
                  sys_streams := (sys_streams c)(i \<mapsto> st\<lparr>sm_phase := Woken\<rparr>)\<rparr>)"
| refresh:
    "sys_streams c i = Some st \<Longrightarrow> sm_phase st = Woken \<Longrightarrow>
     mem_step c (c\<lparr>sys_streams := (sys_streams c)(i \<mapsto> stream_refresh (sys_store c) st)\<rparr>)"
| close_stream:
    "sys_streams c i = Some st \<Longrightarrow> sm_phase st \<noteq> Woken \<Longrightarrow>
     mem_step c (c\<lparr>sys_store := stream_close i (sys_store c),
                  sys_streams := (sys_streams c)(i := None)\<rparr>)"

definition init_sys :: "time \<Rightarrow> mem_sys" where
  "init_sys t =
     \<lparr>sys_clock = t, sys_writers = [], sys_store = new_store, sys_streams = (\<lambda>_. None)\<rparr>"

definition mem_reachable :: "mem_sys \<Rightarrow> bool" where
  "mem_reachable c \<longleftrightarrow> (\<exists>t > 0. rtranclp mem_step (init_sys t) c)"

inductive_cases mem_step_cases: "mem_step c c'"

section \<open>The invariant\<close>

text \<open>What a stream has taken from the store: yielded, or in the snapshot it is delivering.\<close>

definition collected :: "stream_state \<Rightarrow> memory_record list" where
  "collected st = sm_out st @ (case sm_phase st of Delivering es \<Rightarrow> es | _ \<Rightarrow> [])"

text \<open>
  A stream has collected exactly once every stored record it has to deliver up to
  its sequence number, and when the store has moved past that number a wake-up is
  under way: a notification in the channel, or one taken and not yet acted upon.
\<close>

definition stream_ok :: "mem_store \<Rightarrow> bool \<Rightarrow> stream_state \<Rightarrow> bool" where
  "stream_ok s pending st \<longleftrightarrow>
     sm_seq st \<le> ms_next_seq s \<and>
     distinct (map mr_seq (collected st)) \<and>
     (\<forall>e \<in> set (collected st). mr_seq e \<le> sm_seq st \<and> entry_matches 0 (sm_from st) e) \<and>
     (\<forall>(k, e) \<in> set (ms_records s).
        mr_seq e \<le> sm_seq st \<longrightarrow> entry_matches 0 (sm_from st) e \<longrightarrow> e \<in> set (collected st)) \<and>
     (sm_seq st \<noteq> ms_next_seq s \<longrightarrow> sm_phase st = Woken \<or> pending)"

definition sys_invar :: "mem_sys \<Rightarrow> bool" where
  "sys_invar c \<longleftrightarrow>
     seq_invar (sys_store c) \<and>
     (\<forall>i st. sys_streams c i = Some st \<longrightarrow>
        (\<exists>pending. map_of (ms_subscribers (sys_store c)) i = Some pending \<and>
           stream_ok (sys_store c) pending st))"

lemma sys_invar_init: "sys_invar (init_sys t)"
  by (simp add: sys_invar_def init_sys_def seq_invar_new)

lemma sys_invar_stream:
  assumes "sys_invar c" "sys_streams c i = Some st"
  obtains pending where "map_of (ms_subscribers (sys_store c)) i = Some pending"
    "stream_ok (sys_store c) pending st"
  using assms unfolding sys_invar_def by blast

text \<open>A write adds only records with numbers past the old counter.\<close>

lemma put_record_new:
  assumes "(k, e) \<in> set (ms_records (put_record t r s))" "Suc (unat (ms_next_seq s)) < 2 ^ 64"
  shows "(k, e) \<in> set (ms_records s) \<or> ms_next_seq s < mr_seq e"
  using assms set_update_subset next_seq_greater [of "ms_next_seq s" "ms_next_seq s"]
  by fastforce

lemma fold_store_new:
  assumes "(k, e) \<in> set (ms_records (fold (store_one t) rs s))"
    and "unat (ms_next_seq s) + length rs < 2 ^ 64"
  shows "(k, e) \<in> set (ms_records s) \<or> ms_next_seq s < mr_seq e"
  using assms
proof (induction rs arbitrary: s)
  case Nil
  then show ?case by simp
next
  case (Cons r rs)
  let ?s = "store_one t r s"
  from Cons.prems have room: "Suc (unat (ms_next_seq s)) < 2 ^ 64" by simp
  note le = next_seq_store_one [OF room, of t r]
  have "(k, e) \<in> set (ms_records ?s) \<or> ms_next_seq ?s < mr_seq e"
    using Cons.prems le(2) by (intro Cons.IH) auto
  moreover have "(k, e) \<in> set (ms_records s) \<or> ms_next_seq s < mr_seq e"
    if "(k, e) \<in> set (ms_records ?s)"
    using that put_record_new [OF _ room] by (cases rule: store_one_cases [of t r s]) auto
  ultimately show ?case using le(1) by auto
qed

lemma sys_invar_commit:
  assumes inv: "sys_invar c" and room: "unat (ms_next_seq (sys_store c)) + length b < 2 ^ 64"
  shows "sys_invar (c\<lparr>sys_writers := ws, sys_store := snd (mem_add_batch None t b (sys_store c))\<rparr>)"
proof (cases "fst (mem_add_batch None t b (sys_store c)) = None \<and> b \<noteq> []")
  case False
  then have "snd (mem_add_batch None t b (sys_store c)) = sys_store c"
    by (auto simp: mem_add_batch_effect)
  with inv show ?thesis by (simp add: sys_invar_def)
next
  case True
  let ?s = "sys_store c" and ?f = "fold (store_one t) b (sys_store c)"
  have eff: "snd (mem_add_batch None t b ?s) = notify_all ?f"
    using True by (simp add: mem_add_batch_effect)
  have sq: "seq_invar ?f" and mono: "ms_next_seq ?s \<le> ms_next_seq ?f"
    using seq_invar_fold [OF _ room, of t] inv by (auto simp: sys_invar_def)
  have "stream_ok (notify_all ?f) True st" if "stream_ok ?s p st" for p st
  proof -
    have "e \<in> set (collected st)"
      if "(k, e) \<in> set (ms_records ?f)" "mr_seq e \<le> sm_seq st" "entry_matches 0 (sm_from st) e"
      for k e
    proof -
      have "\<not> ms_next_seq ?s < mr_seq e"
        using that(2) \<open>stream_ok ?s p st\<close> by (auto simp: stream_ok_def)
      with fold_store_new [OF that(1) room] have "(k, e) \<in> set (ms_records ?s)" by blast
      with that(2,3) \<open>stream_ok ?s p st\<close> show ?thesis unfolding stream_ok_def by blast
    qed
    moreover have "sm_seq st \<le> ms_next_seq ?f"
      using mono \<open>stream_ok ?s p st\<close> by (auto simp: stream_ok_def)
    ultimately show ?thesis
      using \<open>stream_ok ?s p st\<close> unfolding stream_ok_def notify_all_simps by blast
  qed
  moreover have "seq_invar (notify_all ?f)" using sq by (simp add: seq_invar_def)
  moreover have "map_of (ms_subscribers (notify_all ?f)) i = Some True"
    if "map_of (ms_subscribers ?s) i = Some p" for i p
    using that by (simp add: map_of_notify_all)
  ultimately show ?thesis
    using inv unfolding sys_invar_def by (simp add: eff) blast
qed

text \<open>A stream depends on the records and the counter of the store only.\<close>

lemma stream_ok_cong:
  "ms_records s' = ms_records s \<Longrightarrow> ms_next_seq s' = ms_next_seq s \<Longrightarrow>
     stream_ok s' pending st = stream_ok s pending st"
  by (simp add: stream_ok_def)

lemma stream_ok_pending: "stream_ok s pending st \<Longrightarrow> stream_ok s True st"
  by (auto simp: stream_ok_def)

lemma collected_refresh:
  "sm_phase st = Woken \<Longrightarrow>
     collected (stream_refresh s st) =
       sm_out st @ fst (records_from_locked (sm_seq st) (sm_from st) s)"
  by (simp add: collected_def stream_refresh_def split_beta)

lemma stream_refresh_simps [simp]:
  "sm_from (stream_refresh s st) = sm_from st"
  "sm_seq (stream_refresh s st) = ms_next_seq s"
  "sm_out (stream_refresh s st) = sm_out st"
  "sm_phase (stream_refresh s st) =
     Delivering (fst (records_from_locked (sm_seq st) (sm_from st) s))"
  by (simp_all add: stream_refresh_def split_beta)

lemma stream_ok_refresh:
  assumes sq: "seq_invar s" and ok: "stream_ok s pending st" and w: "sm_phase st = Woken"
  shows "stream_ok s pending' (stream_refresh s st)"
proof -
  let ?new = "fst (records_from_locked (sm_seq st) (sm_from st) s)"
  have out: "collected st = sm_out st" using w by (simp add: collected_def)
  have old: "mr_seq e \<le> sm_seq st" if "e \<in> set (sm_out st)" for e
    using that ok by (auto simp: stream_ok_def out)
  have new: "sm_seq st < mr_seq e \<and> e \<in> snd ` set (ms_records s) \<and> entry_matches 0 (sm_from st) e"
    if "e \<in> set ?new" for e
    using that by (force simp: set_snapshot entry_matches_def word_gt_0_no intro: le_less_trans [OF word_zero_le])
  have dist: "distinct (map mr_seq (sm_out st @ ?new))"
  proof -
    have "mr_seq ` set (sm_out st) \<inter> mr_seq ` set ?new = {}"
      using old new by (force simp: not_less [symmetric])
    moreover have "distinct (map mr_seq (sm_out st))" using ok by (simp add: stream_ok_def out)
    moreover have "distinct (map mr_seq ?new)" using sq by (rule distinct_snapshot)
    ultimately show ?thesis by auto
  qed
  have bound: "mr_seq e \<le> ms_next_seq s \<and> entry_matches 0 (sm_from st) e"
    if "e \<in> set (sm_out st @ ?new)" for e
  proof (cases "e \<in> set ?new")
    case True
    with new [OF this] sq show ?thesis by (auto simp: seq_invar_def)
  next
    case False
    with that ok show ?thesis by (auto simp: stream_ok_def out)
  qed
  have complete: "e \<in> set (sm_out st @ ?new)"
    if "(k, e) \<in> set (ms_records s)" "entry_matches 0 (sm_from st) e" for k e
  proof (cases "mr_seq e \<le> sm_seq st")
    case True
    with that ok show ?thesis by (auto simp: stream_ok_def out)
  next
    case False
    with that show ?thesis by (force simp: set_snapshot entry_matches_def)
  qed
  show ?thesis
    unfolding stream_ok_def collected_refresh [OF w] stream_refresh_simps
    using dist bound complete by blast
qed

lemma stream_open_eq:
  "stream_open from s =
     (ms_next_subscriber s + 1,
      stream_refresh s \<lparr>sm_from = from, sm_seq = 0, sm_phase = Woken, sm_out = []\<rparr>,
      s\<lparr>ms_next_subscriber := ms_next_subscriber s + 1,
        ms_subscribers := AList.update (ms_next_subscriber s + 1) False (ms_subscribers s)\<rparr>)"
  by (simp add: stream_open_def stream_refresh_def split_beta Let_def)

lemma stream_ok_open:
  assumes "seq_invar s"
  shows "stream_ok s pending
           (stream_refresh s \<lparr>sm_from = from, sm_seq = 0, sm_phase = Woken, sm_out = []\<rparr>)"
  using assms
  by (intro stream_ok_refresh [where pending = True])
    (auto simp: stream_ok_def collected_def seq_invar_def)

lemma stream_ok_yield:
  assumes "stream_ok s pending st" "sm_phase st = Delivering es"
  shows "stream_ok s pending (stream_yield st)"
proof -
  have "collected (stream_yield st) = collected st" "sm_seq (stream_yield st) = sm_seq st"
    "sm_from (stream_yield st) = sm_from st" "sm_phase (stream_yield st) \<noteq> Woken"
    using assms(2) by (auto simp: stream_yield_def collected_def split: list.split)
  with assms show ?thesis by (simp add: stream_ok_def)
qed

lemma stream_ok_wake:
  "stream_ok s pending st \<Longrightarrow> sm_phase st = Waiting \<Longrightarrow>
     stream_ok s pending' (st\<lparr>sm_phase := Woken\<rparr>)"
  by (auto simp: stream_ok_def collected_def)

lemma seq_invar_cong:
  "ms_records s' = ms_records s \<Longrightarrow> ms_next_seq s' = ms_next_seq s \<Longrightarrow>
     seq_invar s' = seq_invar s"
  by (simp add: seq_invar_def)

lemma sys_invar_set_stream:
  assumes inv: "sys_invar c"
    and same: "ms_records s' = ms_records (sys_store c)" "ms_next_seq s' = ms_next_seq (sys_store c)"
    and subs: "map_of (ms_subscribers s') = (map_of (ms_subscribers (sys_store c)))(i \<mapsto> p)"
    and ok: "stream_ok (sys_store c) p st'"
  shows "sys_invar (c\<lparr>sys_store := s', sys_streams := (sys_streams c)(i \<mapsto> st')\<rparr>)"
proof -
  have "\<exists>p. map_of (ms_subscribers s') j = Some p \<and> stream_ok s' p st"
    if "((sys_streams c)(i \<mapsto> st')) j = Some st" for j st
  proof (cases "j = i")
    case True
    with that ok subs show ?thesis by (simp add: stream_ok_cong [OF same])
  next
    case False
    with that have "sys_streams c j = Some st" by simp
    with inv subs False show ?thesis
      by (auto simp: stream_ok_cong [OF same] elim!: sys_invar_stream)
  qed
  moreover have "seq_invar s'" using inv by (simp add: sys_invar_def seq_invar_cong [OF same])
  ultimately show ?thesis by (simp add: sys_invar_def)
qed

lemma sys_invar_keep_store:
  assumes "sys_invar c" "map_of (ms_subscribers (sys_store c)) i = Some p"
    and "stream_ok (sys_store c) p st'"
  shows "sys_invar (c\<lparr>sys_streams := (sys_streams c)(i \<mapsto> st')\<rparr>)"
  using sys_invar_set_stream [OF assms(1) refl refl _ assms(3), of i] assms(2)
  by (simp add: fun_upd_idem)

lemma sys_invar_close:
  assumes "sys_invar c"
  shows "sys_invar (c\<lparr>sys_store := stream_close i (sys_store c), sys_streams := (sys_streams c)(i := None)\<rparr>)"
proof -
  let ?s = "stream_close i (sys_store c)"
  have same: "ms_records ?s = ms_records (sys_store c)" "ms_next_seq ?s = ms_next_seq (sys_store c)"
    by (simp_all add: stream_close_def)
  have subs: "map_of (ms_subscribers ?s) = (map_of (ms_subscribers (sys_store c)))(i := None)"
    by (simp add: stream_close_def delete_conv')
  show ?thesis
    using assms unfolding sys_invar_def
    by (auto simp: stream_ok_cong [OF same] seq_invar_cong [OF same] subs)
qed

lemma sys_invar_step: "mem_step c c' \<Longrightarrow> sys_invar c \<Longrightarrow> sys_invar c'"
proof (induction rule: mem_step.induct)
  case (tick d c)
  then show ?case by (simp add: sys_invar_def)
next
  case (begin_write b c)
  then show ?case by (simp add: sys_invar_def)
next
  case (commit_write c ws t b ws')
  then show ?case by (intro sys_invar_commit)
next
  case (open_stream c start i st s)
  then have sq: "seq_invar (sys_store c)" by (simp add: sys_invar_def)
  from open_stream.hyps(2) show ?case
    unfolding stream_open_eq prod.inject
    using sys_invar_set_stream [OF open_stream.prems, of s i False st] stream_ok_open [OF sq]
    by (auto simp: map_of_update)
next
  case (yield c i st es)
  then obtain p where "map_of (ms_subscribers (sys_store c)) i = Some p" "stream_ok (sys_store c) p st"
    by (rule_tac sys_invar_stream)
  with yield show ?case by (intro sys_invar_keep_store stream_ok_yield)
next
  case (wake c i st)
  then obtain p where "stream_ok (sys_store c) p st" by (rule_tac sys_invar_stream)
  with wake have "stream_ok (sys_store c) False (st\<lparr>sm_phase := Woken\<rparr>)"
    by (intro stream_ok_wake)
  with wake.prems show ?case
    by (intro sys_invar_set_stream) (simp_all add: stream_wake_def map_of_update)
next
  case (refresh c i st)
  then obtain p where p: "map_of (ms_subscribers (sys_store c)) i = Some p"
    and ok: "stream_ok (sys_store c) p st"
    by (rule_tac sys_invar_stream)
  have "seq_invar (sys_store c)" using refresh.prems by (simp add: sys_invar_def)
  then have "stream_ok (sys_store c) p (stream_refresh (sys_store c) st)"
    using ok refresh.hyps(2) by (rule stream_ok_refresh)
  with p refresh.prems show ?case by (intro sys_invar_keep_store)
next
  case (close_stream c i st)
  then show ?case by (intro sys_invar_close)
qed

lemma sys_invar_steps: "rtranclp mem_step c c' \<Longrightarrow> sys_invar c \<Longrightarrow> sys_invar c'"
  by (induction rule: rtranclp_induct) (auto intro: sys_invar_step)

lemma reachable_invar: "mem_reachable c \<Longrightarrow> sys_invar c"
  unfolding mem_reachable_def using sys_invar_steps sys_invar_init by blast

section \<open>What a stream delivers\<close>

text \<open>A stream has delivered every stored record it is about.\<close>

definition caught_up :: "mem_store \<Rightarrow> stream_state \<Rightarrow> bool" where
  "caught_up s st \<longleftrightarrow>
     (\<forall>(k, e) \<in> set (ms_records s). entry_matches 0 (sm_from st) e \<longrightarrow> e \<in> set (sm_out st))"

lemma caught_upI:
  assumes "seq_invar s" "stream_ok s pending st" "sm_phase st = Waiting" "sm_seq st = ms_next_seq s"
  shows "caught_up s st"
  using assms unfolding caught_up_def stream_ok_def seq_invar_def by (fastforce simp: collected_def)

text \<open>
  The steps of one stream: nothing is left to it by the other streams, and no writer or
  clock moves.
\<close>

inductive stream_step :: "64 word \<Rightarrow> mem_sys \<Rightarrow> mem_sys \<Rightarrow> bool" where
  own_yield:
    "sys_streams c i = Some st \<Longrightarrow> sm_phase st = Delivering es \<Longrightarrow>
     stream_step i c (c\<lparr>sys_streams := (sys_streams c)(i \<mapsto> stream_yield st)\<rparr>)"
| own_wake:
    "sys_streams c i = Some st \<Longrightarrow> sm_phase st = Waiting \<Longrightarrow>
     map_of (ms_subscribers (sys_store c)) i = Some True \<Longrightarrow>
     stream_step i c (c\<lparr>sys_store := stream_wake i (sys_store c),
                  sys_streams := (sys_streams c)(i \<mapsto> st\<lparr>sm_phase := Woken\<rparr>)\<rparr>)"
| own_refresh:
    "sys_streams c i = Some st \<Longrightarrow> sm_phase st = Woken \<Longrightarrow>
     stream_step i c (c\<lparr>sys_streams := (sys_streams c)(i \<mapsto> stream_refresh (sys_store c) st)\<rparr>)"

inductive_simps stream_step_iff: "stream_step i c c'"

lemma stream_step_mem: "stream_step i c c' \<Longrightarrow> mem_step c c'"
  by (induction rule: stream_step.induct) (auto intro: mem_step.intros)

lemma stream_steps_mem: "rtranclp (stream_step i) c c' \<Longrightarrow> rtranclp mem_step c c'"
  by (induction rule: rtranclp_induct) (auto intro: stream_step_mem rtranclp.rtrancl_into_rtrancl)

text \<open>A stream that waits with an empty channel.\<close>

definition idle :: "mem_sys \<Rightarrow> 64 word \<Rightarrow> stream_state \<Rightarrow> bool" where
  "idle c i st \<longleftrightarrow> sys_streams c i = Some st \<and> sm_phase st = Waiting \<and>
     map_of (ms_subscribers (sys_store c)) i = Some False"

lemma idle_caught_up:
  assumes "sys_invar c" "idle c i st"
  shows "caught_up (sys_store c) st"
proof -
  have "sys_streams c i = Some st" using assms(2) by (simp add: idle_def)
  then obtain p where "map_of (ms_subscribers (sys_store c)) i = Some p" "stream_ok (sys_store c) p st"
    by (rule sys_invar_stream [OF assms(1)])
  with assms show ?thesis
    by (intro caught_upI) (auto simp: idle_def stream_ok_def sys_invar_def)
qed

lemma idle_no_step: "idle c i st \<Longrightarrow> \<not> stream_step i c c'"
  by (auto simp: idle_def stream_step_iff)

lemma drain:
  "sys_streams c i = Some st \<Longrightarrow> sm_phase st = Delivering es \<Longrightarrow>
     \<exists>c'. rtranclp (stream_step i) c c' \<and> sys_store c' = sys_store c \<and>
       sys_streams c' i = Some (st\<lparr>sm_out := sm_out st @ es, sm_phase := Waiting\<rparr>)"
proof (induction es arbitrary: c st)
  case Nil
  let ?c = "c\<lparr>sys_streams := (sys_streams c)(i \<mapsto> stream_yield st)\<rparr>"
  have "stream_step i c ?c" using Nil by (rule own_yield)
  moreover have "stream_yield st = st\<lparr>sm_out := sm_out st @ [], sm_phase := Waiting\<rparr>"
    using Nil by (simp add: stream_yield_def)
  ultimately show ?case by (intro exI [of _ ?c]) auto
next
  case (Cons e es)
  let ?c = "c\<lparr>sys_streams := (sys_streams c)(i \<mapsto> stream_yield st)\<rparr>"
  have y: "stream_yield st = st\<lparr>sm_out := sm_out st @ [e], sm_phase := Delivering es\<rparr>"
    using Cons.prems by (simp add: stream_yield_def)
  have "stream_step i c ?c" using Cons.prems by (rule own_yield)
  moreover obtain c' where "rtranclp (stream_step i) ?c c'" "sys_store c' = sys_store c"
    "sys_streams c' i = Some (st\<lparr>sm_out := sm_out st @ e # es, sm_phase := Waiting\<rparr>)"
    using Cons.IH [of ?c "stream_yield st"] by (auto simp: y)
  ultimately show ?case by (blast intro: converse_rtranclp_into_rtranclp)
qed

text \<open>From a notification taken to waiting again.\<close>

lemma woken_waits:
  assumes "sys_streams c i = Some st" "sm_phase st = Woken"
  shows "\<exists>c' st'. rtranclp (stream_step i) c c' \<and> sys_store c' = sys_store c \<and>
           sys_streams c' i = Some st' \<and> sm_phase st' = Waiting \<and> sm_from st' = sm_from st"
proof -
  let ?st = "stream_refresh (sys_store c) st"
  let ?c = "c\<lparr>sys_streams := (sys_streams c)(i \<mapsto> ?st)\<rparr>"
  have "stream_step i c ?c" using assms by (rule own_refresh)
  moreover obtain c' st' where "rtranclp (stream_step i) ?c c'" "sys_store c' = sys_store c"
    "sys_streams c' i = Some st'" "sm_phase st' = Waiting" "sm_from st' = sm_from st"
    using drain [of ?c i ?st] by auto
  ultimately show ?thesis by (blast intro: converse_rtranclp_into_rtranclp)
qed

lemma waiting_idle:
  assumes "sys_streams c i = Some st" "sm_phase st = Waiting"
    and "map_of (ms_subscribers (sys_store c)) i = Some p"
  shows "\<exists>c' st'. rtranclp (stream_step i) c c' \<and> ms_records (sys_store c') = ms_records (sys_store c) \<and>
           idle c' i st' \<and> sm_from st' = sm_from st"
proof (cases p)
  case False
  with assms have "idle c i st" by (simp add: idle_def)
  then show ?thesis by blast
next
  case True
  let ?c = "c\<lparr>sys_store := stream_wake i (sys_store c),
    sys_streams := (sys_streams c)(i \<mapsto> st\<lparr>sm_phase := Woken\<rparr>)\<rparr>"
  have step: "stream_step i c ?c" using assms True by (intro own_wake) simp_all
  obtain c' st' where c': "rtranclp (stream_step i) ?c c'" "sys_store c' = sys_store ?c"
    "sys_streams c' i = Some st'" "sm_phase st' = Waiting" "sm_from st' = sm_from st"
    using woken_waits [of ?c i "st\<lparr>sm_phase := Woken\<rparr>"] by auto
  then have "idle c' i st'" by (simp add: idle_def stream_wake_def map_of_update)
  moreover have "ms_records (sys_store c') = ms_records (sys_store c)"
    using c'(2) by (simp add: stream_wake_def)
  moreover have "rtranclp (stream_step i) c c'" using step c'(1) by (rule converse_rtranclp_into_rtranclp)
  ultimately show ?thesis using c'(5) by blast
qed

lemma stream_becomes_idle:
  assumes "sys_invar c" "sys_streams c i = Some st"
  shows "\<exists>c' st'. rtranclp (stream_step i) c c' \<and> ms_records (sys_store c') = ms_records (sys_store c) \<and>
           idle c' i st' \<and> sm_from st' = sm_from st"
proof -
  obtain c1 st1 where c1: "rtranclp (stream_step i) c c1" "sys_store c1 = sys_store c"
    "sys_streams c1 i = Some st1" "sm_phase st1 = Waiting" "sm_from st1 = sm_from st"
  proof (cases "sm_phase st")
    case Waiting
    with assms(2) show thesis by (intro that [of c st]) simp_all
  next
    case Woken
    from woken_waits [OF assms(2) this] show thesis using that by blast
  next
    case (Delivering es)
    from drain [OF assms(2) this] obtain c' where "rtranclp (stream_step i) c c'"
      "sys_store c' = sys_store c"
      "sys_streams c' i = Some (st\<lparr>sm_out := sm_out st @ es, sm_phase := Waiting\<rparr>)" by blast
    then show thesis
      by (intro that [of c' "st\<lparr>sm_out := sm_out st @ es, sm_phase := Waiting\<rparr>"]) simp_all
  qed
  obtain p where "map_of (ms_subscribers (sys_store c1)) i = Some p"
    using assms unfolding c1(2) by (rule sys_invar_stream)
  from waiting_idle [OF c1(3,4) this] obtain c' st' where
    "rtranclp (stream_step i) c1 c'" "ms_records (sys_store c') = ms_records (sys_store c1)"
    "idle c' i st'" "sm_from st' = sm_from st1" by blast
  with c1 show ?thesis by (metis rtranclp_trans)
qed

section \<open>Running a schedule\<close>

text \<open>
  The step relation as an executable function of a scheduler's choice, for building
  concrete reachable states.
\<close>

datatype action =
    Tick time | Begin "revocation list" | Commit nat | Open time
  | Yield "64 word" | Wake "64 word" | Refresh "64 word" | Close "64 word"

fun perform :: "action \<Rightarrow> mem_sys \<Rightarrow> mem_sys option" where
  "perform (Tick d) c = (if 0 \<le> d then Some (c\<lparr>sys_clock := sys_clock c + d\<rparr>) else None)"
| "perform (Begin b) c =
     (if b \<noteq> [] \<and> (\<forall>r \<in> set b. rv_path r \<noteq> [])
      then Some (c\<lparr>sys_writers := sys_writers c @ [(sys_clock c, b)]\<rparr>) else None)"
| "perform (Commit n) c =
     (case drop n (sys_writers c) of
        [] \<Rightarrow> None
      | (t, b) # ws \<Rightarrow>
          if unat (ms_next_seq (sys_store c)) + length b < 2 ^ 64
          then Some (c\<lparr>sys_writers := take n (sys_writers c) @ ws,
                       sys_store := snd (mem_add_batch None t b (sys_store c))\<rparr>)
          else None)"
| "perform (Open from) c =
     (case stream_open from (sys_store c) of
        (i, st, s) \<Rightarrow>
          if Suc (unat (ms_next_subscriber (sys_store c))) < 2 ^ 64
          then Some (c\<lparr>sys_store := s, sys_streams := (sys_streams c)(i \<mapsto> st)\<rparr>) else None)"
| "perform (Yield i) c =
     (case sys_streams c i of
        None \<Rightarrow> None
      | Some st \<Rightarrow>
          (case sm_phase st of
             Delivering es \<Rightarrow> Some (c\<lparr>sys_streams := (sys_streams c)(i \<mapsto> stream_yield st)\<rparr>)
           | _ \<Rightarrow> None))"
| "perform (Wake i) c =
     (case sys_streams c i of
        None \<Rightarrow> None
      | Some st \<Rightarrow>
          if sm_phase st = Waiting \<and> map_of (ms_subscribers (sys_store c)) i = Some True
          then Some (c\<lparr>sys_store := stream_wake i (sys_store c),
                       sys_streams := (sys_streams c)(i \<mapsto> st\<lparr>sm_phase := Woken\<rparr>)\<rparr>)
          else None)"
| "perform (Refresh i) c =
     (case sys_streams c i of
        None \<Rightarrow> None
      | Some st \<Rightarrow>
          if sm_phase st = Woken
          then Some (c\<lparr>sys_streams := (sys_streams c)(i \<mapsto> stream_refresh (sys_store c) st)\<rparr>)
          else None)"
| "perform (Close i) c =
     (case sys_streams c i of
        None \<Rightarrow> None
      | Some st \<Rightarrow>
          if sm_phase st \<noteq> Woken
          then Some (c\<lparr>sys_store := stream_close i (sys_store c),
                       sys_streams := (sys_streams c)(i := None)\<rparr>)
          else None)"

lemma perform_step: "perform a c = Some c' \<Longrightarrow> mem_step c c'"
proof (cases a)
  case (Commit n)
  assume c': "perform a c = Some c'"
  show ?thesis
  proof (cases "drop n (sys_writers c)")
    case Nil
    with c' Commit show ?thesis by simp
  next
    case (Cons w ws)
    obtain t b where w: "w = (t, b)" by (cases w)
    have "sys_writers c = take n (sys_writers c) @ (t, b) # ws"
      using Cons w by (metis append_take_drop_id)
    with c' Commit Cons w show ?thesis
      by (auto split: if_splits intro: mem_step.commit_write)
  qed
next
  case (Open start)
  assume "perform a c = Some c'"
  with Open show ?thesis
    by (cases "stream_open start (sys_store c)")
      (auto intro: mem_step.open_stream split: if_splits)
next
  case (Wake i)
  assume "perform a c = Some c'"
  with Wake show ?thesis by (auto intro: mem_step.wake split: if_splits option.splits)
qed (auto intro: mem_step.intros split: if_splits option.splits phase.splits)

fun run_schedule :: "action list \<Rightarrow> mem_sys \<Rightarrow> mem_sys option" where
  "run_schedule [] c = Some c"
| "run_schedule (a # as) c =
     (case perform a c of None \<Rightarrow> None | Some c' \<Rightarrow> run_schedule as c')"

lemma run_schedule_steps: "run_schedule as c = Some c' \<Longrightarrow> rtranclp mem_step c c'"
  by (induction as c rule: run_schedule.induct)
    (auto split: option.splits dest: perform_step intro: converse_rtranclp_into_rtranclp)

lemma run_schedule_reachable:
  "run_schedule as (init_sys t) = Some c \<Longrightarrow> 0 < t \<Longrightarrow> mem_reachable c"
  unfolding mem_reachable_def by (blast dest: run_schedule_steps)

definition revocation_for :: "string \<Rightarrow> string \<Rightarrow> revocation" where
  "revocation_for d c =
     \<lparr>rv_cause = sample_cause c, rv_path = [sample_delegation\<lparr>dlg_link := Cid d\<rparr>]\<rparr>"

text \<open>
  Two writers: the first reads the clock at 1, the second at 2, and the second takes
  the lock first. A stream that is open throughout delivers them in that order.
\<close>

definition overtaking :: "action list" where
  "overtaking =
     [Begin [revocation_for ''d1'' ''c1''], Tick 1, Begin [revocation_for ''d2'' ''c2''],
      Open 0, Yield 1, Commit 1, Wake 1, Refresh 1, Yield 1, Yield 1,
      Commit 0, Wake 1, Refresh 1, Yield 1, Yield 1]"

lemmas schedule_defs =
  init_sys_def new_store_def stream_open_def stream_yield_def stream_wake_def
  stream_refresh_def stream_close_def records_from_locked_def entry_matches_def
  entry_key_def mem_add_batch_def notify_all_def store_one_def put_record_def
  revoked_link_def cause_link_def record_of_def revocation_for_def sample_defs

lemma overtaken_run:
  "\<exists>c st. run_schedule overtaking (init_sys 1) = Some c \<and> sys_streams c 1 = Some st \<and>
     map (rr_recorded_at \<circ> mr_record) (sm_out st) = [2, 1]"
  by (simp add: overtaking_def schedule_defs)

section \<open>Properties of the streams\<close>

lemma overtaken_witness:
  obtains c st where "mem_reachable c" "sys_streams c 1 = Some st"
  using overtaken_run run_schedule_reachable [of overtaking 1] by auto

text \<open>C18: Over the life of a stream no stored record is delivered twice, and everything
  delivered was recorded on or after the stream's start time, the boundary included.\<close>

theorem mem_stream_delivers_once:
  assumes "mem_reachable c" and "sys_streams c i = Some st"
  shows "distinct (map mr_seq (sm_out st)) \<and>
         (\<forall>e \<in> set (sm_out st). sm_from st = 0 \<or> sm_from st \<le> rr_recorded_at (mr_record e))"
proof -
  obtain p where "stream_ok (sys_store c) p st"
    using reachable_invar [OF assms(1)] assms(2) by (rule sys_invar_stream)
  then show ?thesis by (fastforce simp: stream_ok_def collected_def entry_matches_def not_less)
qed

theorem mem_stream_delivers_once_witness:
  "\<exists>c st. mem_reachable c \<and> sys_streams c 1 = Some st \<and> distinct (map mr_seq (sm_out st))"
  using overtaken_witness mem_stream_delivers_once by metis

text \<open>C8: No wake-up is lost: a stream that has not taken a stored record from the store, that is,
  has neither yielded it nor has it in the snapshot it is delivering, has a notification in
  its channel or has taken one and is about to read a snapshot.\<close>

theorem mem_stream_no_lost_wakeup:
  assumes "mem_reachable c" and "sys_streams c i = Some st"
    and "(k, e) \<in> set (ms_records (sys_store c))" and "entry_matches 0 (sm_from st) e"
    and "e \<notin> set (collected st)"
  shows "sm_phase st = Woken \<or> map_of (ms_subscribers (sys_store c)) i = Some True"
proof -
  have inv: "sys_invar c" using assms(1) by (rule reachable_invar)
  then obtain p where p: "map_of (ms_subscribers (sys_store c)) i = Some p"
    "stream_ok (sys_store c) p st"
    using assms(2) by (rule sys_invar_stream)
  have "mr_seq e \<le> ms_next_seq (sys_store c)"
    using inv assms(3) by (auto simp: sys_invar_def seq_invar_def)
  moreover have "\<not> mr_seq e \<le> sm_seq st"
    using p(2) assms(3-5) unfolding stream_ok_def by blast
  ultimately have "sm_seq st \<noteq> ms_next_seq (sys_store c)" by auto
  with p show ?thesis by (auto simp: stream_ok_def)
qed

lemma committed_unseen_run:
  "\<exists>c st e. run_schedule [Begin [revocation_for ''d1'' ''c1''], Open 0, Commit 0] (init_sys 1) = Some c \<and>
     sys_streams c 1 = Some st \<and> (Cid ''d1'', e) \<in> set (ms_records (sys_store c)) \<and>
     entry_matches 0 (sm_from st) e \<and> e \<notin> set (collected st) \<and> sm_phase st \<noteq> Woken"
  by (simp add: schedule_defs collected_def)

theorem mem_stream_no_lost_wakeup_witness:
  "\<exists>c. mem_reachable c \<and> map_of (ms_subscribers (sys_store c)) 1 = Some True"
proof -
  obtain c st e where c:
    "run_schedule [Begin [revocation_for ''d1'' ''c1''], Open 0, Commit 0] (init_sys 1) = Some c"
    "sys_streams c 1 = Some st" "(Cid ''d1'', e) \<in> set (ms_records (sys_store c))"
    "entry_matches 0 (sm_from st) e" "e \<notin> set (collected st)" "sm_phase st \<noteq> Woken"
    using committed_unseen_run by blast
  have "mem_reachable c" using c(1) by (rule run_schedule_reachable) simp
  with mem_stream_no_lost_wakeup [OF this c(2-5)] c(6) show ?thesis by blast
qed

text \<open>C19: A stream catches up by itself: from every reachable state, without a step of any
  other stream or writer, it comes to rest, waiting with an empty channel, and has then
  delivered every stored record recorded on or after its start time.\<close>

theorem mem_stream_catches_up:
  assumes "mem_reachable c" and "sys_streams c i = Some st"
  shows "\<exists>c' st'. rtranclp (stream_step i) c c' \<and>
           ms_records (sys_store c') = ms_records (sys_store c) \<and>
           sys_streams c' i = Some st' \<and> sm_from st' = sm_from st \<and>
           (\<forall>c''. \<not> stream_step i c' c'') \<and>
           (\<forall>(k, e) \<in> set (ms_records (sys_store c)).
              entry_matches 0 (sm_from st) e \<longrightarrow> e \<in> set (sm_out st'))"
proof -
  note inv = reachable_invar [OF assms(1)]
  obtain c' st' where c': "rtranclp (stream_step i) c c'"
    "ms_records (sys_store c') = ms_records (sys_store c)" "idle c' i st'" "sm_from st' = sm_from st"
    using stream_becomes_idle [OF inv assms(2)] by blast
  have "caught_up (sys_store c') st'"
    using sys_invar_steps [OF stream_steps_mem [OF c'(1)] inv] c'(3) by (rule idle_caught_up)
  moreover have "sys_streams c' i = Some st'" using c'(3) by (simp add: idle_def)
  moreover have "\<forall>c''. \<not> stream_step i c' c''" using idle_no_step [OF c'(3)] by blast
  ultimately show ?thesis
    by (intro exI [of _ c'] exI [of _ st'] conjI) (use c'(1,2,4) in \<open>simp_all add: caught_up_def\<close>)
qed

theorem mem_stream_catches_up_witness:
  "\<exists>c c' st'. mem_reachable c \<and> rtranclp (stream_step 1) c c' \<and> sys_streams c' 1 = Some st'"
  using overtaken_witness mem_stream_catches_up by metis

text \<open>Records are not always delivered in the order of their timestamps: a writer that
  read the clock earlier can take the lock later, and an open stream then delivers the
  record with the earlier time after the other.\<close>

theorem mem_stream_out_of_order:
  "\<exists>c i st. mem_reachable c \<and> sys_streams c i = Some st \<and>
     \<not> sorted (map (\<lambda>e. rr_recorded_at (mr_record e)) (sm_out st))"
proof -
  obtain c st where "run_schedule overtaking (init_sys 1) = Some c" "sys_streams c 1 = Some st"
    and out: "map (rr_recorded_at \<circ> mr_record) (sm_out st) = [2, 1]"
    using overtaken_run by (elim exE conjE)
  have "mem_reachable c"
    using \<open>run_schedule overtaking (init_sys 1) = Some c\<close> by (rule run_schedule_reachable) simp
  moreover have "\<not> sorted (map (\<lambda>e. rr_recorded_at (mr_record e)) (sm_out st))"
    using out by (simp add: comp_def)
  ultimately show ?thesis using \<open>sys_streams c 1 = Some st\<close> by blast
qed

end
