(* ===== verification/Postgres_Stream.thy ===== *)
theory Postgres_Stream
  imports Postgres_Store
begin

text \<open>
  The polling stream of \<^verbatim>\<open>pkg/store/postgres/store.go\<close>. One turn of its loop checks the
  context, reads the database clock, reads the rows from its cursor on, yields those it has
  not seen, moves the cursor up to the settle window and waits. What the context, the clock
  and the driver answer to a turn is a record, so every way a turn can fail is a branch; a
  consumer that stops iterating is a prefix of what the stream yields. Which rows a query
  can bring is a relation to the table that is visible when it runs, in which rows may
  appear late and out of order. Delivery without duplicates needs only that rows do not
  change; delivery without gaps needs the settle window to hold; delivery in the order of
  the timestamps needs rows to become visible in that order.
\<close>

section \<open>Reading rows\<close>

text \<open>The query of \<open>recordsFrom\<close>: WHERE recorded_at >= cursor ORDER BY recorded_at, id.\<close>

definition rows_from :: "time \<Rightarrow> table \<Rightarrow> row list" where
  "rows_from cursor s = sort_key row_key (filter (\<lambda>r. cursor \<le> row_recorded_at r) s)"

text \<open>
  The driver's answer: an error of the query, or what \<open>Scan\<close> gives at each row and what
  \<open>Err\<close> gives after the last.
\<close>

type_synonym answer = "(row result list \<times> error option) result"

fun read_rows :: "ucan_lib \<Rightarrow> row result list \<Rightarrow> error option \<Rightarrow> revocation_record result list" where
  "read_rows ul [] end_err =
     (case end_err of None \<Rightarrow> [] | Some e \<Rightarrow> [Inl (Wrap ''iterating revocations'' e)])"
| "read_rows ul (Inl e # rows) end_err = [Inl (Wrap ''scanning revocation'' e)]"
| "read_rows ul (Inr row # rows) end_err =
     (case decode_row ul row of
        Inl e \<Rightarrow> [Inl (Wrap ''decoding revocation'' e)]
      | Inr rec \<Rightarrow> Inr rec # read_rows ul rows end_err)"

definition records_from :: "ucan_lib \<Rightarrow> (time \<Rightarrow> answer) \<Rightarrow> time \<Rightarrow> revocation_record result list" where
  "records_from ul query cursor =
     (case query cursor of
        Inl e \<Rightarrow> [Inl (Wrap ''querying revocations'' e)]
      | Inr (rows, end_err) \<Rightarrow> read_rows ul rows end_err)"

section \<open>The loop\<close>

definition stream_settle_window :: time where
  "stream_settle_window = 10 * second"

record pg_stream =
  ps_cursor :: time
  ps_seen :: "(cid \<times> time) list"
  ps_out :: "revocation_record list"

definition pg_open :: "time \<Rightarrow> pg_stream" where
  "pg_open from = \<lparr>ps_cursor = from, ps_seen = [], ps_out = []\<rparr>"

text \<open>
  What a turn meets: the context's error at its start, the clock, the driver's answer for
  any cursor, and the context's error if it is cancelled while waiting for the ticker.
\<close>

record pg_turn =
  pt_ctx :: "error option"
  pt_clock :: "time result"
  pt_query :: "time \<Rightarrow> answer"
  pt_wait :: "error option"

fun pg_deliver :: "revocation_record result list \<Rightarrow> pg_stream \<Rightarrow> error option \<times> pg_stream" where
  "pg_deliver [] st = (None, st)"
| "pg_deliver (Inl e # items) st = (Some e, st)"
| "pg_deliver (Inr rec # items) st =
     (let link = inv_link (rr_cause rec) in
      if link \<in> fst ` set (ps_seen st) then pg_deliver items st
      else pg_deliver items
             (st\<lparr>ps_out := ps_out st @ [rec],
                 ps_seen := AList.update link (rr_recorded_at rec) (ps_seen st)\<rparr>))"

definition pg_advance :: "time \<Rightarrow> pg_stream \<Rightarrow> pg_stream" where
  "pg_advance db_now st =
     (let horizon = db_now - stream_settle_window in
      if horizon > ps_cursor st
      then st\<lparr>ps_cursor := horizon,
              ps_seen := filter (\<lambda>(link, recorded_at). \<not> recorded_at < horizon) (ps_seen st)\<rparr>
      else st)"

definition pg_poll :: "ucan_lib \<Rightarrow> pg_turn \<Rightarrow> pg_stream \<Rightarrow> error option \<times> pg_stream" where
  "pg_poll ul p st =
     (case pt_ctx p of
        Some e \<Rightarrow> (Some e, st)
      | None \<Rightarrow>
        (case pt_clock p of
           Inl e \<Rightarrow> (Some (Wrap ''reading database clock'' e), st)
         | Inr db_now \<Rightarrow>
           (case pg_deliver (records_from ul (pt_query p) (ps_cursor st)) st of
              (Some e, st') \<Rightarrow> (Some e, st')
            | (None, st') \<Rightarrow> (pt_wait p, pg_advance db_now st'))))"

text \<open>The turns of a stream, until one of them fails.\<close>

fun pg_polls :: "ucan_lib \<Rightarrow> pg_turn list \<Rightarrow> pg_stream \<Rightarrow> error option \<times> pg_stream" where
  "pg_polls ul [] st = (None, st)"
| "pg_polls ul (p # ps) st =
     (case pg_poll ul p st of
        (Some e, st') \<Rightarrow> (Some e, st')
      | (None, st') \<Rightarrow> pg_polls ul ps st')"

lemma pg_polls_snoc:
  "pg_polls ul (ps @ [p]) st =
     (case pg_polls ul ps st of (Some e, st') \<Rightarrow> (Some e, st') | (None, st') \<Rightarrow> pg_poll ul p st')"
  by (induction ps arbitrary: st) (auto split: prod.splits option.splits)

text \<open>What the stream yields to its consumer: records, and at last the error it ends with.\<close>

definition pg_stream_items :: "ucan_lib \<Rightarrow> pg_turn list \<Rightarrow> time \<Rightarrow> revocation_record result list" where
  "pg_stream_items ul ps from =
     (case pg_polls ul ps (pg_open from) of
        (None, st) \<Rightarrow> map Inr (ps_out st)
      | (Some e, st) \<Rightarrow> map Inr (ps_out st) @ [Inl e])"

section \<open>What a stream can meet\<close>

text \<open>
  A turn that observes the table \<open>T\<close>: its query brings the rows the statement selects, in
  order, up to the point where the driver fails, if it does.
\<close>

definition observes :: "table \<Rightarrow> pg_turn \<Rightarrow> bool" where
  "observes T p \<longleftrightarrow>
     (\<forall>cursor rows end_err. pt_query p cursor = Inr (rows, end_err) \<longrightarrow>
        (\<exists>n fails. rows = map Inr (take n (rows_from cursor T)) @ map Inl fails \<and>
           (fails = [] \<and> end_err = None \<longrightarrow> length (rows_from cursor T) \<le> n)))"

text \<open>The errors a turn can fail with, from outside the stream.\<close>

definition turn_error :: "pg_turn \<Rightarrow> error \<Rightarrow> bool" where
  "turn_error p e \<longleftrightarrow>
     pt_ctx p = Some e \<or> pt_wait p = Some e \<or>
     (\<exists>x. pt_clock p = Inl x \<and> e = Wrap ''reading database clock'' x) \<or>
     (\<exists>cursor x. pt_query p cursor = Inl x \<and> e = Wrap ''querying revocations'' x) \<or>
     (\<exists>cursor rows end_err x. pt_query p cursor = Inr (rows, end_err) \<and>
        (Inl x \<in> set rows \<and> e = Wrap ''scanning revocation'' x \<or>
         end_err = Some x \<and> e = Wrap ''iterating revocations'' x))"

text \<open>
  The history of the database a stream observes: rows stay as they are, and are well formed.
\<close>

definition growing :: "ucan_lib \<Rightarrow> (table \<times> pg_turn) list \<Rightarrow> bool" where
  "growing ul ps \<longleftrightarrow>
     sorted_wrt (\<lambda>p q. set (fst p) \<subseteq> set (fst q)) ps \<and>
     (\<forall>(T, p) \<in> set ps. pg_invar ul T \<and> observes T p)"

text \<open>
  No row becomes visible later than the window allows: one that is older than a turn's
  clock by more than the window was visible to that turn.
\<close>

definition settled :: "(table \<times> pg_turn) list \<Rightarrow> bool" where
  "settled ps \<longleftrightarrow>
     sorted_wrt (\<lambda>p q. \<forall>now row. pt_clock (snd p) = Inr now \<longrightarrow> row \<in> set (fst q) \<longrightarrow>
        row_recorded_at row < now - stream_settle_window \<longrightarrow> row \<in> set (fst p)) ps"

text \<open>Rows become visible in the order of their keys.\<close>

definition in_commit_order :: "(table \<times> pg_turn) list \<Rightarrow> bool" where
  "in_commit_order ps \<longleftrightarrow>
     sorted_wrt (\<lambda>p q. \<forall>row \<in> set (fst p). \<forall>row' \<in> set (fst q) - set (fst p).
        row_key row < row_key row') ps"

text \<open>The cursors the turns can move to.\<close>

definition horizons :: "(table \<times> pg_turn) list \<Rightarrow> time set" where
  "horizons ps = {now - stream_settle_window | now. Inr now \<in> (\<lambda>q. pt_clock (snd q)) ` set ps}"

lemma horizonsD: "c \<in> horizons ps \<Longrightarrow> \<exists>q now. q \<in> set ps \<and> pt_clock (snd q) = Inr now \<and>
    c = now - stream_settle_window"
  by (auto simp: horizons_def image_iff) metis

lemma horizons_snoc:
  "c \<in> horizons ps \<Longrightarrow> c \<in> horizons (ps @ [q])"
  "pt_clock (snd q) = Inr now \<Longrightarrow> now - stream_settle_window \<in> horizons (ps @ [q])"
  by (auto simp: horizons_def image_iff)

text \<open>The table the last turn saw.\<close>

definition last_table :: "(table \<times> pg_turn) list \<Rightarrow> table" where
  "last_table ps = (if ps = [] then [] else fst (last ps))"

lemma last_table_simps [simp]: "last_table [] = []" "last_table (ps @ [q]) = fst q"
  by (simp_all add: last_table_def)

lemma history_snoc:
  "growing ul (ps @ [(T, p)]) \<longleftrightarrow>
     growing ul ps \<and> (\<forall>q \<in> set ps. set (fst q) \<subseteq> set T) \<and> pg_invar ul T \<and> observes T p"
  "settled (ps @ [(T, p)]) \<longleftrightarrow>
     settled ps \<and> (\<forall>q \<in> set ps. \<forall>now row. pt_clock (snd q) = Inr now \<longrightarrow> row \<in> set T \<longrightarrow>
        row_recorded_at row < now - stream_settle_window \<longrightarrow> row \<in> set (fst q))"
  "in_commit_order (ps @ [(T, p)]) \<longleftrightarrow>
     in_commit_order ps \<and> (\<forall>q \<in> set ps. \<forall>row \<in> set (fst q). \<forall>row' \<in> set T - set (fst q).
        row_key row < row_key row')"
  by (auto simp: growing_def settled_def in_commit_order_def sorted_wrt_append)

section \<open>What a stream has delivered\<close>

definition row_record :: "ucan_lib \<Rightarrow> row \<Rightarrow> revocation_record" where
  "row_record ul row = projr (decode_row ul row)"

abbreviation row_link :: "ucan_lib \<Rightarrow> row \<Rightarrow> cid" where
  "row_link ul row \<equiv> inv_link (rr_cause (row_record ul row))"

text \<open>The rows \<open>R\<close> a stream has delivered from the table \<open>T\<close>.\<close>

definition delivered :: "ucan_lib \<Rightarrow> time \<Rightarrow> table \<Rightarrow> pg_stream \<Rightarrow> row list \<Rightarrow> bool" where
  "delivered ul from T st R \<longleftrightarrow>
     ps_out st = map (row_record ul) R \<and> distinct R \<and> set R \<subseteq> set T \<and> from \<le> ps_cursor st \<and>
     (\<forall>row \<in> set R. from \<le> row_recorded_at row \<and>
        (row_recorded_at row < ps_cursor st \<or>
         (row_link ul row, row_recorded_at row) \<in> set (ps_seen st))) \<and>
     (\<forall>(l, t) \<in> set (ps_seen st). \<exists>row \<in> set R. l = row_link ul row \<and> t = row_recorded_at row)"

lemma update_new: "k \<notin> fst ` set al \<Longrightarrow> AList.update k v al = al @ [(k, v)]"
  by (induction al) auto

lemma set_rows_from: "set (rows_from c s) = {r \<in> set s. c \<le> row_recorded_at r}"
  by (auto simp: rows_from_def)

context ucan_codec
begin

lemma row_record_of:
  assumes "pg_invar ul T" "row \<in> set T"
  shows "decode_row ul row = Inr (row_record ul row)"
    "rr_recorded_at (row_record ul row) = row_recorded_at row"
    "cid_text ul (row_link ul row) = row_id row"
proof -
  obtain r where r: "row_of ul r row" using assms by (auto simp: pg_invar_def)
  note decode = decode_row_of [OF r]
  then show "decode_row ul row = Inr (row_record ul row)"
    "rr_recorded_at (row_record ul row) = row_recorded_at row"
    by (simp_all add: row_record_def)
  show "cid_text ul (row_link ul row) = row_id row"
    using decode r by (simp add: row_record_def row_of_def cause_link_def)
qed

lemma row_link_inj:
  assumes "pg_invar ul T" "row \<in> set T" "row' \<in> set T" "row_link ul row = row_link ul row'"
  shows "row = row'"
proof -
  have "row_id row = row_id row'"
    using row_record_of(3) [OF assms(1,2)] row_record_of(3) [OF assms(1,3)] assms(4) by simp
  with assms(1-3) show ?thesis by (auto simp: pg_invar_def distinct_map inj_on_def)
qed

lemma read_rows_decoded:
  assumes "pg_invar ul T" "set rows \<subseteq> set T"
  shows "read_rows ul (map Inr rows @ rest) end_err =
    map (\<lambda>row. Inr (row_record ul row)) rows @ read_rows ul rest end_err"
  using assms(2) row_record_of(1) [OF assms(1)] by (induction rows) auto

lemma deliver_rows:
  assumes "pg_invar ul T" "set rows \<subseteq> set T" "distinct rows"
    and "\<forall>row \<in> set rows. ps_cursor st \<le> row_recorded_at row" and "delivered ul from T st R"
  shows "\<exists>st'. pg_deliver (map (\<lambda>row. Inr (row_record ul row)) rows @ rest) st = pg_deliver rest st' \<and>
           ps_cursor st' = ps_cursor st \<and> delivered ul from T st' (R @ filter (\<lambda>row. row \<notin> set R) rows)"
  using assms(2-)
proof (induction rows arbitrary: st R)
  case Nil
  then show ?case by auto
next
  case (Cons row rows)
  let ?link = "row_link ul row"
  have row: "row \<in> set T" "rr_recorded_at (row_record ul row) = row_recorded_at row"
    using Cons.prems(1) row_record_of [OF assms(1)] by auto
  have inv: "delivered ul from T st R" by (rule Cons.prems(4))
  show ?case
  proof (cases "?link \<in> fst ` set (ps_seen st)")
    case True
    then obtain row' where "row' \<in> set R" "?link = row_link ul row'"
      using inv by (fastforce simp: delivered_def)
    then have "row \<in> set R"
      using row_link_inj [OF assms(1) row(1)] inv by (auto simp: delivered_def)
    with True Cons.IH [of st R] Cons.prems show ?thesis by (auto simp: Let_def)
  next
    case False
    let ?st = "st\<lparr>ps_out := ps_out st @ [row_record ul row],
      ps_seen := AList.update ?link (row_recorded_at row) (ps_seen st)\<rparr>"
    have new: "row \<notin> set R"
      using False inv Cons.prems(3) by (force simp: delivered_def)
    moreover have "from \<le> row_recorded_at row"
      using inv Cons.prems(3) by (auto simp: delivered_def)
    ultimately have "delivered ul from T ?st (R @ [row])"
      using inv False row(1) by (auto simp: delivered_def update_new)
    moreover have "filter (\<lambda>r. r \<notin> set (R @ [row])) rows = filter (\<lambda>r. r \<notin> set R) rows"
      using Cons.prems(2) by (auto intro: filter_cong)
    ultimately show ?thesis
      using Cons.IH [of ?st "R @ [row]"] Cons.prems row(2) False new by (auto simp: Let_def)
  qed
qed

lemma delivered_advance:
  assumes "delivered ul from T st R"
  shows "delivered ul from T (pg_advance now st) R"
  using assms by (fastforce simp: delivered_def pg_advance_def Let_def)

text \<open>The records a turn reads, and how reading them ends.\<close>

lemma records_from_observed:
  assumes "pg_invar ul T" "observes T p"
  obtains rows rest where "records_from ul (pt_query p) c = map (\<lambda>row. Inr (row_record ul row)) rows @ rest"
    and "\<exists>n. rows = take n (rows_from c T)"
    and "rest = [] \<and> rows = rows_from c T \<or> (\<exists>e. rest = [Inl e] \<and> turn_error p e)"
proof (cases "pt_query p c")
  case (Inl x)
  then show thesis
    by (intro that [of "[]" "[Inl (Wrap ''querying revocations'' x)]"])
      (auto simp: records_from_def turn_error_def intro: exI [of _ 0])
next
  case (Inr a)
  obtain all end_err where a: "a = (all, end_err)" by (cases a)
  obtain n fails where all: "all = map Inr (take n (rows_from c T)) @ map Inl fails"
    "fails = [] \<and> end_err = None \<longrightarrow> length (rows_from c T) \<le> n"
    using assms(2) Inr a unfolding observes_def by blast
  let ?rest = "read_rows ul (map Inl fails) end_err"
  have "set (take n (rows_from c T)) \<subseteq> set T" using set_rows_from by (auto dest: in_set_takeD)
  then have "records_from ul (pt_query p) c =
      map (\<lambda>row. Inr (row_record ul row)) (take n (rows_from c T)) @ ?rest"
    using Inr a all(1) read_rows_decoded [OF assms(1)] by (simp add: records_from_def)
  moreover have "?rest = [] \<and> take n (rows_from c T) = rows_from c T \<or>
      (\<exists>e. ?rest = [Inl e] \<and> turn_error p e)"
  proof (cases fails)
    case Nil
    then show ?thesis using Inr a all(2) by (cases end_err) (auto simp: turn_error_def)
  next
    case (Cons x xs)
    then have "Inl x \<in> set all" using all(1) by simp
    with Inr a Cons show ?thesis by (auto simp: turn_error_def)
  qed
  ultimately show thesis by (intro that) blast+
qed

lemma distinct_rows_from: "pg_invar ul T \<Longrightarrow> distinct (rows_from c T)"
  by (auto simp: rows_from_def pg_invar_def distinct_map)

lemma poll_delivers:
  assumes "pg_invar ul T" "observes T p" "delivered ul from T0 st R" "set T0 \<subseteq> set T"
  obtains err st' rows where "pg_poll ul p st = (err, st')"
    and "delivered ul from T st' (R @ filter (\<lambda>row. row \<notin> set R) rows)"
    and "\<exists>n. rows = take n (rows_from (ps_cursor st) T)"
    and "err = None \<longrightarrow> rows = rows_from (ps_cursor st) T \<and> (\<exists>now. pt_clock p = Inr now \<and>
      ps_cursor st' \<in> {ps_cursor st, now - stream_settle_window})"
    and "\<forall>e. err = Some e \<longrightarrow> turn_error p e"
proof -
  let ?c = "ps_cursor st"
  have inv: "delivered ul from T st R" using assms(3,4) by (auto simp: delivered_def)
  show thesis
  proof (cases "pt_ctx p = None \<and> (\<exists>now. pt_clock p = Inr now)")
    case False
    then obtain e where "pg_poll ul p st = (Some e, st)" "turn_error p e"
      by (cases "pt_ctx p"; cases "pt_clock p") (auto simp: pg_poll_def turn_error_def)
    with inv show thesis by (intro that [of "Some e" st "[]"]) (auto intro: exI [of _ 0])
  next
    case True
    then obtain now where now: "pt_ctx p = None" "pt_clock p = Inr now" by blast
    obtain rows rest where read: "records_from ul (pt_query p) ?c =
        map (\<lambda>row. Inr (row_record ul row)) rows @ rest"
      and rows: "\<exists>n. rows = take n (rows_from ?c T)"
      and rest: "rest = [] \<and> rows = rows_from ?c T \<or> (\<exists>e. rest = [Inl e] \<and> turn_error p e)"
      using records_from_observed [OF assms(1,2)] by blast
    have "set rows \<subseteq> set (rows_from ?c T)" "distinct rows"
      using rows distinct_rows_from [OF assms(1)] by (auto dest: in_set_takeD)
    then obtain st' where st': "pg_deliver (map (\<lambda>row. Inr (row_record ul row)) rows @ rest) st =
        pg_deliver rest st'" "ps_cursor st' = ?c"
      "delivered ul from T st' (R @ filter (\<lambda>row. row \<notin> set R) rows)"
      using deliver_rows [OF assms(1) _ _ _ inv, of rows rest] set_rows_from by blast
    from rest show thesis
    proof
      assume "rest = [] \<and> rows = rows_from ?c T"
      then show thesis
        using st' now read rows delivered_advance [OF st'(3), of now]
        by (intro that [of "pt_wait p" "pg_advance now st'"])
          (auto simp: pg_poll_def pg_advance_def Let_def turn_error_def)
    next
      assume "\<exists>e. rest = [Inl e] \<and> turn_error p e"
      then show thesis
        using st' now read rows by (auto simp: pg_poll_def intro!: that [of _ st' rows])
    qed
  qed
qed

lemma polls_deliver:
  assumes "growing ul ps"
  shows "\<exists>R err st. pg_polls ul (map snd ps) (pg_open from) = (err, st) \<and>
           delivered ul from (last_table ps) st R \<and>
           (\<forall>e. err = Some e \<longrightarrow> (\<exists>p \<in> set ps. turn_error (snd p) e)) \<and>
           (err = None \<longrightarrow> ps_cursor st \<in> insert from (horizons ps)) \<and>
           (err = None \<and> settled ps \<longrightarrow>
              (\<forall>p \<in> set ps. \<forall>row \<in> set (fst p). from \<le> row_recorded_at row \<longrightarrow> row \<in> set R))"
  using assms
proof (induction ps rule: rev_induct)
  case Nil
  show ?case by (auto simp: delivered_def pg_open_def intro!: exI [of _ "[]"])
next
  case (snoc q ps)
  obtain T p where q: "q = (T, p)" by (cases q)
  let ?T = "last_table ps"
  have grow: "growing ul ps" "pg_invar ul T" "observes T p" "\<forall>q \<in> set ps. set (fst q) \<subseteq> set T"
    using snoc.prems unfolding q history_snoc by blast+
  then have sub: "set ?T \<subseteq> set T" by (auto simp: last_table_def)
  obtain R err st where st: "pg_polls ul (map snd ps) (pg_open from) = (err, st)" "delivered ul from ?T st R"
    "\<forall>e. err = Some e \<longrightarrow> (\<exists>p \<in> set ps. turn_error (snd p) e)"
    "err = None \<longrightarrow> ps_cursor st \<in> insert from (horizons ps)"
    "err = None \<and> settled ps \<longrightarrow>
       (\<forall>p \<in> set ps. \<forall>row \<in> set (fst p). from \<le> row_recorded_at row \<longrightarrow> row \<in> set R)"
    using snoc.IH [OF grow(1)] by blast
  have run: "pg_polls ul (map snd (ps @ [q])) (pg_open from) =
      (case err of Some e \<Rightarrow> (Some e, st) | None \<Rightarrow> pg_poll ul p st)"
    by (simp add: pg_polls_snoc st(1) q)
  show ?case
  proof (cases err)
    case (Some e)
    moreover have "delivered ul from T st R" using st(2) sub by (auto simp: delivered_def)
    ultimately have "pg_polls ul (map snd (ps @ [q])) (pg_open from) = (err, st)"
      "delivered ul from (fst q) st R"
      using run q by simp_all
    moreover have "\<forall>e. err = Some e \<longrightarrow> (\<exists>p \<in> set (ps @ [q]). turn_error (snd p) e)"
      using st(3) by auto
    ultimately show ?thesis using Some unfolding last_table_simps by blast
  next
    case None
    obtain err' st' rows where st': "pg_poll ul p st = (err', st')"
      "delivered ul from T st' (R @ filter (\<lambda>row. row \<notin> set R) rows)"
      "err' = None \<longrightarrow> rows = rows_from (ps_cursor st) T \<and> (\<exists>now. pt_clock p = Inr now \<and>
        ps_cursor st' \<in> {ps_cursor st, now - stream_settle_window})"
      "\<forall>e. err' = Some e \<longrightarrow> turn_error p e"
      by (rule poll_delivers [OF grow(2,3) st(2) sub])
    have complete: "row \<in> set R \<union> set rows"
      if complete_turn: "err' = None" "settled (ps @ [q])" "row \<in> set T" "from \<le> row_recorded_at row" for row
    proof (cases "ps_cursor st \<le> row_recorded_at row")
      case True
      with complete_turn(1,3) st'(3) show ?thesis by (auto simp: set_rows_from)
    next
      case False
      then have "ps_cursor st \<in> horizons ps" "row_recorded_at row < ps_cursor st"
        using complete_turn(4) st(4) None by auto
      then obtain p' now where p': "p' \<in> set ps" "pt_clock (snd p') = Inr now"
        "row_recorded_at row < now - stream_settle_window"
        using horizonsD by metis
      then have "row \<in> set (fst p')" using complete_turn(2,3) unfolding q history_snoc by blast
      moreover have "settled ps" using complete_turn(2) unfolding q history_snoc by blast
      ultimately show ?thesis using st(5) p'(1) complete_turn(4) None by blast
    qed
    let ?R = "R @ filter (\<lambda>row. row \<notin> set R) rows"
    have "err' = None \<and> settled (ps @ [q]) \<longrightarrow>
        (\<forall>p \<in> set (ps @ [q]). \<forall>row \<in> set (fst p). from \<le> row_recorded_at row \<longrightarrow> row \<in> set ?R)"
      using complete grow(4) unfolding q by fastforce
    moreover have "err' = None \<longrightarrow> ps_cursor st' \<in> insert from (horizons (ps @ [q]))"
      using st(4) st'(3) None q horizons_snoc by fastforce
    moreover have "\<forall>e. err' = Some e \<longrightarrow> (\<exists>p \<in> set (ps @ [q]). turn_error (snd p) e)"
      using st'(4) q by simp
    moreover have "pg_polls ul (map snd (ps @ [q])) (pg_open from) = (err', st')"
      "delivered ul from (fst q) st' ?R"
      using run None st'(1,2) q by simp_all
    ultimately show ?thesis unfolding last_table_simps by blast
  qed
qed

end

section \<open>Streams in the order of the log\<close>

lemma strict_rows_unique:
  assumes "sorted_wrt (<) (map row_key xs)" "sorted_wrt (<) (map row_key ys)" "set xs = set ys"
  shows "xs = ys"
proof -
  have "map row_key xs = map row_key ys"
    using assms by (intro strict_sorted_equal) simp_all
  moreover have "inj_on row_key (set xs \<union> set ys)"
    using assms by (simp add: strict_sorted_iff distinct_map)
  ultimately show ?thesis by (rule map_inj_on)
qed

lemma sorted_rows_strict:
  assumes "pg_invar ul T"
  shows "sorted_wrt (<) (map row_key (sort_key row_key T))"
proof -
  have "inj_on row_key (set T)" "distinct T"
    using assms by (auto simp: pg_invar_def distinct_map inj_on_def row_key_def)
  then have "distinct (map row_key (sort_key row_key T))" by (simp add: distinct_map)
  then show ?thesis by (simp add: strict_sorted_iff)
qed

lemma rows_from_sorted: "rows_from c T = filter (\<lambda>row. c \<le> row_recorded_at row) (sort_key row_key T)"
  by (simp add: rows_from_def filter_sort)

lemma rows_from_strict: "pg_invar ul T \<Longrightarrow> sorted_wrt (<) (map row_key (rows_from c T))"
  unfolding rows_from_def by (rule sorted_rows_strict) (auto simp: pg_invar_def distinct_map_filter)

lemma rows_from_append:
  assumes "pg_invar ul T" "pg_invar ul T'" "set T \<subseteq> set T'"
    and "\<forall>row \<in> set T. \<forall>row' \<in> set T' - set T. row_key row < row_key row'"
  shows "rows_from c T' = rows_from c T @ rows_from c (filter (\<lambda>row. row \<notin> set T) T')"
proof (rule strict_rows_unique)
  let ?new = "filter (\<lambda>row. row \<notin> set T) T'"
  have "pg_invar ul ?new" using assms(2) by (auto simp: pg_invar_def distinct_map_filter)
  then show "sorted_wrt (<) (map row_key (rows_from c T @ rows_from c ?new))"
    using rows_from_strict assms(1,4) by (auto simp: sorted_wrt_append set_rows_from)
  show "set (rows_from c T') = set (rows_from c T @ rows_from c ?new)"
    using assms(3) by (auto simp: set_rows_from)
qed (rule rows_from_strict [OF assms(2)])

lemma filter_take_known:
  assumes "set A \<subseteq> set R" "set N \<inter> set R = {}"
  shows "filter (\<lambda>x. x \<notin> set R) (take n (A @ N)) = take (n - length A) N"
proof -
  have "filter (\<lambda>x. x \<notin> set R) (take n A) = []"
    using assms(1) by (auto simp: filter_empty_conv dest: in_set_takeD)
  moreover have "filter (\<lambda>x. x \<notin> set R) (take (n - length A) N) = take (n - length A) N"
    using assms(2) by (auto simp: filter_id_conv dest: in_set_takeD)
  ultimately show ?thesis by simp
qed

lemma growing_last: "growing ul ps \<Longrightarrow> q \<in> set ps \<Longrightarrow> set (fst q) \<subseteq> set (last_table ps)"
proof (induction ps rule: rev_induct)
  case (snoc p ps)
  then show ?case by (cases p) (auto simp: history_snoc)
qed simp

lemma growing_member: "growing ul ps \<Longrightarrow> q \<in> set ps \<Longrightarrow> pg_invar ul (fst q)"
  by (cases q) (auto simp: growing_def)

lemma growing_last_table:
  assumes "growing ul ps" "\<forall>q \<in> set ps. set (fst q) \<subseteq> set T"
  shows "pg_invar ul (last_table ps)" "set (last_table ps) \<subseteq> set T"
  using assms(2) growing_member [OF assms(1), of "last ps"] by (auto simp: last_table_def pg_invar_def)

context ucan_codec
begin

lemma polls_in_order:
  assumes "growing ul ps" "settled ps" "in_commit_order ps"
  shows "\<exists>err st k. pg_polls ul (map snd ps) (pg_open from) = (err, st) \<and>
           delivered ul from (last_table ps) st
             (take k (rows_from from (last_table ps))) \<and>
           (err = None \<longrightarrow> length (rows_from from (last_table ps)) \<le> k \<and>
              ps_cursor st \<in> insert from (horizons ps))"
  using assms
proof (induction ps rule: rev_induct)
  case Nil
  show ?case by (auto simp: delivered_def pg_open_def rows_from_def)
next
  case (snoc q ps)
  obtain T' p where q: "q = (T', p)" by (cases q)
  let ?T = "last_table ps"
  let ?new = "filter (\<lambda>row. row \<notin> set ?T) T'"
  have grow: "growing ul ps" "pg_invar ul T'" "observes T' p" "\<forall>q \<in> set ps. set (fst q) \<subseteq> set T'"
    and rest: "settled ps" "in_commit_order ps"
    using snoc.prems unfolding q history_snoc by blast+
  note T = growing_last_table [OF grow(1,4)]
  have "\<forall>row \<in> set ?T. \<forall>row' \<in> set T' - set ?T. row_key row < row_key row'"
  proof (cases "ps = []")
    case False
    with snoc.prems(3) last_in_set [OF this] show ?thesis unfolding q history_snoc last_table_def if_not_P [OF False] by blast
  qed simp
  note split = rows_from_append [OF T(1) grow(2) T(2) this]
  obtain err st k where st: "pg_polls ul (map snd ps) (pg_open from) = (err, st)"
    "delivered ul from ?T st (take k (rows_from from ?T))"
    "err = None \<longrightarrow> length (rows_from from ?T) \<le> k \<and> ps_cursor st \<in> insert from (horizons ps)"
    using snoc.IH [OF grow(1) rest] by blast
  have run: "pg_polls ul (map snd (ps @ [q])) (pg_open from) =
      (case err of Some e \<Rightarrow> (Some e, st) | None \<Rightarrow> pg_poll ul p st)"
    by (simp add: pg_polls_snoc st(1) q)
  show ?case
  proof (cases err)
    case (Some e)
    have "delivered ul from T' st (take (min k (length (rows_from from ?T))) (rows_from from T'))"
      using st(2) T(2) unfolding split by (auto simp: delivered_def min_def split: if_splits)
    with run Some q show ?thesis by auto
  next
    case None
    let ?R = "rows_from from ?T" and ?c = "ps_cursor st"
    have R: "delivered ul from ?T st ?R" using st(2,3) None by simp
    have c: "from \<le> ?c" "?c \<in> insert from (horizons ps)" using R st(3) None by (auto simp: delivered_def)
    obtain err' st' rows where st': "pg_poll ul p st = (err', st')"
      "delivered ul from T' st' (?R @ filter (\<lambda>row. row \<notin> set ?R) rows)"
      "\<exists>n. rows = take n (rows_from ?c T')"
      "err' = None \<longrightarrow> rows = rows_from ?c T' \<and> (\<exists>now. pt_clock p = Inr now \<and>
        ps_cursor st' \<in> {?c, now - stream_settle_window})"
      "\<forall>e. err' = Some e \<longrightarrow> turn_error p e"
      by (rule poll_delivers [OF grow(2,3) R T(2)])
    have "?c \<le> row_recorded_at row" if "row \<in> set ?new" "from \<le> row_recorded_at row" for row
    proof (rule ccontr)
      assume late: "\<not> ?c \<le> row_recorded_at row"
      with that c(2) have "?c \<in> horizons ps" by auto
      then obtain q' now where q': "q' \<in> set ps" "pt_clock (snd q') = Inr now"
        "?c = now - stream_settle_window" using horizonsD by metis
      have "row \<in> set T'" using that(1) by simp
      then have "row \<in> set (fst q')"
        using snoc.prems(2) q' late unfolding q history_snoc by auto
      then have "row \<in> set ?T" using growing_last [OF grow(1) q'(1)] q'(1) by auto
      with that(1) show False by simp
    qed
    then have "filter (\<lambda>r. ?c \<le> row_recorded_at r) ?new = filter (\<lambda>r. from \<le> row_recorded_at r) ?new"
      using c(1) by (intro filter_cong) auto
    then have new: "rows_from ?c ?new = rows_from from ?new" by (simp add: rows_from_def)
    obtain n where n: "rows = take n (rows_from ?c T')" "err' = None \<longrightarrow> length (rows_from ?c T') \<le> n"
      using st'(3,4) by (metis order_refl take_all_iff)
    have "filter (\<lambda>row. row \<notin> set ?R) rows = take (n - length (rows_from ?c ?T)) (rows_from from ?new)"
      unfolding n(1) split [of ?c] new
      by (rule filter_take_known) (use c(1) in \<open>auto simp: set_rows_from\<close>)
    then have "?R @ filter (\<lambda>row. row \<notin> set ?R) rows =
        take (length ?R + (n - length (rows_from ?c ?T))) (rows_from from T')"
      unfolding split [of "from"] by simp
    moreover have "err' = None \<longrightarrow> length (rows_from from T') \<le> length ?R + (n - length (rows_from ?c ?T))"
      using n(2) unfolding split [of ?c] split [of "from"] new by auto
    moreover have "err' = None \<longrightarrow> ps_cursor st' \<in> insert from (horizons (ps @ [q]))"
      using c(2) st'(4) q horizons_snoc by fastforce
    ultimately show ?thesis using run None st'(1,2) q by auto
  qed
qed

end

text \<open>
  The log of a table, and a stream that watches a growing part of it: rows become visible
  within the settle window and in the order of the log.
\<close>

definition pg_log :: "ucan_lib \<Rightarrow> table \<Rightarrow> revocation_record list" where
  "pg_log ul T = map (row_record ul) (sort_key row_key T)"

definition watches :: "ucan_lib \<Rightarrow> table \<Rightarrow> (table \<times> pg_turn) list \<Rightarrow> bool" where
  "watches ul T ps \<longleftrightarrow>
     growing ul ps \<and> settled ps \<and> in_commit_order ps \<and>
     (\<forall>q \<in> set ps. set (fst q) \<subseteq> set T \<and>
        (\<forall>row \<in> set (fst q). \<forall>row' \<in> set T - set (fst q). row_key row < row_key row'))"

context ucan_codec
begin

lemma row_records_later:
  assumes "pg_invar ul T"
  shows "map (row_record ul) (rows_from from T) =
    filter (\<lambda>r. from \<le> rr_recorded_at r) (pg_log ul T)"
proof -
  have "filter (\<lambda>row. from \<le> rr_recorded_at (row_record ul row)) (sort_key row_key T) =
      filter (\<lambda>row. from \<le> row_recorded_at row) (sort_key row_key T)"
    using row_record_of(2) [OF assms] by (intro filter_cong) auto
  then show ?thesis by (simp add: pg_log_def filter_map comp_def rows_from_sorted)
qed

lemma pg_log_ordered:
  assumes "pg_invar ul T"
  shows "sorted (map rr_recorded_at (pg_log ul T))"
    "distinct (map (\<lambda>r. inv_link (rr_cause r)) (pg_log ul T))"
proof -
  have "map rr_recorded_at (pg_log ul T) = map row_recorded_at (sort_key row_key T)"
    using row_record_of(2) [OF assms] by (auto simp: pg_log_def)
  moreover have "sorted (map row_recorded_at (sort_key row_key T))"
    using sorted_rows_strict [OF assms]
    by (auto simp: sorted_wrt_map row_key_def less_prod_def elim!: sorted_wrt_mono_rel [rotated])
  ultimately show "sorted (map rr_recorded_at (pg_log ul T))" by simp
  have "inj_on (row_link ul) (set T)" "distinct T"
    using row_link_inj [OF assms] assms by (auto simp: inj_on_def pg_invar_def distinct_map)
  then show "distinct (map (\<lambda>r. inv_link (rr_cause r)) (pg_log ul T))"
    by (simp add: pg_log_def distinct_map comp_def)
qed

lemma pg_get_in_log:
  assumes "pg_invar ul T" "pg_get ul None k T = Inr x"
  shows "x \<in> set (pg_log ul T)"
proof -
  obtain row where row: "latest_row (cid_text ul k) T = Some row" "decode_row ul row = Inr x"
    using assms(2) unfolding pg_get_Inr by blast
  then have "row \<in> set T" "x = row_record ul row"
    using latest_row_Some(1) [OF row(1)] by (simp_all add: row_record_def)
  then show ?thesis by (simp add: pg_log_def)
qed

lemma stream_items_in_order:
  assumes "pg_invar ul T" "watches ul T ps"
  shows "\<exists>k es. pg_stream_items ul (map snd ps) from =
      map Inr (take k (filter (\<lambda>r. from \<le> rr_recorded_at r) (pg_log ul T))) @ map Inl es \<and>
    (\<forall>e \<in> set es. \<exists>p \<in> set ps. turn_error (snd p) e) \<and>
    (es = [] \<and> set T \<subseteq> set (last_table ps) \<longrightarrow>
       length (filter (\<lambda>r. from \<le> rr_recorded_at r) (pg_log ul T)) \<le> k)"
proof -
  have ps: "growing ul ps" "settled ps" "in_commit_order ps" "\<forall>q \<in> set ps. set (fst q) \<subseteq> set T"
    "\<forall>q \<in> set ps. \<forall>row \<in> set (fst q). \<forall>row' \<in> set T - set (fst q). row_key row < row_key row'"
    using assms(2) by (auto simp: watches_def)
  let ?old = "rows_from from (last_table ps)" and ?all = "rows_from from T"
  note last = growing_last_table [OF ps(1,4)]
  have "\<forall>row \<in> set (last_table ps). \<forall>row' \<in> set T - set (last_table ps). row_key row < row_key row'"
  proof (cases "ps = []")
    case False
    with ps(5) last_in_set [OF this] show ?thesis unfolding last_table_def if_not_P [OF False] by blast
  qed simp
  note all = rows_from_append [OF last(1) assms(1) last(2) this, of "from"]
  obtain err st k where st: "pg_polls ul (map snd ps) (pg_open from) = (err, st)"
    "delivered ul from (last_table ps) st (take k ?old)" "err = None \<longrightarrow> length ?old \<le> k"
    using polls_in_order [OF ps(1-3)] by blast
  have errs: "\<forall>e. err = Some e \<longrightarrow> (\<exists>p \<in> set ps. turn_error (snd p) e)"
    using polls_deliver [OF ps(1)] st(1) by (metis Pair_inject)
  let ?es = "case err of None \<Rightarrow> [] | Some e \<Rightarrow> [e]"
  let ?k = "min k (length ?old)"
  have "take k ?old = take ?k ?all" unfolding all by (simp add: min_def)
  then have "pg_stream_items ul (map snd ps) from =
      map Inr (take ?k (filter (\<lambda>r. from \<le> rr_recorded_at r) (pg_log ul T))) @ map Inl ?es"
    using st(1,2) unfolding row_records_later [OF assms(1), symmetric]
    by (auto simp: pg_stream_items_def delivered_def take_map split: option.split)
  moreover have "length (filter (\<lambda>r. from \<le> rr_recorded_at r) (pg_log ul T)) \<le> ?k"
    if "?es = []" "set T \<subseteq> set (last_table ps)"
  proof -
    have "filter (\<lambda>row. row \<notin> set (last_table ps)) T = []" using that(2) by (auto simp: filter_empty_conv)
    then show ?thesis
      using that(1) st(3) unfolding row_records_later [OF assms(1), symmetric] all
      by (simp add: rows_from_def split: option.splits)
  qed
  moreover have "\<forall>e \<in> set ?es. \<exists>p \<in> set ps. turn_error (snd p) e" using errs by (cases err) auto
  ultimately show ?thesis by blast
qed

end

text \<open>The table's log is the log of the store.\<close>

sublocale ucan_codec \<subseteq> pglog: logged_store "pg_invar ul" "pg_admissible ul"
  "pg_add_batch ul net" "pg_get ul" "pg_log ul" for net
proof (unfold_locales, goal_cases)
  case (1 s k x)
  then show ?case by (rule pg_get_in_log)
next
  case (2 s)
  then show ?case by (rule pg_log_ordered)
qed

section \<open>Properties of the stream\<close>

text \<open>C20: A PostgreSQL stream yields no revocation twice and none from before the time it was
  opened at, in whatever order rows become visible and wherever the context, the clock or
  the driver fails; when it ends with an error, that error is one of theirs: a row the store
  wrote never fails to decode.\<close>

theorem pg_stream_delivers_once:
  assumes "ucan_codec ul" and "growing ul ps"
    and "pg_polls ul (map snd ps) (pg_open from) = (err, st)"
  shows "distinct (map (\<lambda>x. inv_link (rr_cause x)) (ps_out st)) \<and>
         list_all (\<lambda>x. from \<le> rr_recorded_at x) (ps_out st) \<and>
         (\<forall>e. err = Some e \<longrightarrow> (\<exists>p \<in> set ps. turn_error (snd p) e))"
proof -
  obtain R where R: "delivered ul from (last_table ps) st R"
    "\<forall>e. err = Some e \<longrightarrow> (\<exists>p \<in> set ps. turn_error (snd p) e)"
    using ucan_codec.polls_deliver [OF assms(1,2)] assms(3) by (metis Pair_inject)
  have out: "ps_out st = map (row_record ul) R" "distinct R" "set R \<subseteq> set (last_table ps)"
    "\<forall>row \<in> set R. from \<le> row_recorded_at row"
    using R(1) by (auto simp: delivered_def)
  have T: "pg_invar ul (last_table ps)"
    using growing_member [OF assms(2), of "last ps"] by (auto simp: last_table_def pg_invar_def)
  have "inj_on (row_link ul) (set R)"
    using ucan_codec.row_link_inj [OF assms(1) T] out(3) by (meson inj_onI subsetD)
  then have "distinct (map (row_link ul) R)" using out(2) by (simp add: distinct_map)
  moreover have "\<forall>row \<in> set R. rr_recorded_at (row_record ul row) = row_recorded_at row"
    using ucan_codec.row_record_of(2) [OF assms(1) T] out(3) by blast
  ultimately show ?thesis using out R(2) by (simp add: comp_def list_all_iff)
qed

text \<open>A turn that meets no failure, and one whose connection breaks after \<open>n\<close> rows.\<close>

definition healthy_turn :: "time \<Rightarrow> table \<Rightarrow> table \<times> pg_turn" where
  "healthy_turn now T =
     (T, \<lparr>pt_ctx = None, pt_clock = Inr now,
          pt_query = (\<lambda>c. Inr (map Inr (rows_from c T), None)), pt_wait = None\<rparr>)"

definition broken_turn :: "nat \<Rightarrow> error \<Rightarrow> time \<Rightarrow> table \<Rightarrow> table \<times> pg_turn" where
  "broken_turn n e now T =
     (T, \<lparr>pt_ctx = None, pt_clock = Inr now,
          pt_query = (\<lambda>c. Inr (map Inr (take n (rows_from c T)), Some e)), pt_wait = None\<rparr>)"

lemma turn_simps [simp]:
  "fst (healthy_turn now T) = T" "fst (broken_turn n e now T) = T"
  "pt_clock (snd (healthy_turn now T)) = Inr now" "pt_clock (snd (broken_turn n e now T)) = Inr now"
  by (simp_all add: healthy_turn_def broken_turn_def)

lemma turn_observes [simp]:
  "observes T (snd (healthy_turn now T))" "observes T (snd (broken_turn n e now T))"
proof -
  show "observes T (snd (healthy_turn now T))"
    by (auto simp: observes_def healthy_turn_def intro!: exI [of _ "length (rows_from _ T)"] exI [of _ "[]"])
  show "observes T (snd (broken_turn n e now T))"
    by (auto simp: observes_def broken_turn_def intro!: exI [of _ n] exI [of _ "[]"])
qed

definition sample_history :: "(table \<times> pg_turn) list" where
  "sample_history =
     [healthy_turn (20 * second) [sample_row (5 * second) ''c'' ''d''],
      healthy_turn (21 * second) [sample_row (5 * second) ''c'' ''d'', sample_row (12 * second) ''b'' ''d'']]"

lemma sample_row_of: "d \<noteq> [] \<Longrightarrow> row_of sample_ucan (pg_sample c d) (sample_row t c d)"
  by (simp add: row_of_def sample_row_def undef_cid_def)

lemma sample_rows_ok:
  "pg_invar sample_ucan []"
  "d \<noteq> [] \<Longrightarrow> pg_invar sample_ucan [sample_row t c d]"
  "d \<noteq> [] \<Longrightarrow> d' \<noteq> [] \<Longrightarrow> c \<noteq> c' \<Longrightarrow>
     pg_invar sample_ucan [sample_row t c d, sample_row t' c' d']"
  unfolding pg_invar_def using sample_row_of by (auto, auto simp: sample_row_def)

lemma growing_turns:
  "growing ul [] " 
  "growing ul (p # ps) \<longleftrightarrow> growing ul ps \<and> pg_invar ul (fst p) \<and> observes (fst p) (snd p) \<and>
     (\<forall>q \<in> set ps. set (fst p) \<subseteq> set (fst q))"
  by (auto simp: growing_def split: prod.split)

lemma sample_history_ok: "growing sample_ucan sample_history" "settled sample_history"
  by (simp add: growing_turns sample_history_def sample_rows_ok)
    (simp add: settled_def sample_history_def stream_settle_window_def sample_row_def)

definition broken_history :: "(table \<times> pg_turn) list" where
  "broken_history = sample_history @
     [broken_turn 0 (Foreign ''connection lost'') (22 * second)
        [sample_row (5 * second) ''c'' ''d'', sample_row (12 * second) ''b'' ''d'']]"

lemma broken_history_ok: "growing sample_ucan broken_history"
  by (simp add: growing_turns broken_history_def sample_history_def sample_rows_ok)

theorem pg_stream_delivers_once_witness:
  "\<exists>err st. pg_polls sample_ucan (map snd broken_history) (pg_open 0) = (err, st) \<and>
     distinct (map (\<lambda>x. inv_link (rr_cause x)) (ps_out st)) \<and>
     (\<forall>e. err = Some e \<longrightarrow> (\<exists>p \<in> set broken_history. turn_error (snd p) e))"
  using pg_stream_delivers_once [OF sample_ucan.ucan_codec_axioms broken_history_ok, of 0]
  by (cases "pg_polls sample_ucan (map snd broken_history) (pg_open 0)") blast

text \<open>C9: While the settle window holds, a PostgreSQL stream misses nothing: as long as it has
  not failed, it has yielded each visible row recorded at or after the time it was opened
  at, also the rows that became visible behind others it had yielded before.\<close>

theorem pg_stream_misses_nothing:
  assumes "ucan_codec ul" and "growing ul ps" and "settled ps"
    and "pg_polls ul (map snd ps) (pg_open from) = (None, st)"
    and "p \<in> set ps" and "row \<in> set (fst p)" and "from \<le> row_recorded_at row"
  shows "\<exists>x \<in> set (ps_out st). decode_row ul row = Inr x"
proof -
  obtain R where R: "delivered ul from (last_table ps) st R"
    "\<forall>p \<in> set ps. \<forall>row \<in> set (fst p). from \<le> row_recorded_at row \<longrightarrow> row \<in> set R"
    using ucan_codec.polls_deliver [OF assms(1,2), of "from"] assms(3,4) by auto
  then have "row \<in> set R" using assms(5-) by blast
  moreover have "decode_row ul row = Inr (row_record ul row)"
    using ucan_codec.row_record_of(1) [OF assms(1) growing_member [OF assms(2,5)] assms(6)] .
  ultimately show ?thesis using R(1) by (auto simp: delivered_def)
qed

lemma healthy_no_error [simp]: "\<not> turn_error (snd (healthy_turn now T)) e"
  by (auto simp: turn_error_def healthy_turn_def)

text \<open>A stream that meets no failure goes on.\<close>

lemma healthy_stream_runs:
  assumes "ucan_codec ul" "growing ul ps" "\<forall>p \<in> set ps. \<forall>e. \<not> turn_error (snd p) e"
  obtains st where "pg_polls ul (map snd ps) (pg_open from) = (None, st)"
  using ucan_codec.polls_deliver [OF assms(1,2), of "from"] assms(3) by (metis option.exhaust)

theorem pg_stream_misses_nothing_witness:
  "\<exists>st. pg_polls sample_ucan (map snd sample_history) (pg_open 0) = (None, st) \<and>
     (\<exists>x \<in> set (ps_out st). decode_row sample_ucan (sample_row (12 * second) ''b'' ''d'') = Inr x)"
proof -
  obtain st where st: "pg_polls sample_ucan (map snd sample_history) (pg_open 0) = (None, st)"
    by (rule healthy_stream_runs [OF sample_ucan.ucan_codec_axioms sample_history_ok(1)])
      (simp_all add: sample_history_def)
  from pg_stream_misses_nothing [OF sample_ucan.ucan_codec_axioms sample_history_ok st, of
      "healthy_turn (21 * second) [sample_row (5 * second) ''c'' ''d'', sample_row (12 * second) ''b'' ''d'']"
      "sample_row (12 * second) ''b'' ''d''"] st
  show ?thesis by (simp add: sample_history_def sample_row_def)
qed

definition slow_insert :: "(table \<times> pg_turn) list" where
  "slow_insert =
     [healthy_turn (20 * second) [], healthy_turn (21 * second) [sample_row (9 * second) ''c'' ''d''],
      healthy_turn (22 * second) [sample_row (9 * second) ''c'' ''d'']]"

text \<open>The settle window is needed: an insert that takes longer than it to become visible is
  never yielded by a stream that was already polling, although its row is in the table and
  was recorded after the stream was opened.\<close>

theorem pg_stream_loses_slow_insert:
  "\<exists>ps. growing sample_ucan ps \<and> ps_out (snd (pg_polls sample_ucan (map snd ps) (pg_open second))) = [] \<and>
     fst (last ps) = [sample_row (9 * second) ''c'' ''d''] \<and>
     pg_get sample_ucan None (Cid ''d'') (fst (last ps)) =
       Inr (record_of (9 * second) (pg_sample ''c'' ''d''))"
proof (intro exI [of _ slow_insert] conjI)
  show "growing sample_ucan slow_insert"
    by (simp add: growing_turns slow_insert_def sample_rows_ok)
  show "ps_out (snd (pg_polls sample_ucan (map snd slow_insert) (pg_open second))) = []"
    by (simp add: slow_insert_def healthy_turn_def pg_open_def pg_poll_def records_from_def rows_from_def
        pg_advance_def Let_def stream_settle_window_def sample_row_def)
  show "fst (last slow_insert) = [sample_row (9 * second) ''c'' ''d'']"
    by (simp add: slow_insert_def)
  show "pg_get sample_ucan None (Cid ''d'') (fst (last slow_insert)) =
      Inr (record_of (9 * second) (pg_sample ''c'' ''d''))"
    by (simp add: slow_insert_def pg_get_Inr decode_sample_row latest_row_def)
      (simp add: sample_row_def)
qed

end
