(* ===== verification/Delivery.thy ===== *)
theory Delivery
  imports Publish Memory_Stream Postgres_Stream
begin

text \<open>
  From a publisher to a subscriber, over any store with a log (the locale
  \<open>logged_store\<close>): the publication side ends with a record in the log, the subscription
  side with the log in the hands of the consumer. The PostgreSQL streams are shown to
  bring the log in its order.
\<close>

section \<open>Over any store with a log\<close>

lemma log_in_time_order:
  assumes "sorted (map rr_recorded_at recs)" "distinct (map (\<lambda>r. inv_link (rr_cause r)) recs)"
  shows "in_time_order (events_of recs)"
  using assms by (simp add: in_time_order_def events_of_def comp_def firehose_value_of_def)

context logged_store
begin

text \<open>What was published is in the log right after the write.\<close>

lemma published_logged:
  assumes "batch_invocations cl ex issuer revoked = Inr invs"
    and "items = batch_items invs (map the revoked)"
    and "invar s" "admissible (request_batch env items) s"
    and "relays ex (\<lambda>items. route_replies (revoke_route env add_batch ctx now items s))"
    and "content_addressed ex"
    and "publish_batch cl ex (Some issuer) revoked = None" "Some d \<in> set revoked"
    and s': "s' = route_store (revoke_route env add_batch ctx now items s)"
  shows "\<exists>x. get None (dlg_link d) s' = Inr x \<and> x \<in> set (log s') \<and> rr_revoke x = dlg_link d"
proof -
  have inv: "invar s'" unfolding s' by (rule route_invar [OF assms(3,4)])
  obtain x where "get None (dlg_link d) s' = Inr x"
    using batch_published_revoked [OF assms(1-8), of "[]"] by (auto simp: s')
  with get_in_log [OF inv] get_about [OF inv] show ?thesis by blast
qed

end

section \<open>The streams of the PostgreSQL store\<close>

text \<open>
  An attempt that is refused, or reaches the firehose over a PostgreSQL store: every stream
  it opens meets a history of its own, one of \<open>H\<close>.
\<close>

definition pg_connects ::
  "('w, 'r) http_env \<Rightarrow> ucan_lib \<Rightarrow> (table \<times> pg_turn) list set \<Rightarrow> transport \<Rightarrow> bool" where
  "pg_connects env ul H tr \<longleftrightarrow>
     (\<forall>url. \<exists>e. tr url = Inl e) \<or>
     (\<exists>net hist n e.
        tr = firehose_transport env net (\<lambda>t. pg_stream_items ul (map snd (hist t)) t) n e \<and>
        (\<forall>t. hist t \<in> H \<and>
           (\<forall>p \<in> set (hist t). \<forall>x. turn_error (snd p) x \<longrightarrow> reportable env x)))"

text \<open>One whose streams have seen the whole table \<open>T\<close>, over a connection that is not cut off.\<close>

definition pg_connects_whole ::
  "('w, 'r) http_env \<Rightarrow> ucan_lib \<Rightarrow> table \<Rightarrow> (table \<times> pg_turn) list set \<Rightarrow> transport \<Rightarrow> bool" where
  "pg_connects_whole env ul T H tr \<longleftrightarrow>
     (\<exists>net hist n e.
        tr = firehose_transport env net (\<lambda>t. pg_stream_items ul (map snd (hist t)) t) n e \<and>
        (\<forall>t. hist t \<in> H \<and> set T \<subseteq> set (last_table (hist t)) \<and>
           (\<forall>p \<in> set (hist t). \<forall>x. \<not> turn_error (snd p) x) \<and>
           fst (firehose_loop env net (pg_stream_items ul (map snd (hist t)) t) []) = None \<and>
           length (snd (firehose_loop env net (pg_stream_items ul (map snd (hist t)) t) [])) \<le> n))"

text \<open>A server whose streams all watch one history.\<close>

lemma pg_connects_history:
  assumes "ps \<in> H" "\<And>p x. p \<in> set ps \<Longrightarrow> turn_error (snd p) x \<Longrightarrow> reportable env x"
  shows "pg_connects env ul H (firehose_transport env net (\<lambda>t. pg_stream_items ul (map snd ps) t) n e)"
  unfolding pg_connects_def
  by (rule disjI2, rule exI [of _ net], rule exI [of _ "\<lambda>_. ps"], rule exI [of _ n], rule exI [of _ e])
    (use assms in blast)

lemma pg_connects_whole_history:
  assumes "ps \<in> H" "set T \<subseteq> set (last_table ps)" "\<And>p x. p \<in> set ps \<Longrightarrow> \<not> turn_error (snd p) x"
    and "\<And>t. fst (firehose_loop env net (pg_stream_items ul (map snd ps) t) []) = None"
    and "\<And>t. length (snd (firehose_loop env net (pg_stream_items ul (map snd ps) t) [])) \<le> n"
  shows "pg_connects_whole env ul T H (firehose_transport env net (\<lambda>t. pg_stream_items ul (map snd ps) t) n e)"
  unfolding pg_connects_whole_def
  by (rule exI [of _ net], rule exI [of _ "\<lambda>_. ps"], rule exI [of _ n], rule exI [of _ e])
    (use assms in blast)

context ucan_codec
begin

lemma pg_connects_log:
  assumes "pg_invar ul T" "\<forall>h \<in> H. watches ul T h" "pg_connects env ul H tr"
  shows "connects env (pg_log ul T) tr"
  using assms(3) unfolding pg_connects_def
proof
  assume "\<forall>url. \<exists>e. tr url = Inl e"
  then show ?thesis by (simp add: connects_def)
next
  assume "\<exists>net hist n e.
      tr = firehose_transport env net (\<lambda>t. pg_stream_items ul (map snd (hist t)) t) n e \<and>
      (\<forall>t. hist t \<in> H \<and>
         (\<forall>p \<in> set (hist t). \<forall>x. turn_error (snd p) x \<longrightarrow> reportable env x))"
  then obtain net hist n e where
    tr: "tr = firehose_transport env net (\<lambda>t. pg_stream_items ul (map snd (hist t)) t) n e"
    and hist: "\<And>t. watches ul T (hist t)"
      "\<And>t p x. p \<in> set (hist t) \<Longrightarrow> turn_error (snd p) x \<Longrightarrow> reportable env x"
    using assms(2) by blast
  have "brings env (pg_log ul T) (\<lambda>t. pg_stream_items ul (map snd (hist t)) t)"
    unfolding brings_def
  proof (intro allI impI)
    fix t :: time
    obtain k es where "pg_stream_items ul (map snd (hist t)) t =
        map Inr (take k (filter (\<lambda>r. t \<le> rr_recorded_at r) (pg_log ul T))) @ map Inl es"
      "\<forall>e \<in> set es. \<exists>p \<in> set (hist t). turn_error (snd p) e"
      using stream_items_in_order [OF assms(1) hist(1)] by blast
    moreover from this(2) have "list_all (reportable env) es" using hist(2) by (auto simp: list_all_iff)
    ultimately show "\<exists>k fails. pg_stream_items ul (map snd (hist t)) t =
        map Inr (take k (filter (\<lambda>r. t \<le> rr_recorded_at r) (pg_log ul T))) @ map Inl fails \<and>
        list_all (reportable env) fails" by blast
  qed
  then show ?thesis unfolding connects_def tr by blast
qed

lemma pg_items_whole:
  assumes "pg_invar ul T" "watches ul T ps" "set T \<subseteq> set (last_table ps)"
    and "\<And>p x. p \<in> set ps \<Longrightarrow> \<not> turn_error (snd p) x"
  shows "pg_stream_items ul (map snd ps) t = map Inr (filter (\<lambda>r. t \<le> rr_recorded_at r) (pg_log ul T))"
proof -
  obtain k es where items: "pg_stream_items ul (map snd ps) t =
      map Inr (take k (filter (\<lambda>r. t \<le> rr_recorded_at r) (pg_log ul T))) @ map Inl es"
    "\<forall>e \<in> set es. \<exists>p \<in> set ps. turn_error (snd p) e"
    "es = [] \<and> set T \<subseteq> set (last_table ps) \<longrightarrow>
       length (filter (\<lambda>r. t \<le> rr_recorded_at r) (pg_log ul T)) \<le> k"
    using stream_items_in_order [OF assms(1,2)] by blast
  have "es = []" using items(2) assms(4) by (cases es) auto
  with items(1,3) assms(3) show ?thesis by simp
qed

lemma pg_connects_whole_log:
  assumes "pg_invar ul T" "\<forall>h \<in> H. watches ul T h" "pg_connects_whole env ul T H tr"
  shows "connects_whole env (pg_log ul T) tr"
proof -
  obtain net hist n e where
    tr: "tr = firehose_transport env net (\<lambda>t. pg_stream_items ul (map snd (hist t)) t) n e"
    and hist: "\<And>t. watches ul T (hist t)" "\<And>t. set T \<subseteq> set (last_table (hist t))"
      "\<And>t p x. p \<in> set (hist t) \<Longrightarrow> \<not> turn_error (snd p) x"
    and sent: "\<And>t. fst (firehose_loop env net (pg_stream_items ul (map snd (hist t)) t) []) = None"
      "\<And>t. length (snd (firehose_loop env net (pg_stream_items ul (map snd (hist t)) t) [])) \<le> n"
    using assms(2,3) unfolding pg_connects_whole_def by blast
  have "pg_stream_items ul (map snd (hist t)) t =
      map Inr (filter (\<lambda>r. t \<le> rr_recorded_at r) (pg_log ul T))" for t
    by (rule pg_items_whole [OF assms(1) hist])
  with sent show ?thesis unfolding connects_whole_def tr by blast
qed

text \<open>
  A stream that has not failed and has seen a table brings the records of its rows, in
  whatever order they became visible within the settle window.
\<close>

lemma settled_stream_brings:
  assumes "growing ul ps" "settled ps" "pg_polls ul (map snd ps) (pg_open from) = (None, st)"
    and "set T \<subseteq> set (last_table ps)" "pg_invar ul T"
    and "x \<in> set (pg_log ul T)" "from \<le> rr_recorded_at x"
  shows "x \<in> set (ps_out st)"
proof -
  obtain row where row: "row \<in> set T" "x = row_record ul row"
    using assms(6) by (auto simp: pg_log_def)
  then have time: "from \<le> row_recorded_at row" using row_record_of(2) [OF assms(5)] assms(7) by simp
  have "ps \<noteq> []" using row(1) assms(4) by (auto simp: last_table_def)
  then have seen: "last ps \<in> set ps" "row \<in> set (fst (last ps))"
    using row(1) assms(4) by (auto simp: last_table_def)
  obtain R where R: "delivered ul from (last_table ps) st R"
    "\<forall>p \<in> set ps. \<forall>row \<in> set (fst p). from \<le> row_recorded_at row \<longrightarrow> row \<in> set R"
    using polls_deliver [OF assms(1), of "from"] assms(2,3) by auto
  then have "row \<in> set R" using seen time by blast
  then show ?thesis using R(1) row(2) by (simp add: delivered_def)
qed

lemma pg_stream_items_running:
  "pg_polls ul ps (pg_open from) = (None, st) \<Longrightarrow> pg_stream_items ul ps from = map Inr (ps_out st)"
  by (simp add: pg_stream_items_def)

end

end
