(* ===== verification/Memory_Delivery.thy ===== *)
theory Memory_Delivery
  imports Delivery
begin

text \<open>
  The streams of the in-memory store while it is being written to, seen from a subscriber: if
  writers commit in the order of their clock readings and the records a stream has yielded
  stay in the store, then what it has yielded at any moment is the beginning of the log the
  store has in the end. With the handler and the client of the other theories this carries
  the log of a store that changes to a consumer that reconnects.
\<close>

section \<open>The order in which a stream yields\<close>

text \<open>
  A stream yields one snapshot after the other: within a snapshot in the order of the sort
  key, and across snapshots with growing sequence numbers.
\<close>

definition yield_order :: "memory_record \<Rightarrow> memory_record \<Rightarrow> bool" where
  "yield_order a b \<longleftrightarrow> mr_seq a < mr_seq b \<or> entry_key a \<le> entry_key b"

definition sys_ordered :: "mem_sys \<Rightarrow> bool" where
  "sys_ordered c \<longleftrightarrow> (\<forall>i st. sys_streams c i = Some st \<longrightarrow> sorted_wrt yield_order (collected st))"

lemma snapshot_yield_order: "sorted_wrt yield_order (fst (records_from_locked q start s))"
  using sorted_snapshot [of q start s] unfolding sorted_map
  by (rule sorted_wrt_mono_rel [rotated]) (simp add: yield_order_def)

lemma sys_ordered_set:
  assumes "sys_ordered c" "sorted_wrt yield_order (collected st)"
  shows "sys_ordered (c\<lparr>sys_store := s, sys_streams := (sys_streams c)(i \<mapsto> st)\<rparr>)"
    and "sys_ordered (c\<lparr>sys_streams := (sys_streams c)(i \<mapsto> st)\<rparr>)"
  using assms by (auto simp: sys_ordered_def)

lemma collected_yield: "sm_phase st = Delivering es \<Longrightarrow> collected (stream_yield st) = collected st"
  by (auto simp: stream_yield_def collected_def split: list.split)

lemma refresh_ordered:
  assumes "stream_ok s pending st" "sm_phase st = Woken" "sorted_wrt yield_order (collected st)"
  shows "sorted_wrt yield_order (collected (stream_refresh s st))"
proof -
  have out: "collected st = sm_out st" using assms(2) by (simp add: collected_def)
  have "yield_order a b" if "a \<in> set (sm_out st)" "b \<in> set (fst (records_from_locked (sm_seq st) (sm_from st) s))"
    for a b
  proof -
    have "mr_seq a \<le> sm_seq st" using that(1) assms(1) by (auto simp: stream_ok_def out)
    also have "sm_seq st < mr_seq b" using that(2) by (auto simp: set_snapshot entry_matches_def)
    finally show ?thesis by (simp add: yield_order_def)
  qed
  with assms(3) show ?thesis
    by (auto simp: collected_refresh [OF assms(2)] out sorted_wrt_append snapshot_yield_order)
qed

lemma sys_ordered_step: "mem_step c c' \<Longrightarrow> sys_invar c \<Longrightarrow> sys_ordered c \<Longrightarrow> sys_ordered c'"
proof (induction rule: mem_step.induct)
  case (open_stream c start i st s)
  from open_stream.hyps(2) have "st = stream_refresh (sys_store c)
      \<lparr>sm_from = start, sm_seq = 0, sm_phase = Woken, sm_out = []\<rparr>" by (simp add: stream_open_eq)
  then have "collected st = fst (records_from_locked 0 start (sys_store c))"
    by (simp add: collected_refresh)
  with open_stream.prems show ?case by (intro sys_ordered_set) (simp_all add: snapshot_yield_order)
next
  case (yield c i st es)
  then show ?case by (intro sys_ordered_set) (auto simp: collected_yield sys_ordered_def)
next
  case (wake c i st)
  then have "collected (st\<lparr>sm_phase := Woken\<rparr>) = collected st" by (simp add: collected_def)
  with wake show ?case by (intro sys_ordered_set) (auto simp: sys_ordered_def)
next
  case (refresh c i st)
  then obtain p where "stream_ok (sys_store c) p st" by (rule_tac sys_invar_stream)
  with refresh show ?case by (intro sys_ordered_set refresh_ordered) (auto simp: sys_ordered_def)
qed (auto simp: sys_ordered_def)

text \<open>The store of a later state: what is new in it has a number past the old counter.\<close>

lemma step_new_records:
  assumes "mem_step c c'" "sys_invar c"
  shows "ms_next_seq (sys_store c) \<le> ms_next_seq (sys_store c') \<and>
    (\<forall>(k, e) \<in> set (ms_records (sys_store c')).
       (k, e) \<in> set (ms_records (sys_store c)) \<or> ms_next_seq (sys_store c) < mr_seq e)"
  using assms
proof (induction rule: mem_step.induct)
  case (commit_write c ws t b ws')
  note room = commit_write.hyps(2)
  have "ms_next_seq (sys_store c) \<le> ms_next_seq (fold (store_one t) b (sys_store c))"
    using seq_invar_fold [OF _ room] commit_write.prems by (simp add: sys_invar_def)
  with fold_store_new [OF _ room] show ?case by (auto simp: mem_add_batch_effect)
qed (auto simp: stream_open_eq stream_wake_def stream_close_def)

lemma steps_new_records:
  assumes "rtranclp mem_step c c'" "sys_invar c"
  shows "ms_next_seq (sys_store c) \<le> ms_next_seq (sys_store c') \<and>
    (\<forall>(k, e) \<in> set (ms_records (sys_store c')).
       (k, e) \<in> set (ms_records (sys_store c)) \<or> ms_next_seq (sys_store c) < mr_seq e)"
  using assms(1)
proof (induction rule: rtranclp_induct)
  case base
  then show ?case by auto
next
  case (step c1 c2)
  have "sys_invar c1" using step.hyps(1) assms(2) by (rule sys_invar_steps)
  from step_new_records [OF step.hyps(2) this] step.IH show ?case by fastforce
qed

lemma reachable_ordered: "mem_reachable c \<Longrightarrow> sys_ordered c"
proof -
  have "sys_ordered c" if "rtranclp mem_step (init_sys t) c" for t
    using that
  proof (induction rule: rtranclp_induct)
    case base
    then show ?case by (simp add: sys_ordered_def init_sys_def)
  next
    case (step c1 c2)
    then show ?case by (meson sys_ordered_step sys_invar_steps sys_invar_init)
  qed
  then show "mem_reachable c \<Longrightarrow> sys_ordered c" unfolding mem_reachable_def by blast
qed

section \<open>Live streams\<close>

text \<open>
  Writers that commit in the order of their clock readings: what was stored later has no
  earlier time.
\<close>

definition commit_order :: "mem_store \<Rightarrow> bool" where
  "commit_order s \<longleftrightarrow> (\<forall>(_, e) \<in> set (ms_records s). \<forall>(_, e') \<in> set (ms_records s).
     mr_seq e < mr_seq e' \<longrightarrow> rr_recorded_at (mr_record e) \<le> rr_recorded_at (mr_record e'))"

text \<open>
  \<open>st\<close> is at some moment the state of a stream from \<open>t\<close> on of a service whose store comes
  to hold the records of \<open>s\<close>; and the records it has yielded have not been replaced by then.
\<close>

definition live_stream :: "mem_store \<Rightarrow> time \<Rightarrow> stream_state \<Rightarrow> bool" where
  "live_stream s t st \<longleftrightarrow>
     (\<exists>c i c'. mem_reachable c \<and> sys_streams c i = Some st \<and> sm_from st = t \<and>
        rtranclp mem_step c c' \<and> ms_records (sys_store c') = ms_records s)"

definition kept :: "mem_store \<Rightarrow> stream_state \<Rightarrow> bool" where
  "kept s st \<longleftrightarrow> set (sm_out st) \<subseteq> snd ` set (ms_records s)"

text \<open>Lists in the strict order of a key are determined by their elements.\<close>

lemma strict_prefix_by_key:
  fixes key :: "'a \<Rightarrow> 'b::linorder"
  assumes "sorted_wrt (\<lambda>a b. key a < key b) xs" "sorted_wrt (\<lambda>a b. key a < key b) ys"
    and "set xs \<subseteq> set ys" "\<And>x y. x \<in> set xs \<Longrightarrow> y \<in> set ys - set xs \<Longrightarrow> key x < key y"
  shows "xs = take (length xs) ys"
proof -
  let ?rest = "filter (\<lambda>y. y \<notin> set xs) ys"
  have "sorted_wrt (\<lambda>a b. key a < key b) (xs @ ?rest)"
    using assms by (auto simp: sorted_wrt_append intro: sorted_wrt_filter)
  then have "sorted_wrt (<) (map key (xs @ ?rest))" "sorted_wrt (<) (map key ys)"
    using assms(2) by (simp_all only: sorted_wrt_map)
  moreover have same: "set (xs @ ?rest) = set ys" using assms(3) by auto
  ultimately have "map key (xs @ ?rest) = map key ys"
    by (intro sorted_distinct_set_unique) (auto simp: strict_sorted_iff simp del: map_append set_append)
  moreover have "inj_on key (set (xs @ ?rest) \<union> set ys)"
    using \<open>sorted_wrt (<) (map key ys)\<close> same by (simp add: strict_sorted_iff distinct_map)
  ultimately have "xs @ ?rest = ys" using inj_on_map_eq_map by blast
  then show ?thesis by (metis append_eq_conv_conj)
qed

lemma key_order_seq:
  assumes "commit_order s" "entry_key a \<le> entry_key b" "mr_seq a \<noteq> mr_seq b"
    and "a \<in> snd ` set (ms_records s)" "b \<in> snd ` set (ms_records s)"
  shows "mr_seq a < mr_seq b"
proof (rule ccontr)
  assume "\<not> mr_seq a < mr_seq b"
  with assms(3) have less: "mr_seq b < mr_seq a" by (simp add: not_less)
  with assms(1,4,5) have "rr_recorded_at (mr_record b) \<le> rr_recorded_at (mr_record a)"
    unfolding commit_order_def by fastforce
  with assms(2) less show False by (auto simp: entry_key_def less_eq_prod_def)
qed

lemma snapshot_strict:
  assumes "seq_invar s" "commit_order s"
  shows "sorted_wrt (\<lambda>a b. mr_seq a < mr_seq b) (fst (records_from_locked q t s))"
proof -
  let ?es = "fst (records_from_locked q t s)"
  have dist: "distinct (map mr_seq ?es)" using assms(1) by (rule distinct_snapshot)
  have "mr_seq (?es ! i) < mr_seq (?es ! j)" if "i < j" "j < length ?es" for i j
  proof -
    have "entry_key (?es ! i) \<le> entry_key (?es ! j)"
      using sorted_snapshot [of q t s] that by (simp add: sorted_iff_nth_mono)
    moreover have "mr_seq (?es ! i) \<noteq> mr_seq (?es ! j)"
      using dist that by (simp add: distinct_conv_nth)
    moreover have "?es ! i \<in> set ?es" "?es ! j \<in> set ?es" using that by simp_all
    then have "?es ! i \<in> snd ` set (ms_records s)" "?es ! j \<in> snd ` set (ms_records s)"
      unfolding set_snapshot by blast+
    ultimately show ?thesis by (rule key_order_seq [OF assms(2)])
  qed
  then show ?thesis by (simp add: sorted_wrt_iff_nth_less)
qed

text \<open>
  What a live stream has yielded is the beginning of the final snapshot from its start time,
  and all of it once it has caught up.
\<close>

lemma yielded_strict:
  assumes "stream_ok s0 p st" "sorted_wrt yield_order (collected st)" "commit_order s"
    and "set (sm_out st) \<subseteq> snd ` set (ms_records s)"
    and "a \<in> set (sm_out st)" "b \<in> snd ` set (ms_records s)"
    and "collected st = xs @ a # ys" "b \<in> set ys"
  shows "mr_seq a < mr_seq b"
proof -
  have "yield_order a b" using assms(2,7,8) by (auto simp: sorted_wrt_append)
  moreover have "mr_seq a \<noteq> mr_seq b" using assms(1,7,8) by (auto simp: stream_ok_def)
  moreover have "a \<in> snd ` set (ms_records s)" using assms(4,5) by blast
  ultimately show ?thesis using key_order_seq [OF assms(3) _ _ _ assms(6)] by (auto simp: yield_order_def)
qed

lemma live_stream_prefix:
  assumes "live_stream s t st" "commit_order s" "kept s st"
  shows "sm_out st = take (length (sm_out st)) (fst (records_from_locked 0 t s))"
proof -
  obtain c i c' where c: "mem_reachable c" "sys_streams c i = Some st" "sm_from st = t"
    and c': "rtranclp mem_step c c'" "ms_records (sys_store c') = ms_records s"
    using assms(1) unfolding live_stream_def by blast
  have kept: "set (sm_out st) \<subseteq> snd ` set (ms_records s)" using assms(3) by (simp add: kept_def)
  have inv: "sys_invar c" using c(1) by (rule reachable_invar)
  have "seq_invar (sys_store c')" using sys_invar_steps [OF c'(1) inv] by (simp add: sys_invar_def)
  from snapshot_strict [OF this, of 0 t] assms(2) c'(2)
  have F: "sorted_wrt (\<lambda>a b. mr_seq a < mr_seq b) (fst (records_from_locked 0 t s))"
    by (simp add: commit_order_def records_from_locked_def)
  obtain p where ok: "stream_ok (sys_store c) p st" using inv c(2) by (rule sys_invar_stream)
  have ordered: "sorted_wrt yield_order (collected st)"
    using reachable_ordered [OF c(1)] c(2) by (auto simp: sys_ordered_def)
  note strict = yielded_strict [OF ok ordered assms(2) kept]
  obtain rest where coll: "collected st = sm_out st @ rest" by (simp add: collected_def)
  have seqs: "mr_seq e \<le> sm_seq st" "entry_matches 0 t e" if "e \<in> set (collected st)" for e
    using ok that c(3) by (auto simp: stream_ok_def)
  show ?thesis
  proof (rule strict_prefix_by_key [OF _ F])
    show "sorted_wrt (\<lambda>a b. mr_seq a < mr_seq b) (sm_out st)"
      unfolding sorted_wrt_iff_nth_less
    proof (intro allI impI)
      fix i j
      assume ij: "i < j" "j < length (sm_out st)"
      have "collected st = take i (sm_out st) @ sm_out st ! i # drop (Suc i) (sm_out st) @ rest"
        using ij by (simp add: coll id_take_nth_drop [symmetric] flip: append_assoc)
      moreover have "sm_out st ! j \<in> set (drop (Suc i) (sm_out st) @ rest)"
        using ij by (auto simp: in_set_conv_nth intro!: exI [of _ "j - Suc i"])
      ultimately show "mr_seq (sm_out st ! i) < mr_seq (sm_out st ! j)"
        using strict kept ij by (meson less_trans nth_mem subsetD)
    qed
    show "set (sm_out st) \<subseteq> set (fst (records_from_locked 0 t s))"
      using kept seqs by (auto simp: set_snapshot coll)
    show "mr_seq a < mr_seq b"
      if yielded: "a \<in> set (sm_out st)"
        and other: "b \<in> set (fst (records_from_locked 0 t s)) - set (sm_out st)" for a b
    proof -
      have b: "b \<in> snd ` set (ms_records s)" "entry_matches 0 t b" "b \<notin> set (sm_out st)"
        using other by (auto simp: set_snapshot)
      have a: "mr_seq a \<le> sm_seq st" using yielded seqs by (simp add: coll)
      have bound: "sm_seq st \<le> ms_next_seq (sys_store c)" using ok by (simp add: stream_ok_def)
      show ?thesis
      proof (cases "mr_seq b \<le> sm_seq st")
        case True
        then have "\<not> ms_next_seq (sys_store c) < mr_seq b" using bound by auto
        with steps_new_records [OF c'(1) inv] b(1) have "b \<in> snd ` set (ms_records (sys_store c))"
          by (fastforce simp: c'(2))
        with True b(2) ok c(3) have "b \<in> set (collected st)" by (auto simp: stream_ok_def)
        with b(3) have "b \<in> set rest" by (simp add: coll)
        moreover obtain xs ys where "sm_out st = xs @ a # ys" using split_list [OF yielded] by blast
        ultimately show ?thesis using strict [OF yielded b(1), of xs "ys @ rest"] by (simp add: coll)
      qed (use a in auto)
    qed
  qed
qed

lemma caught_up_all:
  assumes "live_stream s t st" "commit_order s" "kept s st" "caught_up s st"
  shows "sm_out st = fst (records_from_locked 0 t s)"
proof -
  let ?F = "fst (records_from_locked 0 t s)"
  have "sm_from st = t" using assms(1) by (auto simp: live_stream_def)
  then have "set ?F \<subseteq> set (sm_out st)" using assms(4) by (auto simp: caught_up_def set_snapshot)
  moreover have "distinct ?F"
  proof -
    obtain c c' where "mem_reachable c" "rtranclp mem_step c c'" "ms_records (sys_store c') = ms_records s"
      using assms(1) unfolding live_stream_def by blast
    then have "seq_invar (sys_store c')" "records_from_locked 0 t (sys_store c') = (?F, ms_next_seq (sys_store c'))"
      using sys_invar_steps [OF _ reachable_invar] by (auto simp: sys_invar_def records_from_locked_def)
    from distinct_snapshot [OF this(1), of 0 t] this(2) show ?thesis by (simp add: distinct_map)
  qed
  moreover have "sm_out st = take (length (sm_out st)) ?F" using assms(1-3) by (rule live_stream_prefix)
  ultimately have "length ?F \<le> length (sm_out st)"
    by (metis card_length card_mono distinct_card List.finite_set order_trans)
  with \<open>sm_out st = take (length (sm_out st)) ?F\<close> show ?thesis by simp
qed

section \<open>Connections to a live store\<close>

text \<open>What a stream hands to the firehose handler: its records, and the error it may end with.\<close>

definition mem_stream_items :: "stream_state \<Rightarrow> error option \<Rightarrow> revocation_record result list" where
  "mem_stream_items st failed =
     map (\<lambda>e. Inr (mr_record e)) (sm_out st) @ (case failed of None \<Rightarrow> [] | Some e \<Rightarrow> [Inl e])"

text \<open>
  An attempt that is refused, or reaches the firehose over a store that comes to hold the
  records of \<open>s\<close>: each stream is one of \<open>L\<close>, at any moment of its life when the connection
  ends.
\<close>

definition mem_connects ::
  "('w, 'r) http_env \<Rightarrow> mem_store \<Rightarrow> stream_state set \<Rightarrow> transport \<Rightarrow> bool" where
  "mem_connects env s L tr \<longleftrightarrow>
     (\<forall>url. \<exists>e. tr url = Inl e) \<or>
     (\<exists>net hist failed n e.
        tr = firehose_transport env net (\<lambda>t. mem_stream_items (hist t) (failed t)) n e \<and>
        (\<forall>t. hist t \<in> L \<and> live_stream s t (hist t) \<and>
           (\<forall>x. failed t = Some x \<longrightarrow> reportable env x)))"

text \<open>One whose streams have caught up, over a connection that is not cut off.\<close>

definition mem_connects_whole ::
  "('w, 'r) http_env \<Rightarrow> mem_store \<Rightarrow> stream_state set \<Rightarrow> transport \<Rightarrow> bool" where
  "mem_connects_whole env s L tr \<longleftrightarrow>
     (\<exists>net hist n e.
        tr = firehose_transport env net (\<lambda>t. mem_stream_items (hist t) None) n e \<and>
        (\<forall>t. hist t \<in> L \<and> live_stream s t (hist t) \<and> caught_up s (hist t) \<and>
           fst (firehose_loop env net (mem_stream_items (hist t) None) []) = None \<and>
           length (snd (firehose_loop env net (mem_stream_items (hist t) None) [])) \<le> n))"

lemma live_records:
  assumes "live_stream s t st" "commit_order s" "kept s st" "\<forall>r \<in> set (snapshot 0 s). 0 \<le> rr_recorded_at r"
  shows "map mr_record (sm_out st) =
    take (length (sm_out st)) (filter (\<lambda>r. t \<le> rr_recorded_at r) (snapshot 0 s))"
proof -
  have "map mr_record (sm_out st) = take (length (sm_out st)) (snapshot t s)"
    unfolding snapshot_def take_map using assms(1-3) by (intro arg_cong [where f = "map mr_record"] live_stream_prefix)
  then show ?thesis by (simp only: snapshot_filter [OF assms(4), of t])
qed

lemma mem_items_split:
  "mem_stream_items st failed =
     map Inr (map mr_record (sm_out st)) @ map Inl (case failed of None \<Rightarrow> [] | Some x \<Rightarrow> [x])"
  by (simp add: mem_stream_items_def split: option.split)

lemma instants_times: "instants (events_of recs) \<Longrightarrow> \<forall>r \<in> set recs. 0 \<le> rr_recorded_at r"
  by (auto simp: instants_def events_of_def firehose_value_of_def)

lemma mem_connects_log:
  assumes "commit_order s" "\<forall>r \<in> set (snapshot 0 s). 0 \<le> rr_recorded_at r"
    and "\<forall>st \<in> L. kept s st" "mem_connects env s L tr"
  shows "connects env (snapshot 0 s) tr"
  using assms(4) unfolding mem_connects_def
proof
  assume "\<forall>url. \<exists>e. tr url = Inl e"
  then show ?thesis by (simp add: connects_def)
next
  assume "\<exists>net hist failed n e.
      tr = firehose_transport env net (\<lambda>t. mem_stream_items (hist t) (failed t)) n e \<and>
      (\<forall>t. hist t \<in> L \<and> live_stream s t (hist t) \<and>
         (\<forall>x. failed t = Some x \<longrightarrow> reportable env x))"
  then obtain net hist failed n e where
    tr: "tr = firehose_transport env net (\<lambda>t. mem_stream_items (hist t) (failed t)) n e"
    and hist: "\<And>t. live_stream s t (hist t)" "\<And>t x. failed t = Some x \<Longrightarrow> reportable env x"
      "\<And>t. kept s (hist t)"
    using assms(3) by blast
  have "brings env (snapshot 0 s) (\<lambda>t. mem_stream_items (hist t) (failed t))"
    unfolding brings_def
  proof (intro allI impI)
    fix t :: time
    let ?n = "length (sm_out (hist t))"
    let ?fails = "case failed t of None \<Rightarrow> [] | Some x \<Rightarrow> [x]"
    have "mem_stream_items (hist t) (failed t) =
        map Inr (take ?n (filter (\<lambda>r. t \<le> rr_recorded_at r) (snapshot 0 s))) @ map Inl ?fails"
      unfolding mem_items_split live_records [OF hist(1) assms(1) hist(3) assms(2), symmetric] ..
    moreover have "list_all (reportable env) ?fails" using hist(2) [of t] by (simp split: option.split)
    ultimately show "\<exists>k fails. mem_stream_items (hist t) (failed t) =
        map Inr (take k (filter (\<lambda>r. t \<le> rr_recorded_at r) (snapshot 0 s))) @ map Inl fails \<and>
        list_all (reportable env) fails" by blast
  qed
  then show ?thesis unfolding connects_def tr by blast
qed

lemma mem_connects_whole_log:
  assumes "commit_order s" "\<forall>r \<in> set (snapshot 0 s). 0 \<le> rr_recorded_at r"
    and "\<forall>st \<in> L. kept s st" "mem_connects_whole env s L tr"
  shows "connects_whole env (snapshot 0 s) tr"
proof -
  obtain net hist n e where
    tr: "tr = firehose_transport env net (\<lambda>t. mem_stream_items (hist t) None) n e"
    and hist: "\<And>t. live_stream s t (hist t)" "\<And>t. kept s (hist t)" "\<And>t. caught_up s (hist t)"
    and sent: "\<And>t. fst (firehose_loop env net (mem_stream_items (hist t) None) []) = None"
      "\<And>t. length (snd (firehose_loop env net (mem_stream_items (hist t) None) [])) \<le> n"
    using assms(3,4) unfolding mem_connects_whole_def by blast
  have "mem_stream_items (hist t) None = map Inr (filter (\<lambda>r. t \<le> rr_recorded_at r) (snapshot 0 s))" for t
    using caught_up_all [OF hist(1) assms(1) hist(2,3), of t] snapshot_filter [OF assms(2), of t]
    by (simp add: mem_items_split snapshot_def)
  with sent show ?thesis unfolding connects_whole_def tr by blast
qed

section \<open>Streams of a store that is not written to\<close>

text \<open>A stream opened now may be cut off at once, or deliver the whole snapshot.\<close>

lemma live_from_now:
  assumes "mem_reachable c" "Suc (unat (ms_next_subscriber (sys_store c))) < 2 ^ 64"
    and "ms_records s = ms_records (sys_store c)"
  shows "\<exists>st. live_stream s t st \<and> sm_out st = []"
    and "\<exists>st. live_stream s t st \<and> kept s st \<and> caught_up s st \<and> map mr_record (sm_out st) = snapshot t s"
proof -
  obtain i st s' where st: "stream_open t (sys_store c) = (i, st, s')" by (cases "stream_open t (sys_store c)")
  let ?es = "fst (records_from_locked 0 t (sys_store c))"
  have eqs: "sm_from st = t" "sm_out st = []" "sm_phase st = Delivering ?es"
    "ms_records s' = ms_records s"
    using st assms(3) by (auto simp: stream_open_eq)
  let ?c = "c\<lparr>sys_store := s', sys_streams := (sys_streams c)(i \<mapsto> st)\<rparr>"
  have "mem_step c ?c" using assms(2) st by (rule mem_step.open_stream)
  then have reach: "mem_reachable ?c"
    using assms(1) unfolding mem_reachable_def by (blast intro: rtranclp.rtrancl_into_rtrancl)
  then show "\<exists>st. live_stream s t st \<and> sm_out st = []"
    using eqs unfolding live_stream_def by (intro exI [of _ st] conjI exI [of _ ?c] exI [of _ i]) simp_all
  let ?st = "st\<lparr>sm_out := ?es, sm_phase := Waiting\<rparr>"
  obtain c' where c': "rtranclp mem_step ?c c'" "sys_store c' = s'" "sys_streams c' i = Some ?st"
    using drain [of ?c i st ?es] eqs stream_steps_mem by fastforce
  have "mem_reachable c'"
    using reach c'(1) unfolding mem_reachable_def by (blast intro: rtranclp_trans)
  moreover have es: "set ?es = {e. e \<in> snd ` set (ms_records s) \<and> entry_matches 0 t e}"
    by (simp add: set_snapshot assms(3))
  ultimately have "live_stream s t ?st"
    using c'(2,3) eqs unfolding live_stream_def
    by (intro exI [of _ c'] exI [of _ i] conjI) auto
  moreover have "kept s ?st" using es by (auto simp: kept_def)
  moreover have "caught_up s ?st" using es eqs(1) by (force simp: caught_up_def)
  moreover have "map mr_record (sm_out ?st) = snapshot t s"
    by (simp add: snapshot_def records_from_locked_def assms(3))
  ultimately show "\<exists>st. live_stream s t st \<and> kept s st \<and> caught_up s st \<and> map mr_record (sm_out st) = snapshot t s"
    by blast
qed

lemma mem_connects_now:
  assumes "mem_reachable c" "Suc (unat (ms_next_subscriber (sys_store c))) < 2 ^ 64"
    and "ms_records s = ms_records (sys_store c)"
  shows "mem_connects env s {st. kept s st} (firehose_transport env net (\<lambda>_. []) n e)"
proof -
  have "\<forall>t. \<exists>st. live_stream s t st \<and> sm_out st = []" using live_from_now(1) [OF assms] by blast
  then obtain hist where "\<And>t. live_stream s t (hist t)" "\<And>t. sm_out (hist t) = []" by metis
  then show ?thesis unfolding mem_connects_def
    by (intro disjI2 exI [of _ net] exI [of _ hist] exI [of _ "\<lambda>_. None"] exI [of _ n] exI [of _ e])
      (simp add: mem_stream_items_def kept_def)
qed

lemma mem_connects_whole_now:
  assumes "mem_reachable c" "Suc (unat (ms_next_subscriber (sys_store c))) < 2 ^ 64"
    and "ms_records s = ms_records (sys_store c)"
    and "\<And>t. fst (firehose_loop env net (map Inr (snapshot t s)) []) = None"
    and "\<And>t. length (snd (firehose_loop env net (map Inr (snapshot t s)) [])) \<le> n"
  shows "mem_connects_whole env s {st. kept s st} (firehose_transport env net (\<lambda>t. map Inr (snapshot t s)) n e)"
proof -
  have "\<forall>t. \<exists>st. live_stream s t st \<and> kept s st \<and> caught_up s st \<and> map mr_record (sm_out st) = snapshot t s"
    using live_from_now(2) [OF assms(1-3)] by blast
  then obtain hist where hist: "\<And>t. live_stream s t (hist t)" "\<And>t. kept s (hist t)"
    "\<And>t. caught_up s (hist t)"
    "\<And>t. map mr_record (sm_out (hist t)) = snapshot t s" by metis
  then have "mem_stream_items (hist t) None = map Inr (snapshot t s)" for t by (simp add: mem_items_split)
  with hist assms(4,5) show ?thesis unfolding mem_connects_whole_def
    by (intro exI [of _ net] exI [of _ hist] exI [of _ n] exI [of _ e]) simp
qed

lemma mem_connects_whole_part:
  assumes "mem_connects_whole env s L tr" shows "mem_connects env s L tr"
proof -
  obtain net hist n e where "tr = firehose_transport env net (\<lambda>t. mem_stream_items (hist t) None) n e"
    "\<And>t. live_stream s t (hist t)" "\<And>t. hist t \<in> L"
    using assms unfolding mem_connects_whole_def by blast
  then show ?thesis unfolding mem_connects_def
    by (intro disjI2 exI [of _ net] exI [of _ hist] exI [of _ "\<lambda>_. None"] exI [of _ n] exI [of _ e]) simp
qed

section \<open>A stream at rest\<close>

text \<open>
  Whatever the writers do, and in whatever order they commit: a delegation stays revoked, and
  a stream at rest has yielded the record the store has of it, if it is not from before the
  start of the stream.
\<close>

lemma mem_step_keeps:
  assumes "mem_step c c'" "mem_invar (sys_store c)"
  shows "mem_invar (sys_store c')"
    and "record_at (sys_store c) k \<noteq> None \<Longrightarrow> record_at (sys_store c') k \<noteq> None"
proof -
  have "mem_invar (sys_store c') \<and> (record_at (sys_store c) k \<noteq> None \<longrightarrow> record_at (sys_store c') k \<noteq> None)"
    using assms
  proof (induction rule: mem_step.induct)
    case (commit_write c ws t b ws')
    then have "mem_invar (snd (mem_add_batch None t b (sys_store c)))" by (intro mem_invar_add_batch)
    moreover have "record_at (snd (mem_add_batch None t b (sys_store c))) k \<noteq> None"
      if "record_at (sys_store c) k \<noteq> None"
      unfolding record_at_add_batch_None using that by blast
    ultimately show ?case by simp
  qed (auto simp: mem_invar_def stream_open_eq stream_wake_def stream_close_def)
  then show "mem_invar (sys_store c')"
    "record_at (sys_store c) k \<noteq> None \<Longrightarrow> record_at (sys_store c') k \<noteq> None" by blast+
qed

lemma mem_steps_keep:
  "rtranclp mem_step c c' \<Longrightarrow> mem_invar (sys_store c) \<Longrightarrow>
     mem_invar (sys_store c') \<and> (record_at (sys_store c) k \<noteq> None \<longrightarrow> record_at (sys_store c') k \<noteq> None)"
proof (induction rule: rtranclp_induct)
  case base
  then show ?case by blast
next
  case (step c1 c2)
  with mem_step_keeps(1) [OF step.hyps(2)] mem_step_keeps(2) [OF step.hyps(2), of k]
  show ?case by blast
qed

lemma idle_yielded:
  assumes "mem_reachable c" "idle c i st" "mem_get None k (sys_store c) = Inr x"
    and "sm_from st \<le> rr_recorded_at x"
  shows "x \<in> set (map mr_record (sm_out st))"
proof -
  note inv = reachable_invar [OF assms(1)]
  obtain e where e: "(k, e) \<in> set (ms_records (sys_store c))" "x = mr_record e"
    using assms(3) by (auto simp: mem_get_Inr dest: map_of_SomeD)
  then have "entry_matches 0 (sm_from st) e"
    using inv assms(4) by (auto simp: sys_invar_def seq_invar_def entry_matches_def)
  then show ?thesis
    using idle_caught_up [OF inv assms(2)] e by (auto simp: caught_up_def)
qed

lemma mem_stream_items_running: "mem_stream_items st None = map Inr (map mr_record (sm_out st))"
  by (simp add: mem_stream_items_def)

end
