(* ===== verification/Backoff.thy ===== *)
theory Backoff
  imports Client
begin

text \<open>
  The pace at which \<open>Stream\<close> of \<^verbatim>\<open>pkg/client/client.go\<close> reconnects: the loop of \<^verbatim>\<open>Client.thy\<close>
  with its back-off and the waits it asks for. The exponential back-off is a library: a
  record of its operations, with the laws its documentation states.
\<close>

section \<open>The loop with its waits\<close>

text \<open>The bounds, in nanoseconds, and the back-off with its two settings.\<close>

definition stream_min_backoff :: time where
  "stream_min_backoff = second"

definition stream_max_backoff :: time where
  "stream_max_backoff = 60 * second"

record 'b backoff =
  bk_new :: 'b
  bk_initial :: "time \<Rightarrow> 'b \<Rightarrow> 'b"
  bk_max :: "time \<Rightarrow> 'b \<Rightarrow> 'b"
  bk_reset :: "'b \<Rightarrow> 'b"
  bk_next :: "'b \<Rightarrow> time \<times> 'b"

definition stream_backoff :: "'b backoff \<Rightarrow> 'b" where
  "stream_backoff bk = bk_max bk stream_max_backoff (bk_initial bk stream_min_backoff (bk_new bk))"

text \<open>
  A wait is recorded with whether the connection before it had been established. It is asked
  for when the loop selects between it and the context, also when the context is done first.
\<close>

fun timed_stream ::
  "'b backoff \<Rightarrow> ('w, 'r) client \<Rightarrow> (api_firehose list \<Rightarrow> api_firehose \<Rightarrow> bool) \<Rightarrow> attempt list \<Rightarrow> bool \<Rightarrow>
     'b \<Rightarrow> session \<Rightarrow> (bool \<times> time) list \<Rightarrow> ending \<times> session \<times> (bool \<times> time) list" where
  "timed_stream bk cl accept [] connected bo st waits = (Retrying, st, waits)"
| "timed_stream bk cl accept (a # attempts) connected bo st waits =
     (let (err, st') = stream_conn cl (at_transport a) (ss_resume st) (deliver accept) st in
      if is_some_with (\<lambda>e. errors_is e StreamStopped) err then (Stopped, st', waits)
      else case at_ctx a of
          Some c \<Rightarrow> (Failed c, st', waits)
        | None \<Rightarrow>
            if is_some_with is_corrupt err then (Failed (the err), st', waits)
            else if is_some_with is_connect err \<and> \<not> connected then (Failed (the err), st', waits)
            else (let established = (\<not> is_some_with is_connect err);
                      (wait, bo) = bk_next bk (if established then bk_reset bk bo else bo);
                      waits = waits @ [(established, wait)]
                  in case at_wait a of
                       Some c \<Rightarrow> (Failed c, st', waits)
                     | None \<Rightarrow> timed_stream bk cl accept attempts (connected \<or> established) bo st' waits))"

text \<open>Without the waits it is the loop of the client.\<close>

lemma timed_stream_untimed:
  "fst (timed_stream bk cl accept attempts connected bo st waits) =
     fst (client_stream cl accept attempts connected st)"
  "fst (snd (timed_stream bk cl accept attempts connected bo st waits)) =
     snd (client_stream cl accept attempts connected st)"
  by (induction attempts arbitrary: connected bo st waits)
    (simp_all add: Let_def split: prod.split option.split)

section \<open>The pace\<close>

text \<open>
  The documented behaviour of the library: \<open>interval\<close> starts at the initial setting after a
  reset, does not shrink or pass the maximum when a wait is asked for, and the wait is the
  interval with a jitter of at most one half. The maximum caps the interval, not the wait.
\<close>

definition exponential :: "'b backoff \<Rightarrow> ('b \<Rightarrow> time \<times> time) \<Rightarrow> ('b \<Rightarrow> time) \<Rightarrow> bool" where
  "exponential bk settings interval \<longleftrightarrow>
     (\<forall>t b. settings (bk_initial bk t b) = (t, snd (settings b))) \<and>
     (\<forall>t b. settings (bk_max bk t b) = (fst (settings b), t)) \<and>
     (\<forall>b. settings (bk_reset bk b) = settings b \<and> interval (bk_reset bk b) = fst (settings b)) \<and>
     (\<forall>b. settings (snd (bk_next bk b)) = settings b \<and>
        (0 \<le> interval b \<and> interval b \<le> snd (settings b) \<longrightarrow>
           interval b \<le> 2 * fst (bk_next bk b) \<and> 2 * fst (bk_next bk b) \<le> 3 * interval b \<and>
           interval b \<le> interval (snd (bk_next bk b)) \<and> interval (snd (bk_next bk b)) \<le> snd (settings b)))"

definition paced :: "bool \<times> time \<Rightarrow> bool" where
  "paced ew \<longleftrightarrow> stream_min_backoff \<le> 2 * snd ew \<and> 2 * snd ew \<le> 3 * stream_max_backoff \<and>
     (fst ew \<longrightarrow> 2 * snd ew \<le> 3 * stream_min_backoff)"

text \<open>
  The library's state between turns: as configured, and once connected with an interval
  between the bounds. Until then nothing has been asked of it, since a first connection that
  fails ends the stream.
\<close>

definition in_bounds :: "('b \<Rightarrow> time \<times> time) \<Rightarrow> ('b \<Rightarrow> time) \<Rightarrow> bool \<Rightarrow> 'b \<Rightarrow> bool" where
  "in_bounds settings interval connected b \<longleftrightarrow>
     settings b = (stream_min_backoff, stream_max_backoff) \<and>
     (connected \<longrightarrow> stream_min_backoff \<le> interval b \<and> interval b \<le> stream_max_backoff)"

lemma next_paced:
  assumes "exponential bk settings interval" "in_bounds settings interval connected b"
    and "connected \<or> established"
    and "bk_next bk (if established then bk_reset bk b else b) = (wait, b')"
  shows "paced (established, wait)" and "in_bounds settings interval True b'"
proof -
  let ?b = "if established then bk_reset bk b else b"
  have min_max: "stream_min_backoff \<le> stream_max_backoff"
    by (simp add: stream_min_backoff_def stream_max_backoff_def)
  have set: "settings ?b = (stream_min_backoff, stream_max_backoff)"
    using assms(1,2) by (auto simp: exponential_def in_bounds_def)
  have low: "established \<longrightarrow> interval ?b = stream_min_backoff"
    and range: "stream_min_backoff \<le> interval ?b" "interval ?b \<le> stream_max_backoff"
    using assms(1,2,3) min_max by (auto simp: exponential_def in_bounds_def)
  have "settings b' = settings ?b \<and> (0 \<le> interval ?b \<and> interval ?b \<le> snd (settings ?b) \<longrightarrow>
      interval ?b \<le> 2 * wait \<and> 2 * wait \<le> 3 * interval ?b \<and>
      interval ?b \<le> interval b' \<and> interval b' \<le> snd (settings ?b))"
    using assms(1,4) unfolding exponential_def by (metis fst_conv snd_conv)
  moreover have "0 \<le> interval ?b" using range(1) by (simp add: stream_min_backoff_def)
  ultimately have next_b: "settings b' = (stream_min_backoff, stream_max_backoff)"
    "interval ?b \<le> 2 * wait" "2 * wait \<le> 3 * interval ?b" "interval ?b \<le> interval b'"
    "interval b' \<le> stream_max_backoff" using set range by simp_all
  show "paced (established, wait)" using next_b low range by (auto simp: paced_def)
  show "in_bounds settings interval True b'" using next_b range by (simp add: in_bounds_def)
qed

lemma timed_stream_paced:
  assumes "exponential bk settings interval"
  shows "in_bounds settings interval connected bo \<Longrightarrow> list_all paced waits \<Longrightarrow>
    timed_stream bk cl accept attempts connected bo st waits = (e, st', waits') \<Longrightarrow> list_all paced waits'"
proof (induction attempts arbitrary: connected bo st waits)
  case Nil
  then show ?case by simp
next
  case (Cons a attempts)
  obtain err st1 where conn: "stream_conn cl (at_transport a) (ss_resume st) (deliver accept) st = (err, st1)"
    by (cases "stream_conn cl (at_transport a) (ss_resume st) (deliver accept) st")
  let ?established = "\<not> is_some_with is_connect err"
  obtain wait bo1 where nxt: "bk_next bk (if ?established then bk_reset bk bo else bo) = (wait, bo1)"
    by (cases "bk_next bk (if ?established then bk_reset bk bo else bo)")
  show ?case
  proof (cases "is_some_with (\<lambda>e. errors_is e StreamStopped) err \<or> at_ctx a \<noteq> None \<or>
      is_some_with is_corrupt err \<or> is_some_with is_connect err \<and> \<not> connected")
    case True
    with Cons.prems(2,3) conn show ?thesis by (auto simp: Let_def split: if_splits option.splits)
  next
    case False
    then have "connected \<or> ?established" by blast
    note pace = next_paced [OF assms Cons.prems(1) this nxt]
    have "list_all paced (waits @ [(?established, wait)])" using Cons.prems(2) pace(1) by simp
    moreover have "in_bounds settings interval (connected \<or> ?established) bo1"
      using pace(2) by (simp add: in_bounds_def)
    ultimately show ?thesis
      using Cons.IH Cons.prems(3) conn nxt False
      by (auto simp: Let_def simp del: list_all_append split: option.splits)
  qed
qed

lemma timed_stream_waits:
  "fst (timed_stream bk cl accept attempts connected bo st waits) = Retrying \<Longrightarrow>
     length (snd (snd (timed_stream bk cl accept attempts connected bo st waits))) =
       length waits + length attempts"
  by (induction attempts arbitrary: connected bo st waits)
    (auto simp: Let_def split: prod.splits option.splits if_splits)

lemma stream_backoff_in_bounds:
  assumes "exponential bk settings interval"
  shows "in_bounds settings interval False (stream_backoff bk)"
  using assms by (simp add: exponential_def in_bounds_def stream_backoff_def)

text \<open>C34: A stream neither hammers the service nor gives it up: between two connections of Stream
  lies a wait of at least half a second and at most 90 seconds, and of at most one and a half
  when the connection before had been established, so that the waits grow only while the
  service cannot be reached. The waits are those of the very loop that delivers the records,
  one for every connection while it goes on.\<close>

theorem reconnects_are_paced:
  assumes "exponential bk settings interval"
    and "timed_stream bk cl accept attempts False (stream_backoff bk) (new_session from) [] = (e, st, waits)"
  shows "stream_from cl accept attempts from = (e, st) \<and>
    (e = Retrying \<longrightarrow> length waits = length attempts) \<and>
    (\<forall>(established, wait) \<in> set waits.
       second \<le> 2 * wait \<and> wait \<le> 90 * second \<and> (established \<longrightarrow> 2 * wait \<le> 3 * second))"
proof (intro conjI)
  show "stream_from cl accept attempts from = (e, st)"
    using timed_stream_untimed [of bk cl accept attempts False "stream_backoff bk" "new_session from" "[]"]
    by (simp add: assms(2) stream_from_def prod_eq_iff)
  show "e = Retrying \<longrightarrow> length waits = length attempts"
    using timed_stream_waits [of bk cl accept attempts False "stream_backoff bk" "new_session from" "[]"]
    by (simp add: assms(2))
  have "list_all paced waits"
    using timed_stream_paced [OF assms(1) stream_backoff_in_bounds [OF assms(1)] _ assms(2)] by simp
  then show "\<forall>(established, wait) \<in> set waits.
      second \<le> 2 * wait \<and> wait \<le> 90 * second \<and> (established \<longrightarrow> 2 * wait \<le> 3 * second)"
    by (auto simp: list_all_iff paced_def stream_min_backoff_def stream_max_backoff_def)
qed

text \<open>A back-off without jitter that doubles its interval: the settings and the interval.\<close>

definition doubling :: "(time \<times> time \<times> time) backoff" where
  "doubling =
     \<lparr>bk_new = (0, 0, 0), bk_initial = (\<lambda>t (_, m, i). (t, m, i)), bk_max = (\<lambda>t (f, _, i). (f, t, i)),
      bk_reset = (\<lambda>(f, m, _). (f, m, f)), bk_next = (\<lambda>(f, m, i). (i, f, m, min m (2 * i)))\<rparr>"

lemma doubling_exponential: "exponential doubling (\<lambda>(f, m, _). (f, m)) (\<lambda>(_, _, i). i)"
  by (auto simp: exponential_def doubling_def)

theorem reconnects_are_paced_witness:
  "\<exists>e st w1 w2. timed_stream doubling sample_client (\<lambda>_ _. True) [web_server (\<lambda>_. []), refused] False
      (stream_backoff doubling) (new_session 0) [] = (e, st, [w1, w2]) \<and>
    snd w1 \<le> 90 * second \<and> second \<le> 2 * snd w2"
proof -
  let ?run = "timed_stream doubling sample_client (\<lambda>_ _. True) [web_server (\<lambda>_. []), refused] False
      (stream_backoff doubling) (new_session 0) []"
  obtain e st waits where run: "?run = (e, st, waits)" by (cases ?run)
  note paced = reconnects_are_paced [OF doubling_exponential run]
  have "fst (stream_from sample_client (\<lambda>_ _. True) [web_server (\<lambda>_. []), refused] 0) = Retrying"
    by (simp add: stream_from_start web_turn refused_turn year_10000_def del: client_stream.simps(2))
  then have "length waits = 2" using paced by simp
  then obtain w1 w2 where "waits = [w1, w2]" by (auto simp: numeral_2_eq_2 length_Suc_conv)
  with run paced show ?thesis by (cases w1; cases w2) auto
qed

end
