(* ===== verification/Cli.thy ===== *)
theory Cli
  imports Publish
begin

text \<open>
  The commands of \<^verbatim>\<open>cmd/swarf\<close>: \<open>revoke\<close> with the search for a witness path
  (\<open>readInput\<close>, \<open>decodeDelegations\<close>, \<open>witnessPath\<close>), \<open>get\<close>, and \<open>stream\<close>
  (\<open>validateFrom\<close>, \<open>writeStreamEvents\<close>). Files, keys, the parsing of URLs, DIDs and
  containers, and the process's output are parameters; the flags are arguments.
\<close>

section \<open>Reading the input\<close>

text \<open>\<open>fs_stat\<close> tells whether the path is a directory.\<close>

record file_system =
  fs_stat :: "string \<Rightarrow> bool result"
  fs_read :: "string \<Rightarrow> bytes result"

definition read_input :: "file_system \<Rightarrow> string \<Rightarrow> bytes result" where
  "read_input fs value =
     (case fs_stat fs value of
        Inl e \<Rightarrow>
          if errors_is e NotExist \<or> errors_is e NameTooLong then Inr value
          else Inl (Wrap ''stating delegation or container'' e)
      | Inr is_dir \<Rightarrow>
          if is_dir then Inl (Msg (''delegation or container is a directory: '' @ value))
          else (case fs_read fs value of
              Inl e \<Rightarrow> Inl (Wrap ''reading delegation or container'' e) | Inr data \<Rightarrow> Inr data))"

definition decode_delegations ::
  "ucan_lib \<Rightarrow> (bytes \<Rightarrow> delegation list result) \<Rightarrow> bytes \<Rightarrow> delegation list result" where
  "decode_delegations ul decode_container data =
     (case decode_delegation ul data of
        Inr d \<Rightarrow> Inr [d]
      | Inl _ \<Rightarrow>
          (case decode_container data of
             Inl e \<Rightarrow> Inl (Wrap ''decoding input as UCAN container (and not a CBOR delegation)'' e)
           | Inr ds \<Rightarrow> Inr ds))"

section \<open>The witness path\<close>

text \<open>
  The loop of \<open>witnessPath\<close>: from the last delegation of \<open>path\<close> to the one delegation
  whose audience issued it, until a delegation issued by its own subject. The path grows
  upwards; \<open>visited\<close> keeps the loop from going around.
\<close>

function climb ::
  "(cid \<Rightarrow> string) \<Rightarrow> delegation list \<Rightarrow> delegation \<Rightarrow> delegation list \<Rightarrow> cid list \<Rightarrow>
     delegation list result" where
  "climb cs ws tail path visited =
     (if dlg_issuer tail = dlg_subject tail then Inr path
      else case filter (\<lambda>d. dlg_audience d = dlg_issuer tail) ws of
          [] \<Rightarrow> Inl (Msg (''witness path has no parent for delegation '' @ cs (dlg_link tail)))
        | [parent] \<Rightarrow>
            if dlg_link parent \<in> set visited
            then Inl (Msg (''witness path contains a cycle at delegation '' @ cs (dlg_link parent)))
            else climb cs ws parent (path @ [parent]) (dlg_link parent # visited)
        | _ \<Rightarrow> Inl (Msg (''witness path has multiple parents for delegation '' @ cs (dlg_link tail))))"
  by pat_completeness auto
termination
proof (relation "measure (\<lambda>(cs, ws, tail, path, visited). card (dlg_link ` set ws - set visited))",
    goal_cases)
  case 1
  then show ?case by simp
next
  case (2 cs ws tail path visited parent rest)
  then have "parent \<in> set ws" using filter_eq_ConsD [of _ ws parent] by force
  then have "dlg_link ` set ws - set (dlg_link parent # visited) \<subset> dlg_link ` set ws - set visited"
    using 2 by auto
  then show ?case by (auto intro!: psubset_card_mono)
qed

declare climb.simps [simp del]

text \<open>The exchange loop that turns the path around in place.\<close>

definition exchange :: "nat \<Rightarrow> 'a list \<Rightarrow> 'a list" where
  "exchange i xs =
     (let opposite = length xs - 1 - i in xs[i := xs ! opposite, opposite := xs ! i])"

definition reverse_in_place :: "'a list \<Rightarrow> 'a list" where
  "reverse_in_place xs = fold exchange (rev [0..<length xs div 2]) xs"

definition witness_path ::
  "(cid \<Rightarrow> string) \<Rightarrow> cid \<Rightarrow> did \<Rightarrow> delegation list \<Rightarrow> delegation list result" where
  "witness_path cs revoke signer ws =
     (case witness_map ws revoke of
        None \<Rightarrow> Inl (Msg ''input must include the revoked delegation'')
      | Some current \<Rightarrow>
          if dlg_issuer current = signer then Inr [current]
          else (case climb cs ws current [current] [dlg_link current] of
              Inl e \<Rightarrow> Inl e
            | Inr path \<Rightarrow> Inr (reverse_in_place path)))"

lemma fold_exchange_nth:
  assumes "k \<le> length xs div 2" "j < length xs"
  shows "fold exchange (rev [0..<k]) xs ! j =
    (if j < k \<or> length xs - 1 - j < k then xs ! (length xs - 1 - j) else xs ! j) \<and>
    length (fold exchange (rev [0..<k]) xs) = length xs"
  using assms
proof (induction k arbitrary: xs)
  case 0
  then show ?case by simp
next
  case (Suc k)
  let ?n = "length xs"
  let ?ys = "exchange k xs"
  have len: "length ?ys = ?n" by (simp add: exchange_def Let_def)
  have k: "k < ?n - 1 - k" "?n - 1 - k < ?n" using Suc.prems(1) by linarith+
  have nth: "?ys ! i = (if i = k then xs ! (?n - 1 - k) else if i = ?n - 1 - k then xs ! k else xs ! i)"
    if "i < ?n" for i
    using that k by (simp add: exchange_def Let_def nth_list_update)
  have ih: "fold exchange (rev [0..<k]) ?ys ! j =
      (if j < k \<or> ?n - 1 - j < k then ?ys ! (?n - 1 - j) else ?ys ! j) \<and>
      length (fold exchange (rev [0..<k]) ?ys) = ?n"
    using Suc.IH [of ?ys] Suc.prems len by simp
  have opp: "?n - 1 - j < ?n" "?n - 1 - j = k \<longleftrightarrow> j = ?n - 1 - k"
    "?n - 1 - j = ?n - 1 - k \<longleftrightarrow> j = k" "?n - 1 - (?n - 1 - k) = k"
    using Suc.prems k by linarith+
  note at_j = nth [OF Suc.prems(2)] and at_opp = nth [OF opp(1)]
  consider "j = k" | "j = ?n - 1 - k" "j \<noteq> k" | "j \<noteq> k" "j \<noteq> ?n - 1 - k" by blast
  then show ?case
  proof cases
    case 1
    then have "\<not> (j < k \<or> ?n - 1 - j < k)" "j < Suc k" using k by linarith+
    with ih at_j 1 show ?thesis by simp
  next
    case 2
    then have "\<not> (j < k \<or> ?n - 1 - j < k)" "?n - 1 - j < Suc k" using k opp by linarith+
    with ih at_j 2 opp(4) show ?thesis by simp
  next
    case 3
    then have "j < Suc k \<longleftrightarrow> j < k" "?n - 1 - j < Suc k \<longleftrightarrow> ?n - 1 - j < k"
      using opp(2) by linarith+
    with ih at_j at_opp 3 opp(2,3) show ?thesis
      by (cases "j < k \<or> ?n - 1 - j < k") simp_all
  qed
qed

lemma reverse_in_place_rev: "reverse_in_place xs = rev xs"
proof (rule nth_equalityI)
  show len: "length (reverse_in_place xs) = length (rev xs)"
    using fold_exchange_nth [of "length xs div 2" xs 0]
    by (cases xs) (auto simp: reverse_in_place_def)
  fix j
  assume "j < length (reverse_in_place xs)"
  then have j: "j < length xs" using len by simp
  show "reverse_in_place xs ! j = rev xs ! j"
  proof (cases "j < length xs div 2 \<or> length xs - 1 - j < length xs div 2")
    case True
    with j fold_exchange_nth [of "length xs div 2" xs j] show ?thesis
      by (simp add: reverse_in_place_def rev_nth)
  next
    case False
    then have "length xs - 1 - j = j" using j by linarith
    with False j fold_exchange_nth [of "length xs div 2" xs j] show ?thesis
      by (simp add: reverse_in_place_def rev_nth)
  qed
qed

text \<open>An upward path: every further delegation was issued to the issuer of the one before it.\<close>

definition upward :: "delegation list \<Rightarrow> delegation list \<Rightarrow> bool" where
  "upward ws path \<longleftrightarrow>
     path \<noteq> [] \<and> set path \<subseteq> set ws \<and> distinct (map dlg_link path) \<and>
     successively (\<lambda>d p. dlg_audience p = dlg_issuer d) path"

lemma climb_sound:
  assumes "climb cs ws tail path visited = Inr p" "upward ws path" "last path = tail"
    "set visited = dlg_link ` set path"
  shows "upward ws p \<and> hd p = hd path \<and> dlg_issuer (last p) = dlg_subject (last p)"
  using assms
proof (induction cs ws tail path visited rule: climb.induct)
  case (1 cs ws tail path visited)
  show ?case
  proof (cases "dlg_issuer tail = dlg_subject tail")
    case True
    with 1 show ?thesis by (simp add: climb.simps [of cs ws tail])
  next
    case False
    with "1.prems"(1) obtain parent where parent:
      "filter (\<lambda>d. dlg_audience d = dlg_issuer tail) ws = [parent]" "dlg_link parent \<notin> set visited"
      "climb cs ws parent (path @ [parent]) (dlg_link parent # visited) = Inr p"
      by (auto simp: climb.simps [of cs ws tail] split: list.splits if_splits)
    have "parent \<in> set (filter (\<lambda>d. dlg_audience d = dlg_issuer tail) ws)" unfolding parent(1) by simp
    then have "upward ws (path @ [parent])"
      using "1.prems"(2-4) parent(2) by (auto simp: upward_def successively_append_iff)
    moreover have "hd (path @ [parent]) = hd path" using "1.prems"(2) by (simp add: upward_def)
    ultimately show ?thesis
      using "1.IH" [OF False parent(1) refl parent(2,3)] "1.prems"(4) by simp
  qed
qed

lemma successively_rev_chain:
  "successively (\<lambda>d p. dlg_audience p = dlg_issuer d) path \<Longrightarrow>
   successively (\<lambda>p d. dlg_issuer d = dlg_audience p) (rev path)"
  by (simp add: successively_rev eq_commute)

lemma witness_path_chain:
  assumes "witness_path cs revoke signer ws = Inr path"
  shows "path \<noteq> [] \<and> dlg_link (last path) = revoke \<and> set path \<subseteq> set ws \<and>
     distinct (map dlg_link path) \<and> successively (\<lambda>p d. dlg_issuer d = dlg_audience p) path \<and>
     (length path = 1 \<and> dlg_issuer (hd path) = signer \<or> dlg_subject (hd path) = dlg_issuer (hd path))"
proof -
  obtain current where current: "witness_map ws revoke = Some current"
    using assms by (auto simp: witness_path_def split: option.splits)
  note at = witness_map_Some [OF current]
  show ?thesis
  proof (cases "dlg_issuer current = signer")
    case True
    with assms current at show ?thesis by (auto simp: witness_path_def)
  next
    case False
    with assms current obtain p where p: "climb cs ws current [current] [dlg_link current] = Inr p"
      "path = rev p"
      by (auto simp: witness_path_def reverse_in_place_rev split: sum.splits)
    have "upward ws [current]" using at by (simp add: upward_def)
    from climb_sound [OF p(1) this] have up: "upward ws p" "hd p = current"
      "dlg_issuer (last p) = dlg_subject (last p)" by simp_all
    moreover from up(1) have "successively (\<lambda>p d. dlg_issuer d = dlg_audience p) (rev p)"
      by (intro successively_rev_chain) (simp add: upward_def)
    ultimately show ?thesis
      using at by (simp add: p(2) upward_def last_rev hd_rev rev_map [symmetric] del: successively_rev)
  qed
qed

text \<open>C26: A witness path the revoke command finds leads where it should: it ends with the
  revoked delegation, uses only delegations of the input, none twice, so it is no longer than
  the input, each issued to the issuer of the next one, and it starts at a delegation issued
  by its own subject, unless the revoker issued the revoked delegation and no path is needed.
  The search ends on every input, also one with cycles.\<close>

theorem witness_path_sound:
  assumes "witness_path cs revoke signer ws = Inr path"
  shows "path \<noteq> [] \<and> dlg_link (last path) = revoke \<and> set path \<subseteq> set ws \<and>
     length path \<le> length ws \<and> successively (\<lambda>p d. dlg_issuer d = dlg_audience p) path \<and>
     (path = [last path] \<and> dlg_issuer (last path) = signer \<or>
      dlg_subject (hd path) = dlg_issuer (hd path))"
proof -
  note chain = witness_path_chain [OF assms]
  then have "distinct path" by (auto simp: distinct_map)
  then have "length path = card (set path)" by (simp add: distinct_card)
  also have "\<dots> \<le> card (set ws)" using chain by (intro card_mono) auto
  also have "\<dots> \<le> length ws" by (rule card_length)
  finally have "length path \<le> length ws" .
  moreover have "length path = 1 \<Longrightarrow> path = [last path] \<and> hd path = last path"
    by (cases path) auto
  ultimately show ?thesis using chain by auto
qed

theorem witness_path_sound_witness:
  "witness_path cid_bytes (Cid ''leaf'') (Did ''carol'') [leaf_delegation, root_delegation] =
     Inr [root_delegation, leaf_delegation] \<and>
   dlg_subject root_delegation = dlg_issuer root_delegation"
proof -
  have w: "witness_path cid_bytes (Cid ''leaf'') (Did ''carol'') [leaf_delegation, root_delegation] =
      Inr [root_delegation, leaf_delegation]"
    by (simp add: witness_path_def witness_map_def request_defs climb.simps reverse_in_place_rev)
  with witness_path_sound [OF w] show ?thesis by (auto simp: request_defs)
qed

text \<open>
  The search finds the path when the input leaves no choice: every issuer in the chain but
  the root's is the audience of exactly one delegation of the input.
\<close>

definition only_parent :: "delegation list \<Rightarrow> delegation \<Rightarrow> delegation \<Rightarrow> bool" where
  "only_parent ws p d \<longleftrightarrow> filter (\<lambda>x. dlg_audience x = dlg_issuer d) ws = [p]"

lemma climb_finds:
  assumes "successively (\<lambda>d p. only_parent ws p d) (tail # rest)"
    and "\<forall>d \<in> set (butlast (tail # rest)). dlg_issuer d \<noteq> dlg_subject d"
    and "dlg_issuer (last (tail # rest)) = dlg_subject (last (tail # rest))"
    and "distinct (map dlg_link rest)" "set visited \<inter> dlg_link ` set rest = {}"
  shows "climb cs ws tail path visited = Inr (path @ rest)"
  using assms
proof (induction rest arbitrary: tail path visited)
  case Nil
  then show ?case by (simp add: climb.simps [of cs ws tail])
next
  case (Cons p rest)
  have "filter (\<lambda>x. dlg_audience x = dlg_issuer tail) ws = [p]"
    using Cons.prems(1) by (simp add: only_parent_def)
  moreover have "dlg_issuer tail \<noteq> dlg_subject tail" "dlg_link p \<notin> set visited"
    using Cons.prems(2,5) by auto
  moreover have "climb cs ws p (path @ [p]) (dlg_link p # visited) = Inr ((path @ [p]) @ rest)"
    using Cons.prems by (intro Cons.IH) auto
  ultimately show ?case by (simp add: climb.simps [of cs ws tail])
qed

text \<open>C27: The search finds the witness path whenever the input determines it: if the input holds a
  chain from a self-issued root to the revoked delegation in which each issuer received its
  authority through exactly one delegation of the input, the chain is the result, in root to
  leaf order, whatever else the input holds and in whatever order.\<close>

theorem witness_path_finds_chain:
  assumes "path = root # chain" and "chain \<noteq> []" and "distinct (map dlg_link path)"
    and "dlg_issuer root = dlg_subject root" and "\<forall>d \<in> set chain. dlg_issuer d \<noteq> dlg_subject d"
    and "successively (only_parent ws) path"
    and "witness_map ws revoke = Some (last path)" and "dlg_issuer (last path) \<noteq> signer"
  shows "witness_path cs revoke signer ws = Inr path"
proof -
  obtain rest where rest: "rest = rev (butlast path)" by simp
  have "path = butlast path @ [last path]" using assms(1) by simp
  then have rev: "rev path = last path # rest" unfolding rest by (metis rev_eq_Cons_iff rev_rev_ident)
  have path: "path = rev rest @ [last path]" using arg_cong [OF rev, of rev] by simp
  then have "rest \<noteq> []" "last rest = root" "rev chain = last path # butlast rest"
    using assms(1,2) rev by (auto simp: rest)
  then have "butlast (last path # rest) = rev chain" by simp
  have "climb cs ws (last path) [last path] [dlg_link (last path)] = Inr ([last path] @ rest)"
  proof (rule climb_finds)
    show "successively (\<lambda>d p. only_parent ws p d) (last path # rest)"
      using assms(6) unfolding rev [symmetric] by (simp add: successively_rev)
    show "\<forall>d \<in> set (butlast (last path # rest)). dlg_issuer d \<noteq> dlg_subject d"
      unfolding \<open>butlast (last path # rest) = rev chain\<close> using assms(5) by simp
    show "dlg_issuer (last (last path # rest)) = dlg_subject (last (last path # rest))"
      using \<open>rest \<noteq> []\<close> \<open>last rest = root\<close> assms(4) by simp
    have "distinct (map dlg_link (rev path))" using assms(3) by (simp add: rev_map [symmetric])
    then show "distinct (map dlg_link rest)" "set [dlg_link (last path)] \<inter> dlg_link ` set rest = {}"
      unfolding rev by auto
  qed
  then show ?thesis
    using assms(7,8) rev by (simp add: witness_path_def reverse_in_place_rev flip: path)
qed

theorem witness_path_finds_chain_witness:
  "witness_path cid_bytes (Cid ''leaf'') (Did ''carol'') [leaf_delegation, root_delegation] =
     Inr [root_delegation, leaf_delegation]"
  by (rule witness_path_finds_chain [of _ root_delegation "[leaf_delegation]"])
    (simp_all add: request_defs only_parent_def witness_map_def)

text \<open>C25: What the revoke command publishes is accepted exactly when the found path meets what its
  search does not check: every token is valid, no delegation below the root names another
  subject, and the revoker is an issuer in the path.\<close>

theorem cli_revocation_accepted_iff:
  assumes "witness_path cs revoke signer ws = Inr path" and "inv_issuer sent = signer"
  shows "recover_revocation_path cs vt (publish_request sent (butlast path) (last path)) = Inr p \<longleftrightarrow>
     p = path \<and> (\<forall>d \<in> set path. vt d = TokenValid) \<and>
     (\<forall>d \<in> set (tl path). dlg_subject d = dlg_subject (hd path) \<or> dlg_subject d = Undef) \<and>
     (\<exists>d \<in> set path. dlg_issuer d = signer)"
proof -
  note chain = witness_path_chain [OF assms(1)]
  then have path: "butlast path @ [last path] = path" by simp
  have up: "upstream_path (butlast path) (last path) = butlast path"
  proof (cases "butlast path = []")
    case False
    have "distinct (map dlg_link (butlast path @ [last path]))" unfolding path using chain by simp
    moreover have "dlg_link (last (butlast path)) \<in> dlg_link ` set (butlast path)"
      using False by (intro imageI) simp
    ultimately have "dlg_link (last (butlast path)) \<noteq> dlg_link (last path)" by force
    then show ?thesis by (simp add: upstream_path_def)
  qed (simp add: upstream_path_def)
  then have ws: "publish_witnesses (butlast path) (last path) = path"
    using path by (simp add: publish_witnesses_def)
  note accepted = publish_accepted [OF assms(2), of "butlast path" "last path" cs vt p, unfolded ws up]
  show ?thesis
  proof (cases "butlast path = []")
    case True
    then have "path = [last path]" using path by simp
    with accepted chain True show ?thesis by (metis (no_types, lifting) hd_in_set list.sel(1)
          list.sel(3) list.set(1) empty_iff last_in_set list.set_intros(1) set_ConsD)
  next
    case False
    then have "length path \<noteq> 1" by (cases path) auto
    with accepted chain False show ?thesis by (auto simp: delegation_chain_def)
  qed
qed

theorem cli_revocation_accepted_iff_witness:
  "recover_revocation_path cid_bytes (\<lambda>_. TokenValid)
     (publish_request (rq_invocation (hd one_request)) [root_delegation] leaf_delegation) =
   Inr [root_delegation, leaf_delegation]"
proof -
  have w: "witness_path cid_bytes (Cid ''leaf'') (Did ''alice'') [leaf_delegation, root_delegation] =
      Inr [root_delegation, leaf_delegation]"
    by (simp add: witness_path_def witness_map_def request_defs climb.simps reverse_in_place_rev)
  have "inv_issuer (rq_invocation (hd one_request)) = Did ''alice''"
    by (simp add: one_request_def revoke_request_def)
  from cli_revocation_accepted_iff [OF w this, of "\<lambda>_. TokenValid"] show ?thesis
    by (simp add: request_defs)
qed

section \<open>The revoke command\<close>

record parsed_url =
  pu_absolute :: bool
  pu_host :: string
  pu_text :: string

text \<open>
  The process: its files, the decoders it uses, \<open>%q\<close> formatting, the making of an HTTP
  client, and its output, where \<open>pr_print out s\<close> is the error of writing \<open>s\<close> after \<open>out\<close>.
  \<open>pr_signer\<close> is the DID of the issuer made from a PEM file's signer.
\<close>

record process =
  pr_files :: file_system
  pr_container :: "bytes \<Rightarrow> delegation list result"
  pr_signer :: "bytes \<Rightarrow> did result"
  pr_did :: "string \<Rightarrow> did result"
  pr_url :: "string \<Rightarrow> parsed_url result"
  pr_quote :: "string \<Rightarrow> string"
  pr_http :: "string \<Rightarrow> error option"
  pr_print :: "bytes \<Rightarrow> bytes \<Rightarrow> error option"

definition service_endpoint :: "process \<Rightarrow> string \<Rightarrow> string result" where
  "service_endpoint pr service_url =
     (case pr_url pr service_url of
        Inl e \<Rightarrow> Inl (Wrap ''parsing service URL'' e)
      | Inr url \<Rightarrow>
          if \<not> pu_absolute url \<or> pu_host url = []
          then Inl (Msg (''service URL must be absolute: '' @ pr_quote pr service_url))
          else Inr (pu_text url))"

text \<open>
  \<open>New\<close> of the client package: its options choose the HTTP client, the default one unless
  \<open>WithHTTPClient\<close> is given, which both the UCAN executor and retrieval use. The result has
  the codecs of \<open>base\<close>, and comes with that HTTP client.
\<close>

record 'h client_config =
  cc_http_client :: 'h

type_synonym 'h client_option = "'h client_config \<Rightarrow> 'h client_config"

definition with_http_client :: "'h \<Rightarrow> 'h client_option" where
  "with_http_client http cfg = cfg\<lparr>cc_http_client := http\<rparr>"

definition new_client ::
  "'h \<Rightarrow> ('h \<Rightarrow> string \<Rightarrow> error option) \<Rightarrow> ('w, 'r) client \<Rightarrow> did \<Rightarrow> string \<Rightarrow> 'h client_option list \<Rightarrow>
     (('w, 'r) client \<times> 'h) result" where
  "new_client default_http new_executor base service_id service_url options =
     (let cfg = fold (\<lambda>option cfg. option cfg) options \<lparr>cc_http_client = default_http\<rparr> in
      case new_executor (cc_http_client cfg) service_url of
        Some e \<Rightarrow> Inl (Wrap ''creating UCAN HTTP client'' e)
      | None \<Rightarrow> Inr (base\<lparr>cl_service_id := service_id, cl_service_url := service_url\<rparr>, cc_http_client cfg))"

text \<open>The HTTP client of the last \<open>WithHTTPClient\<close> is the one in use.\<close>

lemma new_client_http:
  "new_client default_http new_executor base service_id service_url (options @ [with_http_client http]) =
     (case new_executor http service_url of
        Some e \<Rightarrow> Inl (Wrap ''creating UCAN HTTP client'' e)
      | None \<Rightarrow> Inr (base\<lparr>cl_service_id := service_id, cl_service_url := service_url\<rparr>, http))"
  by (simp add: new_client_def with_http_client_def split: option.split)

text \<open>What has to be read and parsed before the request: the revoked CID, the signer and the path.\<close>

definition revoke_inputs ::
  "process \<Rightarrow> ucan_lib \<Rightarrow> string \<Rightarrow> string \<Rightarrow> string \<Rightarrow> (cid \<times> did \<times> delegation list) result" where
  "revoke_inputs pr ul key_file arg0 arg1 =
     (if key_file = [] then Inl (Msg ''--issuer-key-file is required'')
      else case cid_decode ul arg0 of
          Inl e \<Rightarrow> Inl (Wrap ''decoding revoke CID'' e)
        | Inr revoke \<Rightarrow>
      (case read_input (pr_files pr) arg1 of
          Inl e \<Rightarrow> Inl e
        | Inr input \<Rightarrow>
      (case decode_delegations ul (pr_container pr) input of
          Inl e \<Rightarrow> Inl e
        | Inr witnesses \<Rightarrow>
      (case fs_read (pr_files pr) key_file of
          Inl e \<Rightarrow> Inl (Wrap ''reading issuer key file'' e)
        | Inr key \<Rightarrow>
      (case pr_signer pr key of
          Inl e \<Rightarrow> Inl (Wrap ''decoding issuer key'' e)
        | Inr issuer \<Rightarrow>
      (case witness_path (cid_text ul) revoke issuer witnesses of
          Inl e \<Rightarrow> Inl e
        | Inr path \<Rightarrow> Inr (revoke, issuer, path)))))))"

definition revoke_command ::
  "process \<Rightarrow> ('w, 'r) client \<Rightarrow> 'rc executor \<Rightarrow> string \<Rightarrow> string \<Rightarrow> string \<Rightarrow> string \<Rightarrow> string \<Rightarrow>
     error option \<times> bytes" where
  "revoke_command pr base ex key_file service_id service_url arg0 arg1 =
     (case revoke_inputs pr (cl_ucan base) key_file arg0 arg1 of
        Inl e \<Rightarrow> (Some e, [])
      | Inr (revoke, issuer, path) \<Rightarrow>
      (case pr_did pr service_id of
        Inl e \<Rightarrow> (Some (Wrap ''parsing service DID'' e), [])
      | Inr service \<Rightarrow>
      (case service_endpoint pr service_url of
        Inl e \<Rightarrow> (Some e, [])
      | Inr url \<Rightarrow>
      (case new_client () (\<lambda>_. pr_http pr) base service url [] of
        Inl e \<Rightarrow> (Some (Wrap ''creating Swarf client'' e), [])
      | Inr (cl, _) \<Rightarrow>
      (case publish cl ex (Some issuer) (Some (last path)) [with_witness_path (butlast path)] of
        Some e \<Rightarrow> (Some e, [])
      | None \<Rightarrow>
          (let line = ''published revocation for '' @ cid_text (cl_ucan base) revoke @ [nl] in
           case pr_print pr [] line of
             Some e \<Rightarrow> (Some e, [])
           | None \<Rightarrow> (None, line)))))))"

text \<open>The revoke command reports success only for a revocation the service confirmed: then
  the service's receipt for an invocation signed by the holder of the key, about exactly the
  CID of the first argument, was read and holds no failure, and the delegations sent with it
  are a path found in the second argument.\<close>

theorem revoke_command_success:
  assumes "revoke_command pr base ex key_file service_id service_url arg0 arg1 = (None, out)"
  shows "\<exists>revoke issuer ws path service sent receipt.
    cid_decode (cl_ucan base) arg0 = Inr revoke \<and>
    out = ''published revocation for '' @ cid_text (cl_ucan base) revoke @ [nl] \<and>
    (\<exists>key. fs_read (pr_files pr) key_file = Inr key \<and> pr_signer pr key = Inr issuer) \<and>
    (\<exists>input. read_input (pr_files pr) arg1 = Inr input \<and>
       decode_delegations (cl_ucan base) (pr_container pr) input = Inr ws) \<and>
    witness_path (cid_text (cl_ucan base)) revoke issuer ws = Inr path \<and>
    pr_did pr service_id = Inr service \<and>
    ex_invoke ex issuer issuer (publish_args (butlast path) (last path)) service = Inr sent \<and>
    arg_revoke (publish_args (butlast path) (last path)) = revoke \<and>
    ex_execute ex sent (publish_witnesses (butlast path) (last path)) = Inr receipt \<and>
    ex_unpack ex receipt = None"
proof -
  obtain revoke issuer path where inputs:
    "revoke_inputs pr (cl_ucan base) key_file arg0 arg1 = Inr (revoke, issuer, path)"
    using assms by (auto simp: revoke_command_def split: sum.splits)
  then obtain ws where ws: "cid_decode (cl_ucan base) arg0 = Inr revoke"
    "\<exists>input. read_input (pr_files pr) arg1 = Inr input \<and>
      decode_delegations (cl_ucan base) (pr_container pr) input = Inr ws"
    "\<exists>key. fs_read (pr_files pr) key_file = Inr key \<and> pr_signer pr key = Inr issuer"
    "witness_path (cid_text (cl_ucan base)) revoke issuer ws = Inr path"
    by (auto simp: revoke_inputs_def split: if_splits sum.splits)
  obtain service url cl where cl: "pr_did pr service_id = Inr service"
    "new_client () (\<lambda>_. pr_http pr) base service url [] = Inr (cl, ())"
    "publish cl ex (Some issuer) (Some (last path)) [with_witness_path (butlast path)] = None"
    "out = ''published revocation for '' @ cid_text (cl_ucan base) revoke @ [nl]"
    using assms inputs by (auto simp: revoke_command_def Let_def split: sum.splits option.splits)
  have "cl_service_id cl = service" using cl(2) by (auto simp: new_client_def split: option.splits)
  with cl(3) obtain sent receipt where
    "ex_invoke ex issuer issuer (publish_args (butlast path) (last path)) service = Inr sent"
    "ex_execute ex sent (publish_witnesses (butlast path) (last path)) = Inr receipt"
    "ex_unpack ex receipt = None"
    by (auto simp: publish_def Let_def split: sum.splits option.splits)
  moreover have "arg_revoke (publish_args (butlast path) (last path)) = revoke"
    using witness_path_chain [OF ws(4)] by (simp add: publish_args_def)
  ultimately show ?thesis using ws cl(1,4) by blast
qed

text \<open>A process whose second argument is a container with the sample delegations.\<close>

definition sample_process :: process where
  "sample_process =
     \<lparr>pr_files = \<lparr>fs_stat = (\<lambda>_. Inl (Sentinel NotExist)), fs_read = (\<lambda>_. Inr ''pem'')\<rparr>,
      pr_container = (\<lambda>_. Inr [leaf_delegation, root_delegation]), pr_signer = (\<lambda>_. Inr (Did ''alice'')),
      pr_did = (\<lambda>s. Inr (Did s)),
      pr_url = (\<lambda>s. Inr \<lparr>pu_absolute = True, pu_host = ''host'', pu_text = s\<rparr>),
      pr_quote = (\<lambda>s. s), pr_http = (\<lambda>_. None), pr_print = (\<lambda>_ _. None)\<rparr>"

definition confirming :: "reply executor" where
  "confirming = sample_executor\<lparr>ex_invoke := (\<lambda>_ _ _ _. Inr bob_revokes),
     ex_execute := (\<lambda>_ _. Inr Success)\<rparr>"

lemma sample_revoke_run:
  "revoke_command sample_process sample_client confirming ''key'' ''swarf'' ''url'' ''leaf'' ''container'' =
     (None, ''published revocation for '' @ ''leaf'' @ [nl])"
proof -
  have "decode_delegation sample_ucan ''container'' = Inl (Foreign ''malformed'')"
    by (simp add: sample_ucan_def or_malformed_def text_delegation_def)
  moreover have "cid_decode sample_ucan ''leaf'' = Inr (Cid ''leaf'')" by (simp add: sample_ucan_def)
  moreover have "witness_path cid_bytes (Cid ''leaf'') (Did ''alice'') [leaf_delegation, root_delegation] =
      Inr [root_delegation, leaf_delegation]"
    by (simp add: witness_path_def witness_map_def request_defs climb.simps reverse_in_place_rev)
  ultimately show ?thesis
    by (simp add: revoke_command_def revoke_inputs_def sample_process_def read_input_def
        decode_delegations_def service_endpoint_def new_client_def publish_def confirming_def
        sample_executor_def calling_def)
qed

theorem revoke_command_success_witness:
  "\<exists>revoke issuer path. cid_decode sample_ucan ''leaf'' = Inr revoke \<and>
     witness_path cid_bytes revoke issuer [leaf_delegation, root_delegation] = Inr path"
proof -
  have "decode_delegations sample_ucan (pr_container sample_process) ''container'' =
      Inr [leaf_delegation, root_delegation]"
    by (simp add: decode_delegations_def sample_process_def sample_ucan_def or_malformed_def
        text_delegation_def)
  moreover have "read_input (pr_files sample_process) ''container'' = Inr ''container''"
    by (simp add: read_input_def sample_process_def)
  ultimately show ?thesis using revoke_command_success [OF sample_revoke_run] by auto
qed

section \<open>The stream command\<close>

definition validate_from :: "(string \<Rightarrow> time result) \<Rightarrow> string \<Rightarrow> error option" where
  "validate_from general value =
     (if value = ''0'' then None
      else case parse_rfc3339nano general value of
          Inl e \<Rightarrow> Some (Wrap ''invalid from timestamp'' e) | Inr t \<Rightarrow> None)"

text \<open>The loop over the events; \<open>out\<close> is what was printed.\<close>

function write_stream_events ::
  "(bytes \<Rightarrow> bytes \<Rightarrow> error option) \<Rightarrow> scanner \<Rightarrow> bytes \<Rightarrow> error option \<times> bytes" where
  "write_stream_events print events out =
     (case scan events of
        (False, events') \<Rightarrow>
          (case scanner_err events' of
             Some e \<Rightarrow> (Some (Wrap ''reading revocation stream'' e), out)
           | None \<Rightarrow> (None, out))
      | (True, events') \<Rightarrow>
          if sc_event events' = ''revocation'' then
            (let line = sc_data events' @ [nl] in
             case print out line of
               Some e \<Rightarrow> (Some (Wrap ''writing revocation event'' e), out)
             | None \<Rightarrow> write_stream_events print events' (out @ line))
          else if sc_event events' = ''error''
          then (Some (Msg (''revocation stream: '' @ sc_data events')), out)
          else write_stream_events print events' out)"
  by pat_completeness auto
termination
  by (relation "measure (\<lambda>(print, events, out). length (ls_pending (sc_lines events)))")
    (auto dest!: scan_consumes [OF sym])

declare write_stream_events.simps [simp del]

text \<open>
  \<open>now\<close> is the clock, \<open>opened\<close> and \<open>ended\<close> are the context's error after the request and
  after the stream: an error a cancelled command meets is not reported.
\<close>

definition stream_command ::
  "process \<Rightarrow> ('w, 'r) http_env \<Rightarrow> (string \<Rightarrow> error option) \<Rightarrow> transport \<Rightarrow> time \<Rightarrow>
     error option \<Rightarrow> error option \<Rightarrow> string \<Rightarrow> string \<Rightarrow> error option \<times> bytes" where
  "stream_command pr env new_request do_request now opened ended service_url from =
     (let from' = (if from = [] then format_rfc3339nano now else from) in
      case validate_from (he_parse_time env) from' of
        Some e \<Rightarrow> (Some e, [])
      | None \<Rightarrow>
      (case service_endpoint pr service_url of
        Inl e \<Rightarrow> (Some e, [])
      | Inr url \<Rightarrow>
      (let request = trim_right (CHR ''/'') url @ ''/revocations/'' @ path_escape from' in
       case new_request request of
        Some e \<Rightarrow> (Some (Wrap ''creating revocation stream request'' e), [])
      | None \<Rightarrow>
      (case do_request request of
        Inl e \<Rightarrow> (if opened \<noteq> None then None else Some (Wrap ''opening revocation stream'' e), [])
      | Inr response \<Rightarrow>
          if hr_status response \<noteq> 200
          then (Some (Msg (''opening revocation stream: unexpected status '' @ hr_status_line response)), [])
          else (case write_stream_events (pr_print pr) (new_scanner (hr_body response) (hr_body_err response)) [] of
              (Some e, out) \<Rightarrow> (if ended \<noteq> None then None else Some e, out)
            | (None, out) \<Rightarrow> (None, out))))))"

section \<open>The get command\<close>

text \<open>
  \<open>copy\<close> is \<open>io.Copy\<close> to the output: the error it ends with, of reading or writing, and
  what it wrote.
\<close>

definition get_command ::
  "process \<Rightarrow> ucan_lib \<Rightarrow> (string \<Rightarrow> error option) \<Rightarrow> transport \<Rightarrow>
     (bytes \<Rightarrow> error option \<Rightarrow> error option \<times> bytes) \<Rightarrow> string \<Rightarrow> string \<Rightarrow> error option \<times> bytes" where
  "get_command pr ul new_request do_request copy service_url arg0 =
     (case cid_decode ul arg0 of
        Inl e \<Rightarrow> (Some (Wrap ''decoding revoke CID'' e), [])
      | Inr revoke \<Rightarrow>
      (case service_endpoint pr service_url of
        Inl e \<Rightarrow> (Some e, [])
      | Inr url \<Rightarrow>
      (let request = trim_right (CHR ''/'') url @ ''/revocation/'' @ path_escape (cid_text ul revoke) in
       case new_request request of
        Some e \<Rightarrow> (Some (Wrap ''creating revocation request'' e), [])
      | None \<Rightarrow>
      (case do_request request of
        Inl e \<Rightarrow> (Some (Wrap ''getting revocation'' e), [])
      | Inr response \<Rightarrow>
          if hr_status response = 404 then (None, [])
          else if hr_status response \<noteq> 200
          then (Some (Msg (''getting revocation: unexpected status '' @ hr_status_line response)), [])
          else copy (hr_body response) (hr_body_err response)))))"

section \<open>What the commands print\<close>

text \<open>Printing a list of events, with the error the scanner ended with.\<close>

fun print_events :: "(string \<times> string) list \<Rightarrow> error option \<Rightarrow> bytes \<Rightarrow> error option \<times> bytes" where
  "print_events [] e out = (map_option (Wrap ''reading revocation stream'') e, out)"
| "print_events ((ev, d) # es) e out =
     (if ev = ''revocation'' then print_events es e (out @ d @ [nl])
      else if ev = ''error'' then (Some (Msg (''revocation stream: '' @ d)), out)
      else print_events es e out)"

lemma write_stream_events_run:
  "write_stream_events (\<lambda>_ _. None) s out =
     print_events (fst (scan_all s)) (scanner_err (snd (scan_all s))) out"
proof (induction s arbitrary: out rule: scan_all.induct)
  case (1 s)
  obtain more s' where sc: "scan s = (more, s')" by (cases "scan s")
  show ?case
  proof (cases more)
    case False
    with sc have "scan_all s = ([], s')" by (simp add: scan_all.simps [of s])
    with sc False show ?thesis
      by (simp add: write_stream_events.simps [of _ s] split: option.split)
  next
    case True
    obtain es z where all: "scan_all s' = (es, z)" by (cases "scan_all s'")
    with sc True have "scan_all s = ((sc_event s', sc_data s') # es, z)"
      by (simp add: scan_all.simps [of s])
    moreover have "more = True" using True by simp
    note IH = "1.IH" [OF sc [symmetric] this, unfolded all fst_conv snd_conv]
    ultimately show ?thesis
      using sc True by (simp add: write_stream_events.simps [of _ s] Let_def IH)
  qed
qed

lemma print_records:
  "print_events (map (\<lambda>b. (''revocation'', snd b)) bs @ es) e out =
   print_events es e (out @ concat (map (\<lambda>b. snd b @ [nl]) bs))"
  by (induction bs arbitrary: out) simp_all

text \<open>C36: A stream the service cannot continue does not look like one that is finished: the
  stream command prints the records that came before the failure, one per line, and then
  fails with the text the service gave as its error.\<close>

theorem cli_stream_reports_failures:
  assumes "list_all2 (block_of env) recs bs" and "list_all block_ok bs"
    and "\<And>o' s. net o' s = None" and "\<not> errors_is err Canceled"
    and "he_json_error env (error_text (he_sentinel_text env) err) = Inr msg"
    and "one_line msg" and "length msg \<le> max_event_bytes"
    and "firehose_loop env net (map Inr recs @ Inl err # rest) [] = (e', body)"
  shows "write_stream_events (\<lambda>_ _. None) (new_scanner body e) [] =
     (Some (Msg (''revocation stream: '' @ msg)), concat (map (\<lambda>b. snd b @ [nl]) bs))"
proof -
  have "fst (scan_all (new_scanner body e)) = map (\<lambda>b. (''revocation'', snd b)) bs @ [(''error'', msg)]"
    using failed_stream_events [where net = net and rest = rest and e = e, OF assms(1-7)] assms(8) by auto
  then show ?thesis by (simp add: write_stream_events_run print_records)
qed

theorem cli_stream_reports_failures_witness:
  "\<exists>body. firehose_loop sample_http (\<lambda>_ _. None)
       (map Inr [web_record ''c'' 7] @ [Inl (Msg ''lost'')]) [] =
     (Some (Wrap ''streaming revocations'' (Msg ''lost'')), body) \<and>
   write_stream_events (\<lambda>_ _. None) (new_scanner body None) [] =
     (Some (Msg (''revocation stream: '' @ CHR ''e'' # hex ''lost'')), web_data ''c'' 7 @ [nl])"
proof -
  let ?items = "map Inr [web_record ''c'' 7] @ [Inl (Msg ''lost'')]"
  have "web_record ''c'' 7 \<in> web_records" by simp
  note block = web_block_ok [OF this]
  have blocks: "list_all2 (block_of sample_http) [web_record ''c'' 7] [web_block (web_record ''c'' 7)]"
    "list_all block_ok [web_block (web_record ''c'' 7)]"
    using block by simp_all
  obtain body where body: "firehose_loop sample_http (\<lambda>_ _. None) ?items [] =
      (Some (Wrap ''streaming revocations'' (Msg ''lost'')), body)"
    using failed_stream_events [OF blocks, of "\<lambda>_ _. None" "Msg ''lost''" "CHR ''e'' # hex ''lost''",
        where rest = "[]"] lost_line by (auto simp del: hex.simps)
  have "write_stream_events (\<lambda>_ _. None) (new_scanner body None) [] =
      (Some (Msg (''revocation stream: '' @ CHR ''e'' # hex ''lost'')),
       concat (map (\<lambda>b. snd b @ [nl]) [web_block (web_record ''c'' 7)]))"
    by (rule cli_stream_reports_failures [OF blocks _ _ _ _ _ body])
      (use lost_line in \<open>simp_all del: hex.simps\<close>)
  with body show ?thesis by (simp add: web_block_web_record)
qed

text \<open>The command line reads what the library reads: the same URLs.\<close>

lemma command_urls:
  "trim_right (CHR ''/'') url @ ''/revocation/'' @ path_escape x = endpoint url [''revocation'', x]"
  "trim_right (CHR ''/'') url @ ''/revocations/'' @ path_escape x = endpoint url [''revocations'', x]"
proof -
  have "path_escape ''revocation'' = ''revocation''" "path_escape ''revocations'' = ''revocations''"
    by code_simp+
  then show "trim_right (CHR ''/'') url @ ''/revocation/'' @ path_escape x = endpoint url [''revocation'', x]"
    "trim_right (CHR ''/'') url @ ''/revocations/'' @ path_escape x = endpoint url [''revocations'', x]"
    by (simp_all add: endpoint_def)
qed

text \<open>The get command prints the document of the record the store holds, byte for byte as the
  service encoded it, prints nothing and succeeds when there is none, and fails otherwise.\<close>

theorem get_command_prints_the_record:
  assumes "ucan_codec (he_ucan env)" and "cid_decode (he_ucan env) arg0 = Inr c" and "c \<noteq> undef_cid"
    and "service_endpoint pr service_url = Inr url"
    and "request = endpoint url [''revocation'', cid_text (he_ucan env) c]"
    and "new_request request = None"
    and "transport request = Inr (served line body (revocation_handler env get (cid_text (he_ucan env) c)))"
  shows "get_command pr (he_ucan env) new_request transport (\<lambda>b e. (e, b)) service_url arg0 =
     (let failed = Some (Msg (''getting revocation: unexpected status '' @ line 500)) in
      case get c of
        Inl e \<Rightarrow> if errors_is e NotFound then (None, []) else (failed, [])
      | Inr r \<Rightarrow> (case encode_revocation_record env r of
          Inl _ \<Rightarrow> (failed, []) | Inr doc \<Rightarrow> (None, doc)))"
proof -
  have "cid_decode (he_ucan env) (cid_text (he_ucan env) c) = Inr c"
    using ucan_codec.cid_back [OF assms(1,3)] .
  then show ?thesis
    unfolding get_command_def Let_def command_urls using assms(2,4-7)
    by (auto simp: revocation_handler_def served_def status_of_def split: sum.split)
qed

theorem get_command_prints_the_record_witness:
  "\<exists>doc. encode_revocation_record sample_http (web_record ''c'' 7) = Inr doc \<and>
     get_command sample_process sample_ucan (\<lambda>_. None)
       (\<lambda>_. Inr (served (\<lambda>_. ''?'') (\<lambda>_. [])
          (revocation_handler sample_http (\<lambda>_. Inr (web_record ''c'' 7)) ''d'')))
       (\<lambda>b e. (e, b)) ''url'' ''d'' = (None, doc)"
proof -
  obtain doc where doc: "encode_revocation_record sample_http (web_record ''c'' 7) = Inr doc"
    using web_record_encodes by blast
  have "cid_decode sample_ucan ''d'' = Inr (Cid ''d'')" by (simp add: sample_ucan_def)
  moreover have "service_endpoint sample_process ''url'' = Inr ''url''"
    by (simp add: service_endpoint_def sample_process_def)
  ultimately show ?thesis
    using get_command_prints_the_record [of sample_http "''d''" "Cid ''d''" sample_process "''url''"
        "''url''" _ "\<lambda>_. None" "\<lambda>_. Inr (served (\<lambda>_. ''?'') (\<lambda>_. [])
          (revocation_handler sample_http (\<lambda>_. Inr (web_record ''c'' 7)) ''d''))" "\<lambda>_. ''?''" "\<lambda>_. []"
        "\<lambda>_. Inr (web_record ''c'' 7)"]
      sample_ucan.ucan_codec_axioms doc
    by (simp add: undef_cid_def)
qed

end
