(* ===== verification/App.thy ===== *)
theory App
  imports Http
begin

text \<open>
  What the service is configured with: the version it reports (\<^verbatim>\<open>pkg/build\<close>), \<open>Load\<close> of
  \<^verbatim>\<open>pkg/config/config.go\<close> over viper, and from \<^verbatim>\<open>pkg/fx/app.go\<close> the choice of the store, its
  connection pool, and the plain handlers. Viper, the pool and JSON encoding are parameters.
\<close>

section \<open>The version\<close>

text \<open>The settings of the build information; \<open>None\<close> when there is none.\<close>

fun vcs_settings :: "string \<Rightarrow> bool \<Rightarrow> (string \<times> string) list \<Rightarrow> string \<times> bool" where
  "vcs_settings revision dirty [] = (revision, dirty)"
| "vcs_settings revision dirty ((key, value) # settings) =
     (if key = ''vcs.revision'' then vcs_settings (if length value > 7 then take 7 value else value) dirty settings
      else if key = ''vcs.modified'' then vcs_settings revision (value = ''true'') settings
      else vcs_settings revision dirty settings)"

definition vcs_revision :: "(string \<times> string) list option \<Rightarrow> string" where
  "vcs_revision build_info =
     (case build_info of
        None \<Rightarrow> ''unknown''
      | Some settings \<Rightarrow>
          (case vcs_settings ''unknown'' False settings of
             (revision, dirty) \<Rightarrow> if dirty then revision @ ''-dirty'' else revision))"

text \<open>
  Reading the version file: \<open>open_file\<close> opens it for reading, and \<open>decode\<close> is the JSON decoder's
  first value from it, of which the member \<^verbatim>\<open>version\<close> is kept.
\<close>

definition version_file :: string where
  "version_file = ''version.json''"

definition read_version_from_file :: "(string \<Rightarrow> 'h result) \<Rightarrow> ('h \<Rightarrow> string result) \<Rightarrow> string result" where
  "read_version_from_file open_file decode =
     (case open_file version_file of
        Inl e \<Rightarrow> Inl e
      | Inr file \<Rightarrow> (case decode file of Inl e \<Rightarrow> Inl e | Inr version \<Rightarrow> Inr version))"

text \<open>\<open>linked\<close> is the variable the linker may set, \<open>file\<close> the version read from the file.\<close>

definition build_version :: "string \<Rightarrow> string result \<Rightarrow> string \<Rightarrow> string" where
  "build_version linked file revision =
     (let version = (if linked = [] then (case file of Inl _ \<Rightarrow> ''v0.0.0'' | Inr v \<Rightarrow> v) else linked)
      in version @ ''-'' @ revision)"

section \<open>Configuration\<close>

datatype setting = Text string | Number int | Switch bool

record postgres_config =
  pc_dsn :: string
  pc_max_conns :: "32 word"
  pc_min_conns :: "32 word"
  pc_skip_migrations :: bool

record identity_config =
  ic_key_file :: string
  ic_service_id :: string

record server_config =
  sv_host :: string
  sv_port :: "64 word"
  sv_insecure_did_resolution :: bool

record storage_config =
  st_type :: string
  st_postgres :: postgres_config

record config =
  cf_identity :: identity_config
  cf_server :: server_config
  cf_log_level :: string
  cf_storage :: storage_config
  cf_plc_directory :: string

text \<open>
  What \<open>Load\<close> calls of viper. \<open>vi_environment\<close> sets the prefix, the key replacer and
  automatic environment variables; \<open>vi_search\<close> the name, the type and the directories of
  the default file; the error of \<open>vi_read\<close> says whether it is \<open>ConfigFileNotFoundError\<close>.
\<close>

record 'v viper =
  vi_new :: 'v
  vi_default :: "string \<Rightarrow> setting \<Rightarrow> 'v \<Rightarrow> 'v"
  vi_environment :: "'v \<Rightarrow> 'v"
  vi_bind_env :: "string \<Rightarrow> 'v \<Rightarrow> 'v result"
  vi_bind_flag :: "string \<Rightarrow> string \<Rightarrow> 'v \<Rightarrow> 'v result"
  vi_file :: "string \<Rightarrow> 'v \<Rightarrow> 'v"
  vi_search :: "'v \<Rightarrow> 'v"
  vi_read :: "'v \<Rightarrow> (error \<times> bool) + 'v"
  vi_unmarshal :: "'v \<Rightarrow> config result"

definition config_defaults :: "(string \<times> setting) list" where
  "config_defaults =
     [(''server.host'', Text ''127.0.0.1''), (''server.port'', Number 8080), (''log.level'', Text ''info''),
      (''plc.directory'', Text ''https://plc.directory''), (''storage.type'', Text ''postgres''),
      (''storage.postgres.max_conns'', Number 10), (''storage.postgres.min_conns'', Number 0)]"

definition flag_bindings :: "(string \<times> string) list" where
  "flag_bindings =
     [(''identity.key_file'', ''identity-key-file''), (''identity.service_id'', ''identity-service-id''),
      (''server.host'', ''host''), (''server.port'', ''port''),
      (''server.insecure_did_resolution'', ''insecure-did-resolution''),
      (''plc.directory'', ''plc-directory''), (''log.level'', ''log-level''), (''storage.type'', ''storage''),
      (''storage.postgres.dsn'', ''postgres-dsn''),
      (''storage.postgres.skip_migrations'', ''skip-migrations'')]"

text \<open>The loop over the map of bindings, in some order; \<open>has_flag\<close> is \<open>flags.Lookup\<close>.\<close>

fun bind_settings ::
  "'v viper \<Rightarrow> (string \<Rightarrow> bool) \<Rightarrow> (string \<times> string) list \<Rightarrow> 'v \<Rightarrow> 'v result" where
  "bind_settings vi has_flag [] v = Inr v"
| "bind_settings vi has_flag ((key, flag) # rest) v =
     (case vi_bind_env vi key v of
        Inl e \<Rightarrow> Inl (Wrap (''binding environment for '' @ key) e)
      | Inr v' \<Rightarrow>
          if has_flag flag
          then (case vi_bind_flag vi key flag v' of
              Inl e \<Rightarrow> Inl (Wrap (''binding flag '' @ flag) e)
            | Inr v'' \<Rightarrow> bind_settings vi has_flag rest v'')
          else bind_settings vi has_flag rest v')"

definition load_config ::
  "'v viper \<Rightarrow> (string \<times> string) list \<Rightarrow> string \<Rightarrow> (string \<Rightarrow> bool) \<Rightarrow> config result" where
  "load_config vi bindings config_file has_flag =
     (let v = vi_environment vi (fold (\<lambda>(k, d). vi_default vi k d) config_defaults (vi_new vi)) in
      case bind_settings vi has_flag bindings v of
        Inl e \<Rightarrow> Inl e
      | Inr v \<Rightarrow>
          (let found =
             (if config_file \<noteq> [] then
                (case vi_read vi (vi_file vi config_file v) of
                   Inl (e, _) \<Rightarrow> Inl (Wrap ''reading config file'' e)
                 | Inr v' \<Rightarrow> Inr v')
              else
                (case vi_read vi (vi_search vi v) of
                   Inl (e, not_found) \<Rightarrow>
                     if not_found then Inr (vi_search vi v) else Inl (Wrap ''reading config file'' e)
                 | Inr v' \<Rightarrow> Inr v'))
           in case found of
                Inl e \<Rightarrow> Inl e
              | Inr v \<Rightarrow>
                  (case vi_unmarshal vi v of
                     Inl e \<Rightarrow> Inl (Wrap ''unmarshaling config'' e) | Inr cfg \<Rightarrow> Inr cfg)))"

text \<open>
  The order in which Go iterates over the bindings does not matter when bindings of
  different keys commute and none fails.
\<close>

definition bound :: "'v viper \<Rightarrow> (string \<Rightarrow> bool) \<Rightarrow> (string \<times> string) \<Rightarrow> 'v \<Rightarrow> 'v" where
  "bound vi has_flag b v = (case bind_settings vi has_flag [b] v of Inl _ \<Rightarrow> v | Inr v' \<Rightarrow> v')"

lemma bind_settings_fold:
  assumes "\<And>b v. b \<in> set bs \<Longrightarrow> \<exists>v'. bind_settings vi has_flag [b] v = Inr v'"
  shows "bind_settings vi has_flag bs v = Inr (fold (bound vi has_flag) bs v)"
  using assms
proof (induction bs arbitrary: v)
  case Nil
  then show ?case by simp
next
  case (Cons b bs)
  obtain key flag where b: "b = (key, flag)" by (cases b)
  obtain v' where v': "bind_settings vi has_flag [b] v = Inr v'"
    using Cons.prems [of b v] by (auto simp del: bind_settings.simps)
  then have "bind_settings vi has_flag (b # bs) v = bind_settings vi has_flag bs v'"
    by (auto simp: b split: sum.splits if_splits)
  moreover have "bound vi has_flag b v = v'" using v' by (simp add: bound_def)
  ultimately show ?case using Cons by simp
qed

lemma load_config_order:
  assumes "mset bs = mset bs'"
    and "\<And>b v. b \<in> set bs \<Longrightarrow> \<exists>v'. bind_settings vi has_flag [b] v = Inr v'"
    and "\<And>b b' v. b \<in> set bs \<Longrightarrow> b' \<in> set bs \<Longrightarrow>
      bound vi has_flag b (bound vi has_flag b' v) = bound vi has_flag b' (bound vi has_flag b v)"
  shows "load_config vi bs file has_flag = load_config vi bs' file has_flag"
proof -
  have set: "set bs' = set bs" using assms(1) by (metis set_mset_mset)
  have "fold (bound vi has_flag) bs = fold (bound vi has_flag) bs'"
    using assms(1,3) by (intro fold_multiset_equiv) (auto simp: fun_eq_iff)
  moreover have "bind_settings vi has_flag bs v = Inr (fold (bound vi has_flag) bs v)"
    "bind_settings vi has_flag bs' v = Inr (fold (bound vi has_flag) bs' v)" for v
    using assms(2) set by (auto intro!: bind_settings_fold)
  ultimately show ?thesis by (simp add: load_config_def)
qed

text \<open>A missing default file is no error; a missing named one is.\<close>

lemma load_config_missing:
  assumes "\<And>v. bind_settings vi has_flag bs v = Inr v" "\<And>v. vi_read vi v = Inl (e, True)"
  shows "config_file \<noteq> [] \<Longrightarrow>
      load_config vi bs config_file has_flag = Inl (Wrap ''reading config file'' e)"
    and "(\<And>v. vi_unmarshal vi v = Inr cfg) \<Longrightarrow> load_config vi bs [] has_flag = Inr cfg"
  using assms by (simp_all add: load_config_def Let_def)

section \<open>The store of the service\<close>

datatype backend = MemoryBackend | PostgresBackend

text \<open>The switch of \<open>AppModule\<close>; \<open>quote\<close> is \<open>%q\<close>.\<close>

definition select_backend :: "(string \<Rightarrow> string) \<Rightarrow> config \<Rightarrow> backend result" where
  "select_backend quote cfg =
     (if st_type (cf_storage cfg) = ''memory'' then Inr MemoryBackend
      else if st_type (cf_storage cfg) = ''postgres'' \<or> st_type (cf_storage cfg) = [] then Inr PostgresBackend
      else Inl (Msg (''unknown storage.type '' @ quote (st_type (cf_storage cfg)) @ '' (valid: memory, postgres)'')))"

text \<open>The pool's limits: what the DSN says, unless the configuration gives a positive value.\<close>

record pool_limits =
  pool_max :: "32 word"
  pool_min :: "32 word"

definition limit_pool :: "config \<Rightarrow> pool_limits \<Rightarrow> pool_limits" where
  "limit_pool cfg limits =
     (let p = st_postgres (cf_storage cfg);
          limits' = (if 0 <s pc_max_conns p then limits\<lparr>pool_max := pc_max_conns p\<rparr> else limits)
      in if 0 <s pc_min_conns p then limits'\<lparr>pool_min := pc_min_conns p\<rparr> else limits')"

text \<open>\<open>newPostgresStore\<close> up to its hooks: the pool it makes.\<close>

definition new_postgres_store ::
  "(string \<Rightarrow> pool_limits result) \<Rightarrow> (pool_limits \<Rightarrow> error option) \<Rightarrow> config \<Rightarrow> pool_limits result" where
  "new_postgres_store parse_dsn new_pool cfg =
     (if pc_dsn (st_postgres (cf_storage cfg)) = []
      then Inl (Msg ''storage.postgres.dsn is required when storage.type is postgres'')
      else case parse_dsn (pc_dsn (st_postgres (cf_storage cfg))) of
          Inl e \<Rightarrow> Inl (Wrap ''parsing postgres DSN'' e)
        | Inr limits \<Rightarrow>
            (case new_pool (limit_pool cfg limits) of
               Some e \<Rightarrow> Inl (Wrap ''creating postgres pool'' e)
             | None \<Rightarrow> Inr (limit_pool cfg limits)))"

section \<open>The plain handlers\<close>

text \<open>
  Status, content type and body are those of echo's \<open>JSON\<close> and
  \<open>String\<close>; \<open>to_lower\<close> is \<open>strings.ToLower\<close>.
\<close>

datatype plain = JsonHealth string | JsonInfo string string string | TextInfo string | JsonDocument bytes

fun strings_contains :: "string \<Rightarrow> string \<Rightarrow> bool" where
  "strings_contains sub [] = (sub = [])"
| "strings_contains sub (c # cs) = (cut_prefix sub (c # cs) \<noteq> None \<or> strings_contains sub cs)"

definition health_handler :: "nat \<times> plain" where
  "health_handler = (200, JsonHealth ''healthy'')"

definition repository :: string where
  "repository = ''https://github.com/fil-forge/swarf''"

text \<open>The icon at the start of the text, in UTF-8.\<close>

definition icon :: string where
  "icon = byte_string [240, 159, 152, 182]"

definition server_info_handler ::
  "(string \<Rightarrow> string) \<Rightarrow> string \<Rightarrow> string \<Rightarrow> string \<Rightarrow> nat \<times> plain" where
  "server_info_handler to_lower ident version accept =
     (if strings_contains ''application/json'' (to_lower accept)
      then (200, JsonInfo ident version repository)
      else (200, TextInfo (icon @ '' swarf '' @ version @ [nl] @ ''- '' @ repository @ [nl] @ ''- '' @ ident)))"

definition did_document_handler :: "bytes result \<Rightarrow> error option \<times> plain option" where
  "did_document_handler document =
     (case document of
        Inl _ \<Rightarrow> (Some (HTTPError 500 ''building DID document''), None)
      | Inr d \<Rightarrow> (None, Some (JsonDocument d)))"

end
