(* ===== verification/Migrations.thy ===== *)
theory Migrations
  imports Prelude
begin

text \<open>
  \<^verbatim>\<open>pkg/store/postgres/migrations\<close>: the runner that applies the embedded migrations with
  goose. Goose keeps the file system, the logger and the dialect in package variables; they,
  the connection pool and the database are the opaque state \<open>'g\<close>, which the calls of goose,
  of the pool and of the logger change. What goose does with the files is its own.
\<close>

section \<open>The logger adapter\<close>

text \<open>The two methods of zap's sugared logger in use, and goose's logger interface.\<close>

record ('g, 'v) zap_logger =
  zp_fatalf :: "string \<Rightarrow> 'v list \<Rightarrow> 'g \<Rightarrow> 'g"
  zp_infof :: "string \<Rightarrow> 'v list \<Rightarrow> 'g \<Rightarrow> 'g"

record ('g, 'v) goose_logger =
  gl_fatalf :: "string \<Rightarrow> 'v list \<Rightarrow> 'g \<Rightarrow> 'g"
  gl_printf :: "string \<Rightarrow> 'v list \<Rightarrow> 'g \<Rightarrow> 'g"

definition zap_goose_logger :: "('g, 'v) zap_logger \<Rightarrow> ('g, 'v) goose_logger" where
  "zap_goose_logger l =
     \<lparr>gl_fatalf = (\<lambda>format v. zp_fatalf l format v), gl_printf = (\<lambda>format v. zp_infof l format v)\<rparr>"

section \<open>The runner\<close>

text \<open>
  \<open>mg_open\<close> and \<open>mg_close\<close> are \<open>OpenDBFromPool\<close> and the handle's \<open>Close\<close>; \<open>mg_files\<close> is the
  embedded file system with the scripts of the directory \<^verbatim>\<open>sql\<close>.
\<close>

record ('g, 'v, 'db) migrator =
  mg_open :: "'g \<Rightarrow> 'db \<times> 'g"
  mg_close :: "'db \<Rightarrow> 'g \<Rightarrow> 'g"
  mg_files :: "(string \<times> bytes) list"
  mg_set_base_fs :: "(string \<times> bytes) list \<Rightarrow> 'g \<Rightarrow> 'g"
  mg_set_logger :: "('g, 'v) goose_logger \<Rightarrow> 'g \<Rightarrow> 'g"
  mg_set_dialect :: "string \<Rightarrow> 'g \<Rightarrow> error option \<times> 'g"
  mg_up :: "'db \<Rightarrow> string \<Rightarrow> 'g \<Rightarrow> error option \<times> 'g"

definition run_up ::
  "('g, 'v, 'db) migrator \<Rightarrow> ('g, 'v) zap_logger \<Rightarrow> 'db \<Rightarrow> 'g \<Rightarrow> error option \<times> 'g" where
  "run_up mg logger db g =
     (let g = mg_set_base_fs mg (mg_files mg) g;
          g = mg_set_logger mg (zap_goose_logger logger) g
      in case mg_set_dialect mg ''postgres'' g of
           (Some e, g) \<Rightarrow> (Some (Wrap ''setting goose dialect'' e), g)
         | (None, g) \<Rightarrow>
             (case mg_up mg db ''sql'' g of
                (Some e, g) \<Rightarrow> (Some (Wrap ''running goose migrations'' e), g)
              | (None, g) \<Rightarrow> (None, g)))"

text \<open>\<open>Up\<close> closes the handle it opened on every path; \<open>UpDB\<close> is given one.\<close>

definition up :: "('g, 'v, 'db) migrator \<Rightarrow> ('g, 'v) zap_logger \<Rightarrow> 'g \<Rightarrow> error option \<times> 'g" where
  "up mg logger g =
     (let (db, g) = mg_open mg g; (err, g) = run_up mg logger db g
      in (err, mg_close mg db g))"

definition up_db ::
  "('g, 'v, 'db) migrator \<Rightarrow> ('g, 'v) zap_logger \<Rightarrow> 'db \<Rightarrow> 'g \<Rightarrow> error option \<times> 'g" where
  "up_db mg logger db g = run_up mg logger db g"

section \<open>Restarts\<close>

text \<open>
  Goose records which migrations it has applied. \<open>schema\<close> is what the database holds of
  them: \<open>Up\<close> without an error leaves the newest version, a database that has it is left
  alone, and neither the settings of goose nor opening and closing a handle touch it.
\<close>

definition goose_laws :: "('g, 'v, 'db) migrator \<Rightarrow> ('g \<Rightarrow> 's) \<Rightarrow> 's \<Rightarrow> bool" where
  "goose_laws mg schema newest \<longleftrightarrow>
     (\<forall>g. schema (snd (mg_open mg g)) = schema g) \<and>
     (\<forall>db g. schema (mg_close mg db g) = schema g) \<and>
     (\<forall>fs g. schema (mg_set_base_fs mg fs g) = schema g) \<and>
     (\<forall>l g. schema (mg_set_logger mg l g) = schema g) \<and>
     (\<forall>d g. schema (snd (mg_set_dialect mg d g)) = schema g) \<and>
     (\<forall>db d g. fst (mg_up mg db d g) = None \<longrightarrow> schema (snd (mg_up mg db d g)) = newest) \<and>
     (\<forall>db d g. schema g = newest \<longrightarrow> schema (snd (mg_up mg db d g)) = newest)"

text \<open>A start that migrated leaves the newest schema, and a restart, also one whose migration
  run fails, leaves it as it is.\<close>

lemma up_migrates:
  assumes "goose_laws mg schema newest"
  shows "fst (up mg logger g) = None \<Longrightarrow> schema (snd (up mg logger g)) = newest"
    and "schema g = newest \<Longrightarrow> schema (snd (up mg logger g)) = newest"
proof -
  let ?g = "mg_set_logger mg (zap_goose_logger logger) (mg_set_base_fs mg (mg_files mg) (snd (mg_open mg g)))"
  obtain db g1 where opened: "mg_open mg g = (db, g1)" by (cases "mg_open mg g")
  obtain e2 g2 where dialect: "mg_set_dialect mg ''postgres'' ?g = (e2, g2)"
    by (cases "mg_set_dialect mg ''postgres'' ?g")
  obtain e3 g3 where ran: "mg_up mg db ''sql'' g2 = (e3, g3)" by (cases "mg_up mg db ''sql'' g2")
  note laws = assms [unfolded goose_laws_def]
  have "schema ?g = schema g" using laws by simp
  then have g2: "schema g2 = schema g" using laws dialect by (metis snd_conv)
  have closed: "snd (up mg logger g) = mg_close mg db (if e2 = None then g3 else g2)"
    and err: "fst (up mg logger g) = None \<longleftrightarrow> e2 = None \<and> e3 = None"
    using opened dialect ran by (auto simp: up_def run_up_def Let_def split: option.split)
  have left: "schema (mg_close mg db g') = schema g'" for g' using laws by blast
  show "fst (up mg logger g) = None \<Longrightarrow> schema (snd (up mg logger g)) = newest"
    using laws ran closed err left by (metis fst_conv snd_conv)
  show "schema g = newest \<Longrightarrow> schema (snd (up mg logger g)) = newest"
    using laws ran closed left g2 by (metis snd_conv)
qed

text \<open>A handle of its own changes nothing in the outcome.\<close>

lemma up_is_up_db:
  "fst (up mg logger g) = fst (up_db mg logger (fst (mg_open mg g)) (snd (mg_open mg g)))"
  by (simp add: up_def up_db_def split: prod.split)

end
