(* ===== verification/Wiring.thy ===== *)
theory Wiring
  imports App Migrations
begin

text \<open>
  How the service is put together, started and stopped: the constructors of
  \<^verbatim>\<open>pkg/fx/app.go\<close> and the lifecycle hooks they append, and the serve command of \<open>main\<close>. The constructors of
  zap, libforge, ucantone, pgx and goose are parameters. So is fx, which calls the hooks: what
  it promises of them is \<open>fx_rules\<close>; and a constructor runs once, after the constructors of
  its parameters, taken in their order.
\<close>

section \<open>Constructors\<close>

text \<open>The libraries the constructors call: each says whether it made a value; \<open>co_quote\<close> is \<open>%q\<close>.\<close>

record 'id constructors =
  co_parse_level :: "string \<Rightarrow> error option"
  co_build_logger :: "error option"
  co_identity :: "string \<Rightarrow> string \<Rightarrow> 'id result"
  co_identity_pem :: "string \<Rightarrow> string \<Rightarrow> 'id result"
  co_did :: "'id \<Rightarrow> string"
  co_document :: "'id \<Rightarrow> bytes result"
  co_web :: "bool \<Rightarrow> error option"
  co_parse_url :: "string \<Rightarrow> string result"
  co_plc :: "string \<Rightarrow> error option"
  co_parse_dsn :: "string \<Rightarrow> pool_limits result"
  co_new_pool :: "pool_limits \<Rightarrow> error option"
  co_quote :: "string \<Rightarrow> string"

definition new_logger :: "'id constructors \<Rightarrow> config \<Rightarrow> error option" where
  "new_logger co cfg =
     (case co_parse_level co (cf_log_level cfg) of
        Some e \<Rightarrow> Some (Wrap ''parsing log level'' e)
      | None \<Rightarrow> co_build_logger co)"

definition new_identity :: "'id constructors \<Rightarrow> config \<Rightarrow> 'id result" where
  "new_identity co cfg =
     (let ident = cf_identity cfg in
      if ic_key_file ident = [] then co_identity co [] (ic_service_id ident)
      else co_identity_pem co (ic_key_file ident) (ic_service_id ident))"

text \<open>
  The resolvers a DID resolver is made of, with their settings; times are nanoseconds.
\<close>

datatype did_resolver =
    KeyResolver
  | WebResolver bool
  | PLCResolver string
  | WellKnown string bytes
  | Tiered "did_resolver list"
  | Cached did_resolver time

definition web_did_cache_ttl :: time where
  "web_did_cache_ttl = 3600 * 10 ^ 9"

definition new_did_resolver ::
  "'id constructors \<Rightarrow> 'id \<Rightarrow> bool \<Rightarrow> string \<Rightarrow> (string \<times> did_resolver) list result" where
  "new_did_resolver co ident insecure plc_directory =
     (case co_web co insecure of
        Some e \<Rightarrow> Inl (Wrap ''creating did:web resolver'' e)
      | None \<Rightarrow>
        (case co_document co ident of
           Inl e \<Rightarrow> Inl (Wrap ''creating DID document'' e)
         | Inr document \<Rightarrow>
           (let directory = (if plc_directory = [] then ''https://plc.directory'' else plc_directory) in
            case co_parse_url co directory of
              Inl e \<Rightarrow> Inl (Wrap (''parsing PLC directory URL '' @ co_quote co directory) e)
            | Inr url \<Rightarrow>
              (case co_plc co url of
                 Some e \<Rightarrow> Inl (Wrap ''creating did:plc resolver'' e)
               | None \<Rightarrow> Inr
                   [(''key'', KeyResolver),
                    (''web'', Tiered [WellKnown (co_did co ident) document,
                       Cached (WebResolver insecure) web_did_cache_ttl]),
                    (''plc'', Cached (PLCResolver url) (3 * 3600 * 10 ^ 9))]))))"

text \<open>The UCAN server: the resolver its tokens and the revoke route are validated with.\<close>

record 'id ucan_server =
  us_identity :: 'id
  us_resolver :: "(string \<times> did_resolver) list"
  us_revoke_resolver :: "(string \<times> did_resolver) list"
  us_revoke_store :: backend

definition new_ucan_server ::
  "'id constructors \<Rightarrow> 'id \<Rightarrow> config \<Rightarrow> backend \<Rightarrow> 'id ucan_server result" where
  "new_ucan_server co ident cfg revocations =
     (case new_did_resolver co ident (sv_insecure_did_resolution (cf_server cfg)) (cf_plc_directory cfg) of
        Inl e \<Rightarrow> Inl e
      | Inr resolver \<Rightarrow> Inr \<lparr>us_identity = ident, us_resolver = resolver,
          us_revoke_resolver = resolver, us_revoke_store = revocations\<rparr>)"

text \<open>The routes of the HTTP server, with echo's patterns, and its middleware, outermost first.\<close>

datatype http_method = GET | POST | OPTIONS

datatype 'id route_handler =
    ServerInfo 'id
  | Health
  | DIDDocument 'id
  | Lookup backend
  | Firehose backend
  | UCANServer "'id ucan_server"

datatype middleware = Recover | CORS "string list" "http_method list" int

record 'id echo_server =
  ec_middleware :: "middleware list"
  ec_routes :: "(http_method \<times> string \<times> 'id route_handler) list"

definition new_echo_server :: "'id \<Rightarrow> 'id ucan_server \<Rightarrow> backend \<Rightarrow> 'id echo_server" where
  "new_echo_server ident server revocations = \<lparr>
     ec_middleware = [Recover, CORS [''*''] [GET, POST, OPTIONS] 86400],
     ec_routes =
       [(GET, ''/'', ServerInfo ident),
        (GET, ''/health'', Health),
        (GET, ''/.well-known/did.json'', DIDDocument ident),
        (GET, ''/revocation/:cid'', Lookup revocations),
        (GET, ''/revocations/:from'', Firehose revocations),
        (POST, ''/'', UCANServer server)]\<rparr>"

section \<open>Lifecycle hooks\<close>

text \<open>
  What a start or a stop does to the outside: contact the database, migrate it, bind an
  address, shut the server down, close the pool. A start function is the list of its
  actions, each with the message its error is wrapped in; a stop function here is one action,
  whose error it returns as it is.
\<close>

datatype hook_action = Ping | Migrate | Listen string | Shutdown | ClosePool

record hook =
  hk_start :: "(hook_action \<times> string) list"
  hk_stop :: hook_action

definition postgres_hook :: "config \<Rightarrow> hook" where
  "postgres_hook cfg = \<lparr>
     hk_start = (Ping, ''pinging postgres'') #
       (if \<not> pc_skip_migrations (st_postgres (cf_storage cfg))
        then [(Migrate, ''running postgres migrations'')] else []),
     hk_stop = ClosePool\<rparr>"

definition server_hook :: "(string \<Rightarrow> 64 word \<Rightarrow> string) \<Rightarrow> config \<Rightarrow> hook" where
  "server_hook join_host_port cfg =
     (let address = join_host_port (sv_host (cf_server cfg)) (sv_port (cf_server cfg)) in
      \<lparr>hk_start = [(Listen address, ''binding '' @ address)], hk_stop = Shutdown\<rparr>)"

text \<open>
  Building the application: the store module is chosen first, then the parameters of
  \<open>registerServerLifecycle\<close> are built: the identity, the store, which appends its hook, the
  logger, the UCAN server and the HTTP server.
\<close>

definition provide_store :: "'id constructors \<Rightarrow> config \<Rightarrow> backend \<Rightarrow> hook list result" where
  "provide_store co cfg backend =
     (case backend of
        MemoryBackend \<Rightarrow> Inr []
      | PostgresBackend \<Rightarrow>
          (case new_postgres_store (co_parse_dsn co) (co_new_pool co) cfg of
             Inl e \<Rightarrow> Inl e | Inr _ \<Rightarrow> Inr [postgres_hook cfg]))"

definition build_app ::
  "'id constructors \<Rightarrow> (string \<Rightarrow> 64 word \<Rightarrow> string) \<Rightarrow> config \<Rightarrow>
     ('id echo_server \<times> hook list) result" where
  "build_app co join_host_port cfg =
     (case select_backend (co_quote co) cfg of
        Inl e \<Rightarrow> Inl e
      | Inr backend \<Rightarrow>
        (case new_identity co cfg of
           Inl e \<Rightarrow> Inl e
         | Inr ident \<Rightarrow>
           (case provide_store co cfg backend of
              Inl e \<Rightarrow> Inl e
            | Inr hooks \<Rightarrow>
              (case new_logger co cfg of
                 Some e \<Rightarrow> Inl e
               | None \<Rightarrow>
                 (case new_ucan_server co ident cfg backend of
                    Inl e \<Rightarrow> Inl e
                  | Inr server \<Rightarrow>
                      Inr (new_echo_server ident server backend,
                        hooks @ [server_hook join_host_port cfg]))))))"

section \<open>Starting and stopping\<close>

text \<open>
  The outside a start meets: the database, the migrations with the logger the hook passes
  them (zap's no-op one) and the state they run in, and the network.
\<close>

record ('g, 'l, 'db) world =
  wd_ping :: "error option"
  wd_migrator :: "('g, 'l, 'db) migrator"
  wd_logger :: "('g, 'l) zap_logger"
  wd_state :: 'g
  wd_listen :: "string \<Rightarrow> error option"
  wd_shutdown :: "error option"

definition migrate :: "('g, 'l, 'db) world \<Rightarrow> error option" where
  "migrate w = fst (up (wd_migrator w) (wd_logger w) (wd_state w))"

text \<open>A start that migrates leaves the newest schema behind.\<close>

lemma migrate_schema:
  assumes "goose_laws (wd_migrator w) schema newest" "migrate w = None"
  shows "schema (snd (up (wd_migrator w) (wd_logger w) (wd_state w))) = newest"
  using assms(2) up_migrates(1) [OF assms(1)] by (simp add: migrate_def)

text \<open>\<open>pool.Close\<close> cannot fail; \<open>e.Shutdown\<close> can.\<close>

definition hook_effect :: "('g, 'l, 'db) world \<Rightarrow> hook_action \<Rightarrow> error option" where
  "hook_effect w a =
     (case a of
        Ping \<Rightarrow> wd_ping w
      | Migrate \<Rightarrow> migrate w
      | Listen address \<Rightarrow> wd_listen w address
      | Shutdown \<Rightarrow> wd_shutdown w
      | ClosePool \<Rightarrow> None)"

text \<open>
  A call of a hook's \<open>OnStart\<close>: its error and the actions that succeeded (\<open>made\<close>); a call of
  its \<open>OnStop\<close>: its error and the action it tried.
\<close>

fun run_start :: "('g, 'l, 'db) world \<Rightarrow> (hook_action \<times> string) list \<Rightarrow> hook_action list \<Rightarrow> error option \<times> hook_action list" where
  "run_start w [] made = (None, made)"
| "run_start w ((a, msg) # rest) made =
     (case hook_effect w a of
        Some e \<Rightarrow> (Some (Wrap msg e), made)
      | None \<Rightarrow> run_start w rest (made @ [a]))"

definition on_start :: "('g, 'l, 'db) world \<Rightarrow> hook \<Rightarrow> error option \<times> hook_action list" where
  "on_start w h = run_start w (hk_start h) []"

definition on_stop :: "('g, 'l, 'db) world \<Rightarrow> hook \<Rightarrow> error option \<times> hook_action list" where
  "on_stop w h = (hook_effect w (hk_stop h), [hk_stop h])"

section \<open>What fx promises\<close>

text \<open>
  \<open>fx.New(...).Run()\<close>, a parameter: from the two functions of the hooks and the application,
  which is its hooks or the error a constructor returned, the exit code of the process and
  the trace of what its hooks did until then.
\<close>

type_synonym fx =
  "(hook \<Rightarrow> error option \<times> hook_action list) \<Rightarrow> (hook \<Rightarrow> error option \<times> hook_action list) \<Rightarrow>
     hook list result \<Rightarrow> nat \<times> hook_action list"

text \<open>
  Its documented behaviour: an application that could not be built exits with an error and
  calls no hook. Start functions are called in the order the hooks were appended, until one
  fails or the start times out. Then, or after a signal when all have started, the stop
  functions of the hooks that started are called in the reverse order, also after one of
  them has failed; all of them unless the stop times out. The exit code is 0 only if every
  hook started, every stop function was called and none failed.
\<close>

definition fx_rules :: "fx \<Rightarrow> bool" where
  "fx_rules fx \<longleftrightarrow>
     (\<forall>start stop e. fst (fx start stop (Inl e)) \<noteq> 0 \<and> snd (fx start stop (Inl e)) = []) \<and>
     (\<forall>start stop hooks code trace. fx start stop (Inr hooks) = (code, trace) \<longrightarrow>
        (\<exists>n called stopped rest.
           n \<le> length hooks \<and> (\<forall>h \<in> set (take n hooks). fst (start h) = None) \<and>
           (called = take n hooks \<or>
            n < length hooks \<and> called = take (Suc n) hooks \<and> fst (start (hooks ! n)) \<noteq> None) \<and>
           rev (take n hooks) = stopped @ rest \<and>
           trace = concat (map (\<lambda>h. snd (start h)) called) @ concat (map (\<lambda>h. snd (stop h)) stopped) \<and>
           (code = 0 \<longrightarrow> n = length hooks \<and> rest = [] \<and> (\<forall>h \<in> set stopped. fst (stop h) = None))))"

text \<open>The rules can be met: hooks called one after the other, with no time limit.\<close>

definition sequential_fx :: fx where
  "sequential_fx start stop app =
     (case app of
        Inl e \<Rightarrow> (1, [])
      | Inr hooks \<Rightarrow>
          (let n = length (takeWhile (\<lambda>h. fst (start h) = None) hooks);
               stopped = rev (take n hooks)
           in (if n = length hooks \<and> (\<forall>h \<in> set stopped. fst (stop h) = None) then 0 else 1,
               concat (map (\<lambda>h. snd (start h)) (take (Suc n) hooks)) @
                 concat (map (\<lambda>h. snd (stop h)) stopped))))"

lemma sequential_fx_rules: "fx_rules sequential_fx"
  unfolding fx_rules_def
proof (intro conjI allI impI)
  fix start stop :: "hook \<Rightarrow> error option \<times> hook_action list" and hooks code trace
  assume run: "sequential_fx start stop (Inr hooks) = (code, trace)"
  let ?ok = "\<lambda>h. fst (start h) = None"
  let ?n = "length (takeWhile ?ok hooks)"
  have all: "take ?n hooks = takeWhile ?ok hooks" by (simp add: takeWhile_eq_take [symmetric])
  have "?n \<le> length hooks" by (rule length_takeWhile_le)
  moreover have "\<forall>h \<in> set (take ?n hooks). ?ok h" unfolding all by (auto dest: set_takeWhileD)
  moreover have "take (Suc ?n) hooks = take ?n hooks \<or>
      ?n < length hooks \<and> take (Suc ?n) hooks = take (Suc ?n) hooks \<and> \<not> ?ok (hooks ! ?n)"
    using nth_length_takeWhile [of ?ok hooks] \<open>?n \<le> length hooks\<close>
    by (cases "?n = length hooks") simp_all
  moreover have "rev (take ?n hooks) = rev (take ?n hooks) @ []" by simp
  moreover have "trace = concat (map (\<lambda>h. snd (start h)) (take (Suc ?n) hooks)) @
      concat (map (\<lambda>h. snd (stop h)) (rev (take ?n hooks)))"
    using run by (simp add: sequential_fx_def Let_def)
  moreover have "code = 0 \<longrightarrow> ?n = length hooks \<and> [] = [] \<and>
      (\<forall>h \<in> set (rev (take ?n hooks)). fst (stop h) = None)"
    using run by (auto simp: sequential_fx_def Let_def split: if_splits)
  ultimately show "\<exists>n called stopped rest.
      n \<le> length hooks \<and> (\<forall>h \<in> set (take n hooks). fst (start h) = None) \<and>
      (called = take n hooks \<or>
       n < length hooks \<and> called = take (Suc n) hooks \<and> fst (start (hooks ! n)) \<noteq> None) \<and>
      rev (take n hooks) = stopped @ rest \<and>
      trace = concat (map (\<lambda>h. snd (start h)) called) @ concat (map (\<lambda>h. snd (stop h)) stopped) \<and>
      (code = 0 \<longrightarrow> n = length hooks \<and> rest = [] \<and> (\<forall>h \<in> set stopped. fst (stop h) = None))"
    by blast
qed (simp_all add: sequential_fx_def)

section \<open>The serve command\<close>

text \<open>The flags \<open>main\<close> declares for the command, with their defaults.\<close>

definition serve_flags :: "(string \<times> setting) list" where
  "serve_flags =
     [(''identity-key-file'', Text []), (''identity-service-id'', Text []),
      (''host'', Text ''127.0.0.1''), (''port'', Number 8080),
      (''insecure-did-resolution'', Switch False), (''plc-directory'', Text ''https://plc.directory''),
      (''log-level'', Text ''info''), (''storage'', Text ''postgres''), (''postgres-dsn'', Text []),
      (''skip-migrations'', Switch False)]"

text \<open>
  The command and what the process then does, up to its exit: the error the command returns,
  or the exit code of fx, and the trace of what was done. \<open>bindings\<close> is \<open>flag_bindings\<close> in the order Go iterates in.
\<close>

definition serve_command ::
  "fx \<Rightarrow> 'v viper \<Rightarrow> (string \<times> string) list \<Rightarrow> 'id constructors \<Rightarrow> (string \<Rightarrow> 64 word \<Rightarrow> string) \<Rightarrow>
     ('g, 'l, 'db) world \<Rightarrow> string \<Rightarrow> (error + nat) \<times> hook_action list" where
  "serve_command fx vi bindings co join_host_port w config_file =
     (case load_config vi bindings config_file (\<lambda>flag. flag \<in> fst ` set serve_flags) of
        Inl e \<Rightarrow> (Inl e, [])
      | Inr cfg \<Rightarrow>
          (case fx (on_start w) (on_stop w) (map_sum id snd (build_app co join_host_port cfg)) of
             (code, trace) \<Rightarrow> (Inr code, trace)))"

text \<open>Every bound flag is declared, so that no binding is skipped silently, and where a setting
  has a default of its own the flag's default is the same.\<close>

lemma flags_agree:
  assumes "(key, flag) \<in> set flag_bindings"
  shows "flag \<in> fst ` set serve_flags"
    and "map_of config_defaults key = Some d \<Longrightarrow> map_of serve_flags flag = Some d"
proof -
  have "list_all (\<lambda>(key, flag). flag \<in> set (map fst serve_flags) \<and>
      (map_of config_defaults key = None \<or> map_of config_defaults key = map_of serve_flags flag)) flag_bindings"
    by (simp add: flag_bindings_def serve_flags_def config_defaults_def)
  with assms show "flag \<in> fst ` set serve_flags"
    and "map_of config_defaults key = Some d \<Longrightarrow> map_of serve_flags flag = Some d"
    by (auto simp: list_all_iff)
qed

section \<open>What a start guarantees\<close>

named_theorems start_defs
lemmas [start_defs] = on_start_def on_stop_def hook_effect_def postgres_hook_def server_hook_def Let_def

text \<open>The hooks of an application: the storage's, if it has any, before the server's.\<close>

lemma build_app_hooks:
  assumes "build_app co join_host_port cfg = Inr (server, hooks)"
  obtains "st_type (cf_storage cfg) = ''memory''" "hooks = [server_hook join_host_port cfg]"
  | "st_type (cf_storage cfg) \<in> {[], ''postgres''}" "pc_dsn (st_postgres (cf_storage cfg)) \<noteq> []"
    "hooks = [postgres_hook cfg, server_hook join_host_port cfg]"
  using assms
  by (auto simp: build_app_def provide_store_def select_backend_def new_postgres_store_def
      split: sum.splits option.splits backend.splits if_splits)

text \<open>
  What fx can do with the one hook of an application on memory, or the two of one on
  PostgreSQL, once an address has been bound.
\<close>

lemma server_hook_parts:
  "hk_stop (server_hook join_host_port cfg) = Shutdown"
  "on_stop w (server_hook join_host_port cfg) = (wd_shutdown w, [Shutdown])"
  "fst (on_start w (server_hook join_host_port cfg)) = None \<Longrightarrow>
     snd (on_start w (server_hook join_host_port cfg)) =
       [Listen (join_host_port (sv_host (cf_server cfg)) (sv_port (cf_server cfg)))]"
  "fst (on_start w (server_hook join_host_port cfg)) \<noteq> None \<Longrightarrow>
     snd (on_start w (server_hook join_host_port cfg)) = []"
  by (auto simp: start_defs split: option.splits)

lemma postgres_hook_parts:
  "on_stop w (postgres_hook cfg) = (None, [ClosePool])"
  "fst (on_start w (postgres_hook cfg)) = None \<Longrightarrow> wd_ping w = None \<and>
     (if pc_skip_migrations (st_postgres (cf_storage cfg))
      then snd (on_start w (postgres_hook cfg)) = [Ping]
      else migrate w = None \<and> snd (on_start w (postgres_hook cfg)) = [Ping, Migrate])"
  "Listen address \<notin> set (snd (on_start w (postgres_hook cfg)))"
  by (auto simp: start_defs split: option.splits if_splits)

lemma run_one_hook:
  assumes "fx_rules fx" "fx start stop (Inr [a]) = (code, trace)"
    and bound: "x \<in> set trace" "x \<notin> set (snd (stop a))" "fst (start a) \<noteq> None \<Longrightarrow> snd (start a) = []"
  shows "fst (start a) = None \<and>
    (\<exists>stopped. stopped \<in> {[], [a]} \<and> trace = snd (start a) @ concat (map (\<lambda>h. snd (stop h)) stopped) \<and>
       (code = 0 \<longrightarrow> stopped = [a] \<and> fst (stop a) = None))"
proof -
  obtain n called stopped rest where
    n: "n \<le> length [a]" "\<forall>h \<in> set (take n [a]). fst (start h) = None"
      "called = take n [a] \<or>
        n < length [a] \<and> called = take (Suc n) [a] \<and> fst (start ([a] ! n)) \<noteq> None"
      "rev (take n [a]) = stopped @ rest"
      "trace = concat (map (\<lambda>h. snd (start h)) called) @ concat (map (\<lambda>h. snd (stop h)) stopped)"
      "code = 0 \<longrightarrow> n = length [a] \<and> rest = [] \<and> (\<forall>h \<in> set stopped. fst (stop h) = None)"
    using assms(1,2) unfolding fx_rules_def by blast
  from n(1) consider "n = 0" | "n = 1" by (cases n) auto
  then show ?thesis
  proof cases
    case 1
    with n bound show ?thesis by auto
  next
    case 2
    then have "called = [a]" "stopped @ rest = [a]" using n(3,4) by simp_all
    with 2 n show ?thesis by (intro conjI exI [of _ stopped]) (auto simp: append_eq_Cons_conv)
  qed
qed

lemma run_two_hooks:
  assumes "fx_rules fx" "fx start stop (Inr [a, b]) = (code, trace)"
    and bound: "x \<in> set trace" "x \<notin> set (snd (stop a))" "x \<notin> set (snd (stop b))"
      "x \<notin> set (snd (start a))" "fst (start b) \<noteq> None \<Longrightarrow> snd (start b) = []"
  shows "fst (start a) = None \<and> fst (start b) = None \<and>
    (\<exists>stopped. stopped \<in> {[], [b], [b, a]} \<and>
       trace = snd (start a) @ snd (start b) @ concat (map (\<lambda>h. snd (stop h)) stopped) \<and>
       (code = 0 \<longrightarrow> stopped = [b, a] \<and> fst (stop a) = None \<and> fst (stop b) = None))"
proof -
  obtain n called stopped rest where
    n: "n \<le> length [a, b]" "\<forall>h \<in> set (take n [a, b]). fst (start h) = None"
      "called = take n [a, b] \<or>
        n < length [a, b] \<and> called = take (Suc n) [a, b] \<and> fst (start ([a, b] ! n)) \<noteq> None"
      "rev (take n [a, b]) = stopped @ rest"
      "trace = concat (map (\<lambda>h. snd (start h)) called) @ concat (map (\<lambda>h. snd (stop h)) stopped)"
      "code = 0 \<longrightarrow> n = length [a, b] \<and> rest = [] \<and> (\<forall>h \<in> set stopped. fst (stop h) = None)"
    using assms(1,2) unfolding fx_rules_def by blast
  from n(1) consider "n = 0" | "n = Suc 0" | "n = Suc (Suc 0)" by fastforce
  then show ?thesis
  proof cases
    case 1
    then have "set trace \<subseteq> set (snd (start a))" using n(3-5) by auto
    with bound(1,4) show ?thesis by blast
  next
    case 2
    then have "stopped @ rest = [a]" "called = [a] \<or> called = [a, b] \<and> fst (start b) \<noteq> None"
      using n(3,4) by simp_all
    then have "set trace \<subseteq> set (snd (start a)) \<union> set (snd (stop a))"
      using n(5) bound(5) by (auto simp: append_eq_Cons_conv)
    with bound(1,2,4) show ?thesis by blast
  next
    case 3
    then have run: "called = [a, b]" "stopped @ rest = [b, a]" "fst (start a) = None" "fst (start b) = None"
      using n(2-4) by simp_all
    then have "stopped \<in> {[], [b], [b, a]}" by (auto simp: append_eq_Cons_conv)
    moreover have "code = 0 \<longrightarrow> stopped = [b, a] \<and> fst (stop a) = None \<and> fst (stop b) = None"
      using n(6) run(2) by auto
    ultimately show ?thesis using n(5) run(1,3,4) by (intro conjI exI [of _ stopped]) simp_all
  qed
qed

text \<open>A process with a trace got as far as handing an application to fx.\<close>

lemma serve_runs_app:
  assumes "fx_rules fx"
    and "serve_command fx vi bindings co join_host_port w config_file = (result, trace)"
    and "a \<in> set trace"
  obtains cfg server hooks code
    where "load_config vi bindings config_file (\<lambda>flag. flag \<in> fst ` set serve_flags) = Inr cfg"
      "build_app co join_host_port cfg = Inr (server, hooks)"
      "fx (on_start w) (on_stop w) (Inr hooks) = (code, trace)" "result = Inr code"
proof (cases "load_config vi bindings config_file (\<lambda>flag. flag \<in> fst ` set serve_flags)")
  case (Inl e)
  with assms(2,3) show thesis by (simp add: serve_command_def)
next
  case (Inr cfg)
  obtain code where code: "fx (on_start w) (on_stop w) (map_sum id snd (build_app co join_host_port cfg)) =
      (code, trace)" "result = Inr code"
    using assms(2) Inr by (auto simp: serve_command_def split: prod.splits)
  show thesis
  proof (cases "build_app co join_host_port cfg")
    case (Inl e)
    with code(1) have "trace = []" using assms(1) unfolding fx_rules_def by (metis map_sum.simps(1) snd_conv)
    with assms(3) show thesis by simp
  next
    case app: (Inr built)
    with Inr code show thesis by (cases built) (auto intro: that)
  qed
qed

text \<open>What the process does with the hook of the server alone, and with that of PostgreSQL before it.\<close>

lemma memory_run:
  assumes "fx_rules fx" "fx (on_start w) (on_stop w) (Inr [server_hook join_host_port cfg]) = (code, trace)"
    and "Listen address \<in> set trace"
  shows "\<exists>m. address = join_host_port (sv_host (cf_server cfg)) (sv_port (cf_server cfg)) \<and> trace = [Listen address] @ take m [Shutdown] \<and>
    (code = 0 \<longrightarrow> take m [Shutdown] = [Shutdown] \<and> wd_shutdown w = None)"
proof -
  let ?server = "server_hook join_host_port cfg"
  note server = server_hook_parts(2-4) [where join_host_port = join_host_port and cfg = cfg and w = w]
  have "fst (on_start w ?server) = None \<and> (\<exists>stopped. stopped \<in> {[], [?server]} \<and>
      trace = snd (on_start w ?server) @ concat (map (\<lambda>h. snd (on_stop w h)) stopped) \<and>
      (code = 0 \<longrightarrow> stopped = [?server] \<and> fst (on_stop w ?server) = None))"
    by (rule run_one_hook [OF assms]) (simp add: server(1), rule server(3))
  then obtain stopped where up: "fst (on_start w ?server) = None" "stopped \<in> {[], [?server]}"
    "trace = snd (on_start w ?server) @ concat (map (\<lambda>h. snd (on_stop w h)) stopped)"
    "code = 0 \<longrightarrow> stopped = [?server] \<and> fst (on_stop w ?server) = None" by blast
  have trace: "trace = [Listen (join_host_port (sv_host (cf_server cfg)) (sv_port (cf_server cfg)))] @ take (length stopped) [Shutdown]"
    using up(2,3) server(1) server(2) [OF up(1)] by auto
  moreover from this have "address = join_host_port (sv_host (cf_server cfg)) (sv_port (cf_server cfg))" using assms(3) up(2) by auto
  ultimately show ?thesis using up(4) server(1) by (intro exI [of _ "length stopped"]) auto
qed

lemma postgres_run:
  assumes "fx_rules fx"
    and "fx (on_start w) (on_stop w) (Inr [postgres_hook cfg, server_hook join_host_port cfg]) = (code, trace)"
    and "Listen address \<in> set trace"
  shows "\<exists>ready m. address = join_host_port (sv_host (cf_server cfg)) (sv_port (cf_server cfg)) \<and> trace = ready @ [Listen address] @ take m [Shutdown, ClosePool] \<and>
    wd_ping w = None \<and>
    (pc_skip_migrations (st_postgres (cf_storage cfg)) \<and> ready = [Ping] \<or>
     migrate w = None \<and> ready = [Ping, Migrate]) \<and>
    (code = 0 \<longrightarrow> take m [Shutdown, ClosePool] = [Shutdown, ClosePool] \<and> wd_shutdown w = None)"
proof -
  let ?server = "server_hook join_host_port cfg" and ?pg = "postgres_hook cfg"
  note server = server_hook_parts(2-4) [where join_host_port = join_host_port and cfg = cfg and w = w]
  note pg = postgres_hook_parts [where cfg = cfg and w = w]
  have "fst (on_start w ?pg) = None \<and> fst (on_start w ?server) = None \<and>
    (\<exists>stopped. stopped \<in> {[], [?server], [?server, ?pg]} \<and>
      trace = snd (on_start w ?pg) @ snd (on_start w ?server) @
        concat (map (\<lambda>h. snd (on_stop w h)) stopped) \<and>
      (code = 0 \<longrightarrow> stopped = [?server, ?pg] \<and> fst (on_stop w ?pg) = None \<and>
         fst (on_stop w ?server) = None))"
    by (rule run_two_hooks [OF assms])
      (simp add: pg(1), simp add: server(1), rule pg(3), rule server(3))
  then obtain stopped where up: "fst (on_start w ?pg) = None" "fst (on_start w ?server) = None"
    "stopped \<in> {[], [?server], [?server, ?pg]}"
    "trace = snd (on_start w ?pg) @ snd (on_start w ?server) @ concat (map (\<lambda>h. snd (on_stop w h)) stopped)"
    "code = 0 \<longrightarrow> stopped = [?server, ?pg] \<and> fst (on_stop w ?server) = None" by blast
  let ?m = "length stopped" and ?ready = "snd (on_start w ?pg)"
  have trace: "trace = ?ready @ [Listen (join_host_port (sv_host (cf_server cfg)) (sv_port (cf_server cfg)))] @ take ?m [Shutdown, ClosePool]"
    using up(3,4) server(1) server(2) [OF up(2)] pg(1) by auto
  moreover have "address = join_host_port (sv_host (cf_server cfg)) (sv_port (cf_server cfg))" using assms(3) pg(3) up(3) unfolding trace by auto
  moreover have "wd_ping w = None \<and> (pc_skip_migrations (st_postgres (cf_storage cfg)) \<and> ?ready = [Ping] \<or>
      migrate w = None \<and> ?ready = [Ping, Migrate])"
    using pg(2) [OF up(1)] by (auto split: if_splits)
  moreover have "code = 0 \<longrightarrow> take ?m [Shutdown, ClosePool] = [Shutdown, ClosePool] \<and> wd_shutdown w = None"
    using up(5) server(1) by auto
  ultimately show ?thesis by (intro exI [of _ ?ready] exI [of _ ?m]) simp
qed

text \<open>C38: The service accepts no connection before its storage is ready, and gives no storage up
  while it serves: a process that binds an address has loaded its configuration, knows its
  storage and, with PostgreSQL, has reached the database and migrated it unless told not
  to. What it does after that are at most its two stops, the server's shutdown first and the
  closing of the pool after it; it does both, and the shutdown has not failed, when it exits
  with status 0. This is for every fx that keeps its rules, also when a stop fails or times
  out.\<close>

theorem serving_lifecycle:
  assumes "fx_rules fx"
    and "serve_command fx vi bindings co join_host_port w config_file = (result, trace)"
    and "Listen address \<in> set trace"
  shows "\<exists>cfg. load_config vi bindings config_file (\<lambda>flag. flag \<in> fst ` set serve_flags) = Inr cfg \<and>
    address = join_host_port (sv_host (cf_server cfg)) (sv_port (cf_server cfg)) \<and>
    (\<exists>ready stops m.
      (st_type (cf_storage cfg) = ''memory'' \<and> ready = [] \<and> stops = [Shutdown] \<or>
       pc_dsn (st_postgres (cf_storage cfg)) \<noteq> [] \<and> wd_ping w = None \<and> stops = [Shutdown, ClosePool] \<and>
         (pc_skip_migrations (st_postgres (cf_storage cfg)) \<and> ready = [Ping] \<or>
          migrate w = None \<and> ready = [Ping, Migrate])) \<and>
      trace = ready @ [Listen address] @ take m stops \<and>
      (result = Inr 0 \<longrightarrow> take m stops = stops \<and> wd_shutdown w = None))"
proof -
  obtain cfg server hooks code
    where cfg: "load_config vi bindings config_file (\<lambda>flag. flag \<in> fst ` set serve_flags) = Inr cfg"
    and app: "build_app co join_host_port cfg = Inr (server, hooks)"
    and run: "fx (on_start w) (on_stop w) (Inr hooks) = (code, trace)" "result = Inr code"
    using assms by (rule serve_runs_app)
  from app show ?thesis
  proof (cases rule: build_app_hooks)
    case 1
    obtain m where "address = join_host_port (sv_host (cf_server cfg)) (sv_port (cf_server cfg))" "trace = [Listen address] @ take m [Shutdown]"
      "code = 0 \<longrightarrow> take m [Shutdown] = [Shutdown] \<and> wd_shutdown w = None"
      using memory_run [OF assms(1) run(1) [unfolded 1(2)] assms(3)] by blast
    with cfg 1(1) run(2) show ?thesis
      by (intro exI [of _ cfg] conjI exI [of _ "[]"] exI [of _ "[Shutdown]"] exI [of _ m]) simp_all
  next
    case 2
    obtain ready m where "address = join_host_port (sv_host (cf_server cfg)) (sv_port (cf_server cfg))" "trace = ready @ [Listen address] @ take m [Shutdown, ClosePool]"
      "wd_ping w = None"
      "pc_skip_migrations (st_postgres (cf_storage cfg)) \<and> ready = [Ping] \<or>
       migrate w = None \<and> ready = [Ping, Migrate]"
      "code = 0 \<longrightarrow> take m [Shutdown, ClosePool] = [Shutdown, ClosePool] \<and> wd_shutdown w = None"
      using postgres_run [OF assms(1) run(1) [unfolded 2(3)] assms(3)] by blast
    with cfg 2(2) run(2) show ?thesis
      by (intro exI [of _ cfg] conjI exI [of _ ready] exI [of _ "[Shutdown, ClosePool]"] exI [of _ m]) simp_all
  qed
qed

text \<open>A start on PostgreSQL with the flags' defaults.\<close>

definition sample_config :: config where
  "sample_config =
     \<lparr>cf_identity = \<lparr>ic_key_file = [], ic_service_id = []\<rparr>,
      cf_server = \<lparr>sv_host = ''127.0.0.1'', sv_port = 8080, sv_insecure_did_resolution = False\<rparr>,
      cf_log_level = ''info'',
      cf_storage = \<lparr>st_type = ''postgres'',
        st_postgres = \<lparr>pc_dsn = ''dsn'', pc_max_conns = 10, pc_min_conns = 0, pc_skip_migrations = False\<rparr>\<rparr>,
      cf_plc_directory = ''https://plc.directory''\<rparr>"

definition sample_viper :: "unit viper" where
  "sample_viper =
     \<lparr>vi_new = (), vi_default = (\<lambda>_ _ v. v), vi_environment = (\<lambda>v. v), vi_bind_env = (\<lambda>_. Inr),
      vi_bind_flag = (\<lambda>_ _. Inr), vi_file = (\<lambda>_ v. v), vi_search = (\<lambda>v. v),
      vi_read = (\<lambda>_. Inl (Foreign ''not found'', True)), vi_unmarshal = (\<lambda>_. Inr sample_config)\<rparr>"

definition sample_constructors :: "string constructors" where
  "sample_constructors =
     \<lparr>co_parse_level = (\<lambda>_. None), co_build_logger = None, co_identity = (\<lambda>_ _. Inr ''did:key:z''),
      co_identity_pem = (\<lambda>_ _. Inr ''did:key:z''), co_did = (\<lambda>i. i), co_document = Inr,
      co_web = (\<lambda>_. None), co_parse_url = Inr, co_plc = (\<lambda>_. None),
      co_parse_dsn = (\<lambda>_. Inr \<lparr>pool_max = 4, pool_min = 0\<rparr>), co_new_pool = (\<lambda>_. None), co_quote = (\<lambda>s. s)\<rparr>"

text \<open>The state of its migrations is the number of the schema.\<close>

definition sample_migrator :: "(nat, string, unit) migrator" where
  "sample_migrator =
     \<lparr>mg_open = (\<lambda>g. ((), g)), mg_close = (\<lambda>_ g. g), mg_files = [(''sql/00001_init.sql'', [])],
      mg_set_base_fs = (\<lambda>_ g. g), mg_set_logger = (\<lambda>_ g. g), mg_set_dialect = (\<lambda>_ g. (None, g)),
      mg_up = (\<lambda>_ _ _. (None, 1))\<rparr>"

definition sample_world :: "(nat, string, unit) world" where
  "sample_world =
     \<lparr>wd_ping = None, wd_migrator = sample_migrator,
      wd_logger = \<lparr>zp_fatalf = (\<lambda>_ _ g. g), zp_infof = (\<lambda>_ _ g. g)\<rparr>, wd_state = 0,
      wd_listen = (\<lambda>_. None), wd_shutdown = None\<rparr>"

lemma sample_serve:
  "serve_command sequential_fx sample_viper flag_bindings sample_constructors (\<lambda>host _. host) sample_world [] =
     (Inr 0, [Ping, Migrate, Listen ''127.0.0.1'', Shutdown, ClosePool])"
proof -
  have "load_config sample_viper flag_bindings [] has_flag = Inr sample_config" for has_flag
  proof (rule load_config_missing)
    show "bind_settings sample_viper has_flag flag_bindings v = Inr v" for v
      by (simp add: flag_bindings_def sample_viper_def)
  qed (simp_all add: sample_viper_def)
  moreover have "sequential_fx (on_start sample_world) (on_stop sample_world)
      (Inr [postgres_hook sample_config, server_hook (\<lambda>host _. host) sample_config]) =
      (0, [Ping, Migrate, Listen ''127.0.0.1'', Shutdown, ClosePool])"
    by (simp add: sequential_fx_def start_defs migrate_def up_def run_up_def sample_config_def
        sample_world_def sample_migrator_def)
  moreover obtain server where "build_app sample_constructors (\<lambda>host _. host) sample_config =
      Inr (server, [postgres_hook sample_config, server_hook (\<lambda>host _. host) sample_config])"
    by (simp add: build_app_def provide_store_def select_backend_def new_postgres_store_def new_identity_def
        new_logger_def new_ucan_server_def new_did_resolver_def sample_config_def sample_constructors_def)
  ultimately show ?thesis by (simp add: serve_command_def)
qed

lemma sample_goose_laws: "goose_laws sample_migrator (\<lambda>g. g) 1"
  by (simp add: goose_laws_def sample_migrator_def)

theorem serving_lifecycle_witness:
  "\<exists>cfg :: config. pc_dsn (st_postgres (cf_storage cfg)) \<noteq> [] \<and> wd_ping sample_world = None \<and>
     migrate sample_world = None \<and> wd_shutdown sample_world = None"
  using serving_lifecycle [OF sequential_fx_rules sample_serve, of "''127.0.0.1''"] by auto

text \<open>
  Every resolver answers for the service's own DID from its document, before the cached
  resolver is asked, and a \<open>did:plc\<close> directory is never empty.
\<close>

lemma own_did_is_local:
  assumes "new_ucan_server co ident cfg revocations = Inr server"
  obtains document rest where "co_document co ident = Inr document"
    and "map_of (us_resolver server) ''web'' = Some (Tiered (WellKnown (co_did co ident) document # rest))"
    and "us_revoke_resolver server = us_resolver server"
  using assms by (auto simp: new_ucan_server_def new_did_resolver_def Let_def split: sum.splits option.splits)

text \<open>Each route has a method and a pattern of its own.\<close>

lemma routes_distinct:
  "distinct (map (\<lambda>(m, p, _). (m, p)) (ec_routes (new_echo_server ident server revocations)))"
  by (simp add: new_echo_server_def)

end
