(* ===== verification/Commands.thy ===== *)
theory Commands
  imports Cli Wiring
begin

text \<open>
  The process: \<open>main\<close> of \<^verbatim>\<open>cmd/swarf/main.go\<close> with the commands it registers, their
  arguments, flags and defaults, and the exit status. Cobra, which reads the command line and
  finds the command, is a parameter. Then the commands together: what \<open>get\<close> prints after
  \<open>revoke\<close>.
\<close>

section \<open>The commands and their flags\<close>

text \<open>\<open>Args\<close> of a cobra command; one that is not set accepts any arguments.\<close>

datatype arg_rule = AnyArgs | NoArgs | ExactArgs nat

primrec args_allowed :: "arg_rule \<Rightarrow> string list \<Rightarrow> bool" where
  "args_allowed AnyArgs args = True"
| "args_allowed NoArgs args = (args = [])"
| "args_allowed (ExactArgs n) args = (length args = n)"

record command_spec =
  cs_use :: string
  cs_short :: string
  cs_args :: arg_rule
  cs_flags :: "(string \<times> setting) list"

definition default_service_id :: string where
  "default_service_id = ''did:web:swarf.forgery.network''"

definition default_service_url :: string where
  "default_service_url = ''https://swarf.forgery.network''"

definition serve_spec :: command_spec where
  "serve_spec =
     \<lparr>cs_use = ''serve'', cs_short = ''Start the Swarf service'', cs_args = AnyArgs,
      cs_flags = serve_flags\<rparr>"

definition revoke_flags :: "(string \<times> setting) list" where
  "revoke_flags =
     [(''issuer-key-file'', Text []), (''service-id'', Text default_service_id),
      (''service-url'', Text default_service_url)]"

definition revoke_spec :: command_spec where
  "revoke_spec =
     \<lparr>cs_use = ''revoke <revoke-cid> <delegation-or-container>'', cs_short = ''Publish a revocation'',
      cs_args = ExactArgs 2, cs_flags = revoke_flags\<rparr>"

definition get_flags :: "(string \<times> setting) list" where
  "get_flags = [(''service-url'', Text default_service_url)]"

definition get_spec :: command_spec where
  "get_spec =
     \<lparr>cs_use = ''get <revoke-cid>'', cs_short = ''Retrieve a revocation'', cs_args = ExactArgs 1,
      cs_flags = get_flags\<rparr>"

definition stream_flags :: "(string \<times> setting) list" where
  "stream_flags = [(''service-url'', Text default_service_url), (''from'', Text [])]"

definition stream_spec :: command_spec where
  "stream_spec =
     \<lparr>cs_use = ''stream'', cs_short = ''Stream revocations'', cs_args = NoArgs,
      cs_flags = stream_flags\<rparr>"

text \<open>The root command: its own persistent flag, and the commands in the order they are added.\<close>

definition root_flags :: "(string \<times> setting) list" where
  "root_flags = [(''config'', Text [])]"

definition root_commands :: "command_spec list" where
  "root_commands = [serve_spec, revoke_spec, get_spec, stream_spec]"

text \<open>A command is called by the first word of its usage line.\<close>

definition command_name :: "command_spec \<Rightarrow> string" where
  "command_name spec = takeWhile (\<lambda>c. c \<noteq> CHR '' '') (cs_use spec)"

text \<open>Every flag a command function reads is declared for it, and so is the configuration file's.\<close>

lemma flags_declared:
  "fst ` set revoke_flags = {''issuer-key-file'', ''service-id'', ''service-url''}"
  "fst ` set get_flags = {''service-url''}" "fst ` set stream_flags = {''service-url'', ''from''}"
  "fst ` set root_flags = {''config''}"
  by (simp_all add: revoke_flags_def get_flags_def stream_flags_def root_flags_def)

lemma command_names: "map command_name root_commands = [''serve'', ''revoke'', ''get'', ''stream'']"
  by (simp add: root_commands_def command_name_def serve_spec_def revoke_spec_def get_spec_def
      stream_spec_def)

section \<open>The process\<close>

text \<open>
  What cobra makes of a command line: it prints help, or runs a command with the values of
  its flags and its arguments.
\<close>

record command_line =
  pa_command :: string
  pa_flags :: "string \<Rightarrow> setting"
  pa_args :: "string list"

datatype cobra_answer = Help | Run command_line

type_synonym cobra =
  "command_spec list \<Rightarrow> (string \<times> setting) list \<Rightarrow> string list \<Rightarrow> cobra_answer result"

definition flag_text :: "command_line \<Rightarrow> string \<Rightarrow> string" where
  "flag_text p flag = (case pa_flags p flag of Text s \<Rightarrow> s | _ \<Rightarrow> [])"

text \<open>Everything the commands reach outside the repository's code.\<close>

record ('w, 'r, 'rc, 'v, 'id, 'g, 'l, 'db) outside =
  ou_process :: process
  ou_client :: "('w, 'r) client"
  ou_executor :: "'rc executor"
  ou_http :: "('w, 'r) http_env"
  ou_new_request :: "string \<Rightarrow> error option"
  ou_transport :: transport
  ou_copy :: "bytes \<Rightarrow> error option \<Rightarrow> error option \<times> bytes"
  ou_now :: time
  ou_opened :: "error option"
  ou_ended :: "error option"
  ou_viper :: "'v viper"
  ou_bindings :: "(string \<times> string) list"
  ou_constructors :: "'id constructors"
  ou_join_host_port :: "string \<Rightarrow> 64 word \<Rightarrow> string"
  ou_fx :: fx
  ou_world :: "('g, 'l, 'db) world"
  ou_sentinel_text :: "sentinel \<Rightarrow> string"

text \<open>
  A process ends with a status, what its command printed, and what \<open>main\<close> itself printed to
  standard error; or an argument that is not there is indexed.
\<close>

datatype outcome = Exit nat bytes bytes | IndexPanic

definition exit_with :: "(sentinel \<Rightarrow> string) \<Rightarrow> error option \<times> bytes \<Rightarrow> outcome" where
  "exit_with text r =
     (case fst r of
        None \<Rightarrow> Exit 0 (snd r) []
      | Some e \<Rightarrow> Exit 1 (snd r) (error_text text e @ [nl]))"

text \<open>
  The function of a command. When the configuration was loaded, fx runs the service and ends
  the process itself with an exit code that is not 0, so that \<open>main\<close> prints nothing.
\<close>

definition run_command ::
  "('w, 'r, 'rc, 'v, 'id, 'g, 'l, 'db) outside \<Rightarrow> command_line \<Rightarrow> outcome" where
  "run_command ou p =
     (if pa_command p = ''serve'' then
        (case serve_command (ou_fx ou) (ou_viper ou) (ou_bindings ou) (ou_constructors ou)
            (ou_join_host_port ou) (ou_world ou) (flag_text p ''config'') of
           (Inl e, _) \<Rightarrow> exit_with (ou_sentinel_text ou) (Some e, [])
         | (Inr code, _) \<Rightarrow> Exit code [] [])
      else if pa_command p = ''revoke'' then
        (case pa_args p of
           arg0 # arg1 # _ \<Rightarrow> exit_with (ou_sentinel_text ou)
             (revoke_command (ou_process ou) (ou_client ou) (ou_executor ou)
                (flag_text p ''issuer-key-file'') (flag_text p ''service-id'')
                (flag_text p ''service-url'') arg0 arg1)
         | _ \<Rightarrow> IndexPanic)
      else if pa_command p = ''get'' then
        (case pa_args p of
           arg0 # _ \<Rightarrow> exit_with (ou_sentinel_text ou)
             (get_command (ou_process ou) (cl_ucan (ou_client ou)) (ou_new_request ou)
                (ou_transport ou) (ou_copy ou) (flag_text p ''service-url'') arg0)
         | _ \<Rightarrow> IndexPanic)
      else exit_with (ou_sentinel_text ou)
        (stream_command (ou_process ou) (ou_http ou) (ou_new_request ou) (ou_transport ou)
           (ou_now ou) (ou_opened ou) (ou_ended ou) (flag_text p ''service-url'') (flag_text p ''from'')))"

definition swarf_main ::
  "cobra \<Rightarrow> ('w, 'r, 'rc, 'v, 'id, 'g, 'l, 'db) outside \<Rightarrow> string list \<Rightarrow> outcome" where
  "swarf_main parse ou argv =
     (case parse root_commands root_flags argv of
        Inl e \<Rightarrow> exit_with (ou_sentinel_text ou) (Some e, [])
      | Inr Help \<Rightarrow> Exit 0 [] []
      | Inr (Run p) \<Rightarrow> run_command ou p)"

text \<open>What cobra promises: it runs a command that was added, and with arguments its rule allows.\<close>

definition cobra_rules :: "cobra \<Rightarrow> bool" where
  "cobra_rules parse \<longleftrightarrow>
     (\<forall>specs flags argv p. parse specs flags argv = Inr (Run p) \<longrightarrow>
        (\<exists>spec \<in> set specs. command_name spec = pa_command p \<and> args_allowed (cs_args spec) (pa_args p)))"

lemma exit_with_simps [simp]:
  "exit_with text r \<noteq> IndexPanic"
  "exit_with text r = Exit 0 out err \<longleftrightarrow> r = (None, out) \<and> err = []"
  by (cases r; cases "fst r"; auto simp: exit_with_def)+

text \<open>No argument the commands index is missing, and a status of 0 means no error.\<close>

lemma swarf_main_in_bounds:
  assumes "cobra_rules parse"
  shows "swarf_main parse ou argv \<noteq> IndexPanic"
proof -
  have "run_command ou p \<noteq> IndexPanic" if run: "parse root_commands root_flags argv = Inr (Run p)" for p
  proof -
    obtain spec where spec: "spec \<in> set root_commands" "command_name spec = pa_command p"
      "args_allowed (cs_args spec) (pa_args p)"
      using assms run unfolding cobra_rules_def by blast
    have "pa_command p = ''revoke'' \<longrightarrow> length (pa_args p) = 2"
      "pa_command p = ''get'' \<longrightarrow> length (pa_args p) = 1"
      using spec
      by (auto simp: root_commands_def command_name_def serve_spec_def revoke_spec_def get_spec_def
          stream_spec_def)
    then show ?thesis
      by (auto simp: run_command_def length_Suc_conv numeral_2_eq_2 split: list.split sum.split prod.split option.split)
  qed
  then show ?thesis by (auto simp: swarf_main_def split: sum.split cobra_answer.split)
qed

section \<open>Revoke, then get\<close>

text \<open>
  What the receipt of a single invocation means: one without a failure is the service's
  success reply to the request with that invocation, its arguments and its delegations.
\<close>

definition relays_one :: "'rc executor \<Rightarrow> (request list \<Rightarrow> reply list) \<Rightarrow> bool" where
  "relays_one ex replies \<longleftrightarrow>
     (\<forall>i s args au sent ds rc. ex_invoke ex i s args au = Inr sent \<longrightarrow> ex_execute ex sent ds = Inr rc \<longrightarrow>
        ex_unpack ex rc = None \<longrightarrow>
        replies [\<lparr>rq_invocation = sent, rq_args = args, rq_delegations = ds\<rparr>] ! 0 = Success)"

text \<open>
  The request the revoke command sends, from its inputs: the invocation it signs, with its
  arguments and the delegations of the witness path.
\<close>

definition sent_request ::
  "process \<Rightarrow> ucan_lib \<Rightarrow> 'rc executor \<Rightarrow> string \<Rightarrow> string \<Rightarrow> string \<Rightarrow> string \<Rightarrow> request option" where
  "sent_request pr ul ex key_file service_id arg0 arg1 =
     (case revoke_inputs pr ul key_file arg0 arg1 of
        Inl _ \<Rightarrow> None
      | Inr (revoke, issuer, path) \<Rightarrow>
          (let args = publish_args (butlast path) (last path) in
           case pr_did pr service_id of
             Inl _ \<Rightarrow> None
           | Inr service \<Rightarrow>
               (case ex_invoke ex issuer issuer args service of
                  Inl _ \<Rightarrow> None
                | Inr sent \<Rightarrow>
                    Some \<lparr>rq_invocation = sent, rq_args = args,
                      rq_delegations = publish_witnesses (butlast path) (last path)\<rparr>)))"

lemma revoke_command_sends:
  assumes "revoke_command pr base ex key_file service_id service_url arg0 arg1 = (None, out)"
  obtains c req receipt where "cid_decode (cl_ucan base) arg0 = Inr c"
    and "sent_request pr (cl_ucan base) ex key_file service_id arg0 arg1 = Some req"
    and "arg_revoke (rq_args req) = c"
    and "\<exists>i s au. ex_invoke ex i s (rq_args req) au = Inr (rq_invocation req)"
    and "ex_execute ex (rq_invocation req) (rq_delegations req) = Inr receipt" "ex_unpack ex receipt = None"
proof -
  obtain c issuer path where inputs:
    "revoke_inputs pr (cl_ucan base) key_file arg0 arg1 = Inr (c, issuer, path)"
    using assms by (auto simp: revoke_command_def split: sum.splits)
  then have c: "cid_decode (cl_ucan base) arg0 = Inr c" "witness_path (cid_text (cl_ucan base)) c issuer ws = Inr path \<Longrightarrow>
      arg_revoke (publish_args (butlast path) (last path)) = c" for ws
    using witness_path_chain by (auto simp: revoke_inputs_def publish_args_def split: if_splits sum.splits)
  obtain ws where "witness_path (cid_text (cl_ucan base)) c issuer ws = Inr path"
    using inputs by (auto simp: revoke_inputs_def split: if_splits sum.splits)
  note revoked = c(2) [OF this]
  obtain service url cl where cl: "pr_did pr service_id = Inr service"
    "new_client () (\<lambda>_. pr_http pr) base service url [] = Inr (cl, ())"
    "publish cl ex (Some issuer) (Some (last path)) [with_witness_path (butlast path)] = None"
    using assms inputs by (auto simp: revoke_command_def Let_def split: sum.splits option.splits)
  have "cl_service_id cl = service" using cl(2) by (auto simp: new_client_def split: option.splits)
  with cl(3) obtain sent receipt where
    "ex_invoke ex issuer issuer (publish_args (butlast path) (last path)) service = Inr sent"
    "ex_execute ex sent (publish_witnesses (butlast path) (last path)) = Inr receipt"
    "ex_unpack ex receipt = None"
    by (auto simp: publish_def Let_def split: sum.splits option.splits)
  with inputs cl(1) c(1) revoked show ?thesis
    by (intro that [of c "\<lparr>rq_invocation = sent, rq_args = publish_args (butlast path) (last path),
        rq_delegations = publish_witnesses (butlast path) (last path)\<rparr>" receipt])
      (auto simp: sent_request_def)
qed

text \<open>The request of a command line.\<close>

definition sent_by ::
  "('w, 'r, 'rc, 'v, 'id, 'g, 'l, 'db) outside \<Rightarrow> command_line \<Rightarrow> request option" where
  "sent_by ou p =
     sent_request (ou_process ou) (cl_ucan (ou_client ou)) (ou_executor ou)
       (flag_text p ''issuer-key-file'') (flag_text p ''service-id'') (pa_args p ! 0) (pa_args p ! 1)"

text \<open>A network in which the service's lookup handler answers, over a store.\<close>

definition lookup_transport ::
  "('w, 'r) http_env \<Rightarrow> (nat \<Rightarrow> string) \<Rightarrow> (nat \<Rightarrow> bytes) \<Rightarrow> (cid \<Rightarrow> revocation_record result) \<Rightarrow>
     transport" where
  "lookup_transport env line body get url =
     (case path_unescape (last (segments url)) of
        None \<Rightarrow> Inl (Foreign ''bad request'')
      | Some param \<Rightarrow> Inr (served line body (revocation_handler env get param)))"

context revocation_store
begin

lemma command_revokes:
  assumes "revoke_command pr base ex key_file service_id service_url arg0 arg1 = (None, out)"
    and "relays_one ex (\<lambda>items. route_replies (revoke_route env add_batch ctx now items s))"
    and "invar s" and adm: "\<And>req. admissible (request_batch env [req]) s"
  obtains c req where "cid_decode (cl_ucan base) arg0 = Inr c"
    and "sent_request pr (cl_ucan base) ex key_file service_id arg0 arg1 = Some req"
    and "arg_revoke (rq_args req) = c"
    and "\<And>ws. admissible_all admissible add_batch ws (route_store (revoke_route env add_batch ctx now [req] s)) \<Longrightarrow>
       \<exists>x. get None c (write_all add_batch ws (route_store (revoke_route env add_batch ctx now [req] s))) = Inr x \<and>
          rr_revoke x = c"
proof -
  obtain c req receipt where run: "cid_decode (cl_ucan base) arg0 = Inr c"
    "sent_request pr (cl_ucan base) ex key_file service_id arg0 arg1 = Some req"
    "arg_revoke (rq_args req) = c"
    "\<exists>i s au. ex_invoke ex i s (rq_args req) au = Inr (rq_invocation req)"
    "ex_execute ex (rq_invocation req) (rq_delegations req) = Inr receipt" "ex_unpack ex receipt = None"
    using assms(1) by (rule revoke_command_sends)
  have req: "req = \<lparr>rq_invocation = rq_invocation req, rq_args = rq_args req,
      rq_delegations = rq_delegations req\<rparr>" by simp
  let ?s = "route_store (revoke_route env add_batch ctx now [req] s)"
  have "route_replies (revoke_route env add_batch ctx now
      [\<lparr>rq_invocation = rq_invocation req, rq_args = rq_args req, rq_delegations = rq_delegations req\<rparr>] s) ! 0 =
      Success"
    using assms(2) run(4-6) unfolding relays_one_def by blast
  then have ok: "route_replies (revoke_route env add_batch ctx now [req] s) ! 0 = Success"
    unfolding req [symmetric] .
  have "\<exists>x. get None c (write_all add_batch ws ?s) = Inr x \<and> rr_revoke x = c"
    if later: "admissible_all admissible add_batch ws ?s" for ws
  proof -
    have "invar (write_all add_batch ws ?s)"
      by (rule write_all_invar [OF route_invar [OF assms(3) adm] later])
    moreover have "\<exists>x. get None c (write_all add_batch ws ?s) = Inr x"
      using route_success_revoked [OF assms(3) adm _ ok later] run(3) by simp
    ultimately show ?thesis using get_about by blast
  qed
  with run(1-3) show thesis by (rule that)
qed

end

lemma lookup_transport_endpoint:
  "lookup_transport env line body get (endpoint base [p, q]) = Inr (served line body (revocation_handler env get q))"
  by (simp add: lookup_transport_def endpoint_last)

text \<open>What the get command prints from a store that has a record.\<close>

lemma get_command_record:
  assumes "ucan_codec (he_ucan env)" "cid_decode (he_ucan env) arg0 = Inr c" "c \<noteq> undef_cid"
    and "service_endpoint pr service_url = Inr url" "\<And>u. new_request u = None"
    and "get c = Inr x"
  shows "get_command pr (he_ucan env) new_request (lookup_transport env line body get)
    (\<lambda>b e. (e, b)) service_url arg0 =
    (case encode_revocation_record env x of
       Inl _ \<Rightarrow> (Some (Msg (''getting revocation: unexpected status '' @ line 500)), [])
     | Inr doc \<Rightarrow> (None, doc))"
  unfolding get_command_prints_the_record [where pr = pr and service_url = service_url and
      new_request = new_request and transport = "lookup_transport env line body get" and
      line = line and body = body and get = get,
      OF assms(1-4) refl assms(5) lookup_transport_endpoint]
  by (simp only: Let_def assms(6) sum.case)

text \<open>A process that looks a record up at a service over \<open>get\<close> and prints what it reads.\<close>

definition reads_from ::
  "('w, 'r) http_env \<Rightarrow> (cid \<Rightarrow> revocation_record result) \<Rightarrow> ('w, 'r, 'rc, 'v, 'id, 'g, 'l, 'db) outside \<Rightarrow>
     command_line \<Rightarrow> bool" where
  "reads_from henv get ou p \<longleftrightarrow>
     pa_command p = ''get'' \<and> cl_ucan (ou_client ou) = he_ucan henv \<and>
     (\<exists>url. service_endpoint (ou_process ou) (flag_text p ''service-url'') = Inr url) \<and>
     (\<forall>u. ou_new_request ou u = None) \<and>
     (\<exists>line body. ou_transport ou = lookup_transport henv line body get) \<and>
     ou_copy ou = (\<lambda>b e. (e, b))"

lemma main_run: "parse root_commands root_flags argv = Inr (Run p) \<Longrightarrow> swarf_main parse ou argv = run_command ou p"
  by (simp add: swarf_main_def)

lemma run_revoke:
  assumes "run_command ou p = Exit 0 out err" "pa_command p = ''revoke''"
  obtains "revoke_command (ou_process ou) (ou_client ou) (ou_executor ou) (flag_text p ''issuer-key-file'')
    (flag_text p ''service-id'') (flag_text p ''service-url'') (pa_args p ! 0) (pa_args p ! 1) = (None, out)"
  using assms by (auto simp: run_command_def split: list.splits)

lemma run_get:
  assumes "reads_from henv get ou p" "ucan_codec (he_ucan henv)" "pa_args p = [arg0]"
    and "cid_decode (he_ucan henv) arg0 = Inr c" "c \<noteq> undef_cid" and "get c = Inr x"
  shows "case encode_revocation_record henv x of
      Inr doc \<Rightarrow> run_command ou p = Exit 0 doc []
    | Inl _ \<Rightarrow> \<exists>msg. run_command ou p = Exit 1 [] msg"
proof -
  obtain url line body where "service_endpoint (ou_process ou) (flag_text p ''service-url'') = Inr url"
    "ou_transport ou = lookup_transport henv line body get"
    using assms(1) unfolding reads_from_def by blast
  moreover have "ou_new_request ou u = None" for u using assms(1) by (simp add: reads_from_def)
  ultimately show ?thesis
    using assms(1) get_command_record [where get = get, OF assms(2,4,5) _ _ assms(6)]
    by (simp add: run_command_def reads_from_def assms(3) exit_with_def split: sum.split)
qed

text \<open>C24: What the revoke command confirmed, the get command shows: when swarf revoke exits
  with status 0 against an in-memory service, its first argument, other than the text of the
  undefined CID, named a delegation, the
  command sent one request, to revoke it, and the store as the service left it after that
  request holds a record about the delegation from then on, after any later writes. Then
  swarf get with the same argument exits with status 0 and prints the document of that
  record if the record can be encoded within the limits of the JSON encoder, and otherwise
  exits with status 1 and prints no document.\<close>

theorem revoke_then_get:
  assumes "swarf_main parse ou argv = Exit 0 out err"
    and "parse root_commands root_flags argv = Inr (Run p)" and "pa_command p = ''revoke''"
    and "relays_one (ou_executor ou)
      (\<lambda>items. route_replies (revoke_route env mem_add_batch ctx now items s))"
    and "mem_invar s" and "ucan_codec (he_ucan henv)" and "cl_ucan (ou_client ou) = he_ucan henv"
    and "cid_decode (he_ucan henv) (pa_args p ! 0) \<noteq> Inr undef_cid"
  shows "\<exists>c req. sent_by ou p = Some req \<and>
    cid_decode (he_ucan henv) (pa_args p ! 0) = Inr c \<and> arg_revoke (rq_args req) = c \<and>
    (\<forall>ws s' ou' argv' p'.
       s' = write_all mem_add_batch ws (route_store (revoke_route env mem_add_batch ctx now [req] s)) \<longrightarrow>
       parse root_commands root_flags argv' = Inr (Run p') \<longrightarrow> pa_args p' = [pa_args p ! 0] \<longrightarrow>
       reads_from henv (\<lambda>k. mem_get None k s') ou' p' \<longrightarrow>
       (\<exists>x. mem_get None c s' = Inr x \<and> rr_revoke x = c \<and>
          (case encode_revocation_record henv x of
             Inr doc \<Rightarrow> swarf_main parse ou' argv' = Exit 0 doc []
           | Inl _ \<Rightarrow> \<exists>msg. swarf_main parse ou' argv' = Exit 1 [] msg)))"
proof -
  have "run_command ou p = Exit 0 out err" using assms(1,2) by (simp add: main_run)
  then have command: "revoke_command (ou_process ou) (ou_client ou) (ou_executor ou)
    (flag_text p ''issuer-key-file'') (flag_text p ''service-id'') (flag_text p ''service-url'')
    (pa_args p ! 0) (pa_args p ! 1) = (None, out)"
    using assms(3) by (rule run_revoke)
  obtain c req where c: "cid_decode (he_ucan henv) (pa_args p ! 0) = Inr c" "sent_by ou p = Some req"
      "arg_revoke (rq_args req) = c"
    and kept: "\<And>ws. \<exists>x. mem_get None c (write_all mem_add_batch ws
        (route_store (revoke_route env mem_add_batch ctx now [req] s))) = Inr x \<and> rr_revoke x = c"
    by (rule mem.command_revokes [OF command assms(4,5)]) (simp_all add: assms(7) sent_by_def)
  have defined: "c \<noteq> undef_cid" using c(1) assms(8) by auto
  show ?thesis
  proof (rule exI [of _ c], rule exI [of _ req], intro conjI allI impI)
    fix ws s' ou' argv' p'
    assume s': "s' = write_all mem_add_batch ws (route_store (revoke_route env mem_add_batch ctx now [req] s))"
      and get: "parse root_commands root_flags argv' = Inr (Run p')" "pa_args p' = [pa_args p ! 0]"
        "reads_from henv (\<lambda>k. mem_get None k s') ou' p'"
    obtain x where x: "mem_get None c s' = Inr x" "rr_revoke x = c" using kept s' by blast
    have "case encode_revocation_record henv x of
        Inr doc \<Rightarrow> swarf_main parse ou' argv' = Exit 0 doc []
      | Inl _ \<Rightarrow> \<exists>msg. swarf_main parse ou' argv' = Exit 1 [] msg"
      using run_get [where get = "\<lambda>k. mem_get None k s'", OF get(3) assms(6) get(2) c(1) defined x(1)]
      unfolding main_run [where parse = parse, OF get(1)] .
    with x show "\<exists>x. mem_get None c s' = Inr x \<and> rr_revoke x = c \<and>
        (case encode_revocation_record henv x of
           Inr doc \<Rightarrow> swarf_main parse ou' argv' = Exit 0 doc []
         | Inl _ \<Rightarrow> \<exists>msg. swarf_main parse ou' argv' = Exit 1 [] msg)"
      by blast
  qed (rule c)+
qed

text \<open>
  The run of the witness: an executor that sends the request of the sample delegations to the
  in-memory service, and a command line whose flags all hold their own name.
\<close>

definition sample_cobra :: cobra where
  "sample_cobra specs flags argv =
     (case argv of
        [] \<Rightarrow> Inr Help
      | command # args \<Rightarrow>
          if list_ex (\<lambda>spec. command_name spec = command \<and> args_allowed (cs_args spec) args) specs
          then Inr (Run \<lparr>pa_command = command, pa_flags = Text, pa_args = args\<rparr>)
          else Inl (Foreign ''usage''))"

lemma sample_cobra_rules: "cobra_rules sample_cobra"
  by (auto simp: cobra_rules_def sample_cobra_def list_ex_iff split: list.splits if_splits)

lemma sample_lines:
  "sample_cobra root_commands root_flags [''revoke'', a, b] =
     Inr (Run \<lparr>pa_command = ''revoke'', pa_flags = Text, pa_args = [a, b]\<rparr>)"
  "sample_cobra root_commands root_flags [''get'', a] =
     Inr (Run \<lparr>pa_command = ''get'', pa_flags = Text, pa_args = [a]\<rparr>)"
  by (simp_all add: sample_cobra_def root_commands_def command_name_def revoke_spec_def get_spec_def
      serve_spec_def stream_spec_def)

definition one_executor :: "reply executor" where
  "one_executor =
     \<lparr>ex_invoke = (\<lambda>issuer subject args audience.
        if args = publish_args [root_delegation] leaf_delegation
        then Inr (rq_invocation (hd one_request)) else Inl (Foreign ''other arguments'')),
      ex_execute = (\<lambda>sent ds. Inr (route_replies (revoke_route sample_env mem_add_batch None 5
        [\<lparr>rq_invocation = sent, rq_args = publish_args [root_delegation] leaf_delegation,
          rq_delegations = ds\<rparr>] new_store) ! 0)),
      ex_execute_batch = (\<lambda>_ _. Inl (Foreign ''unused'')),
      ex_unpack = (\<lambda>rc. if rc = Success then None else Some (Foreign ''failed''))\<rparr>"

definition sample_outside ::
  "mem_store \<Rightarrow> (string, string, reply, unit, string, nat, string, unit) outside" where
  "sample_outside s =
     \<lparr>ou_process = sample_process, ou_client = sample_client, ou_executor = one_executor,
      ou_http = sample_http, ou_new_request = (\<lambda>_. None),
      ou_transport = lookup_transport sample_http (\<lambda>_. ''?'') (\<lambda>_. []) (\<lambda>k. mem_get None k s),
      ou_copy = (\<lambda>b e. (e, b)), ou_now = 5, ou_opened = None, ou_ended = None,
      ou_viper = sample_viper, ou_bindings = flag_bindings, ou_constructors = sample_constructors,
      ou_join_host_port = (\<lambda>host _. host), ou_fx = sequential_fx, ou_world = sample_world, ou_sentinel_text = (\<lambda>_. ''error'')\<rparr>"

lemma one_executor_relays:
  "relays_one one_executor (\<lambda>items. route_replies (revoke_route sample_env mem_add_batch None 5 items new_store))"
  by (auto simp: relays_one_def one_executor_def split: if_splits)

lemma sample_publish_args:
  "publish_args [root_delegation] leaf_delegation = \<lparr>arg_revoke = Cid ''leaf'', arg_path = [Cid ''root'', Cid ''leaf'']\<rparr>"
  "publish_witnesses [root_delegation] leaf_delegation = [root_delegation, leaf_delegation]"
  by (simp_all add: publish_args_def publish_witnesses_def upstream_path_def request_defs)

lemma sample_process_answers:
  "service_endpoint sample_process url = Inr url" "pr_did sample_process d = Inr (Did d)"
  "pr_http sample_process url = None" "pr_print sample_process out line = None"
  by (simp_all add: service_endpoint_def sample_process_def)

lemma sample_inputs:
  "revoke_inputs sample_process sample_ucan ''issuer-key-file'' ''leaf'' ''container'' =
     Inr (Cid ''leaf'', Did ''alice'', [root_delegation, leaf_delegation])"
proof -
  have "decode_delegation sample_ucan ''container'' = Inl (Foreign ''malformed'')"
    by (simp add: sample_ucan_def or_malformed_def text_delegation_def)
  moreover have "cid_decode sample_ucan ''leaf'' = Inr (Cid ''leaf'')" by (simp add: sample_ucan_def)
  moreover have "witness_path cid_bytes (Cid ''leaf'') (Did ''alice'') [leaf_delegation, root_delegation] =
      Inr [root_delegation, leaf_delegation]"
    by (simp add: witness_path_def witness_map_def request_defs climb.simps reverse_in_place_rev)
  ultimately show ?thesis
    by (simp add: revoke_inputs_def sample_process_def read_input_def decode_delegations_def)
qed

lemma one_request_eq:
  "one_request = [\<lparr>rq_invocation = rq_invocation (hd one_request),
     rq_args = publish_args [root_delegation] leaf_delegation,
     rq_delegations = [root_delegation, leaf_delegation]\<rparr>]"
  by (simp add: one_request_def revoke_request_def sample_publish_args)

lemma one_request_hd:
  "hd one_request = \<lparr>rq_invocation = rq_invocation (hd one_request),
     rq_args = publish_args [root_delegation] leaf_delegation,
     rq_delegations = [root_delegation, leaf_delegation]\<rparr>"
  by (rule arg_cong [where f = hd, OF one_request_eq, unfolded list.sel])

lemma one_executor_simps:
  "ex_invoke one_executor i j (publish_args [root_delegation] leaf_delegation) au =
     Inr (rq_invocation (hd one_request))"
  "ex_execute one_executor (rq_invocation (hd one_request)) [root_delegation, leaf_delegation] = Inr Success"
  "ex_unpack one_executor Success = None"
  using sample_route one_request_eq by (simp_all add: one_executor_def)

lemma sample_revoke_main:
  "swarf_main sample_cobra (sample_outside s) [''revoke'', ''leaf'', ''container''] =
     Exit 0 (''published revocation for '' @ ''leaf'' @ [nl]) []"
  using sample_inputs one_executor_simps sample_process_answers
  by (simp add: swarf_main_def sample_lines run_command_def sample_outside_def flag_text_def
      revoke_command_def new_client_def publish_def sample_publish_args(2))

lemma sample_sent:
  "sent_by (sample_outside s) \<lparr>pa_command = ''revoke'', pa_flags = Text, pa_args = [''leaf'', ''container'']\<rparr> =
     Some (hd one_request)"
  using sample_inputs one_executor_simps sample_process_answers
  by (subst one_request_hd) (simp add: sent_by_def sent_request_def sample_outside_def flag_text_def
      sample_publish_args(2))

text \<open>The record of that request, and its document.\<close>

definition one_record :: revocation_record where
  "one_record = record_of 5 \<lparr>rv_cause = rq_invocation (hd one_request), rv_path = [root_delegation, leaf_delegation]\<rparr>"

definition after_request :: mem_store where
  "after_request = route_store (revoke_route sample_env mem_add_batch None 5 one_request new_store)"

lemma after_request_get: "mem_get None (Cid ''leaf'') after_request = Inr one_record"
proof -
  let ?b = "[\<lparr>rv_cause = rq_invocation (hd one_request), rv_path = [root_delegation, leaf_delegation]\<rparr>]"
  have "revocation_paths cid_bytes (\<lambda>_. TokenValid) one_request = [Inr [root_delegation, leaf_delegation]]"
    by (simp add: revocation_paths_def one_request_def upstream_accepted)
  then have stored: "after_request = snd (mem_add_batch None 5 ?b new_store)"
    by (simp add: after_request_def revoke_route_def route_store_def sample_env_def one_request_def
        store_revocations_def mem_add_batch_ok split: prod.split option.split)
  show ?thesis unfolding stored
    by (simp add: mem_add_batch_def store_one_def put_record_def notify_all_def new_store_def mem_get_def
        one_record_def revoked_link_def request_defs)
qed

lemma one_record_encodes: "\<exists>doc. encode_revocation_record sample_http one_record = Inr doc"
proof -
  let ?cause = "invocation_text (rr_cause one_record)"
  let ?dlgs = "map delegation_text (rr_path one_record)"
  have "length ?cause \<le> 400" "\<forall>d \<in> set ?dlgs. length d \<le> 400" "length ?dlgs = 2"
    by (simp_all add: one_record_def record_of_def one_request_def revoke_request_def request_defs
        invocation_text_def delegation_text_def did_text_def hex_char_def)
  then have "within_limits \<lparr>ar_revoke = x, ar_path = ?dlgs, ar_cause = ?cause, ar_recorded_at = t\<rparr>" for x t
    by (auto simp: within_limits_def max_byte_array_def max_key_def)
  from sample_marshal_revocation [OF this] show ?thesis
    by (simp add: encode_revocation_record_def encode_path_def sample_ucan_def one_record_def record_of_def)
qed

theorem revoke_then_get_witness:
  "\<exists>doc. swarf_main sample_cobra (sample_outside after_request) [''get'', ''leaf''] = Exit 0 doc []"
proof -
  let ?ou = "sample_outside new_store"
  let ?p = "\<lparr>pa_command = ''revoke'', pa_flags = Text, pa_args = [''leaf'', ''container'']\<rparr>"
  let ?q = "\<lparr>pa_command = ''get'', pa_flags = Text, pa_args = [''leaf'']\<rparr>"
  have lines: "sample_cobra root_commands root_flags [''revoke'', ''leaf'', ''container''] = Inr (Run ?p)"
    "sample_cobra root_commands root_flags [''get'', ''leaf''] = Inr (Run ?q)"
    by (rule sample_lines)+
  have leaf: "cid_decode sample_ucan ''leaf'' = Inr (Cid ''leaf'')" by (simp add: sample_ucan_def)
  have reads: "reads_from sample_http (\<lambda>k. mem_get None k s) (sample_outside s) ?q" for s
    by (auto simp: reads_from_def sample_outside_def sample_process_answers)
  have relays: "relays_one (ou_executor ?ou)
      (\<lambda>items. route_replies (revoke_route sample_env mem_add_batch None 5 items new_store))"
    using one_executor_relays by (simp add: sample_outside_def)
  have codec: "ucan_codec (he_ucan sample_http)" "cl_ucan (ou_client ?ou) = he_ucan sample_http"
    "cid_decode (he_ucan sample_http) (pa_args ?p ! 0) \<noteq> Inr undef_cid"
    using sample_ucan.ucan_codec_axioms leaf by (simp_all add: sample_outside_def undef_cid_def)
  have "pa_command ?p = ''revoke''" by simp
  from revoke_then_get [OF sample_revoke_main lines(1) this relays mem_invar_new codec]
  obtain c req where r: "sent_by ?ou ?p = Some req" "cid_decode (he_ucan sample_http) (pa_args ?p ! 0) = Inr c"
    "\<forall>ws s' (ou' :: (string, string, reply, unit, string, nat, string, unit) outside) argv' p'.
       s' = write_all mem_add_batch ws (route_store (revoke_route sample_env mem_add_batch None 5 [req] new_store)) \<longrightarrow>
       sample_cobra root_commands root_flags argv' = Inr (Run p') \<longrightarrow> pa_args p' = [pa_args ?p ! 0] \<longrightarrow>
       reads_from sample_http (\<lambda>k. mem_get None k s') ou' p' \<longrightarrow>
       (\<exists>x. mem_get None c s' = Inr x \<and> rr_revoke x = c \<and>
          (case encode_revocation_record sample_http x of
             Inr doc \<Rightarrow> swarf_main sample_cobra ou' argv' = Exit 0 doc []
           | Inl _ \<Rightarrow> \<exists>msg. swarf_main sample_cobra ou' argv' = Exit 1 [] msg))"
    by (elim exE conjE) (rule that)
  have "[req] = one_request" using r(1) sample_sent by (simp add: one_request_def)
  then have "after_request = write_all mem_add_batch []
      (route_store (revoke_route sample_env mem_add_batch None 5 [req] new_store))"
    by (simp add: after_request_def)
  from r(3) [rule_format, OF this lines(2) _ reads]
  obtain x where "mem_get None c after_request = Inr x"
    "case encode_revocation_record sample_http x of
       Inr doc \<Rightarrow> swarf_main sample_cobra (sample_outside after_request) [''get'', ''leaf''] = Exit 0 doc []
     | Inl _ \<Rightarrow> \<exists>msg. swarf_main sample_cobra (sample_outside after_request) [''get'', ''leaf''] = Exit 1 [] msg"
    by auto
  moreover have "c = Cid ''leaf''" using r(2) leaf by simp
  ultimately show ?thesis using after_request_get one_record_encodes by auto
qed

end
