(* ===== verification/Generator.thy ===== *)
theory Generator
  imports Prelude
begin

text \<open>
  \<^verbatim>\<open>pkg/api/gen/main.go\<close>: the build step that writes \<^verbatim>\<open>json_gen.go\<close>. The generator library
  and the file functions of the operating system act on an opaque state \<open>'f\<close>.
\<close>

record 'f build_env =
  be_write_encoders :: "string \<Rightarrow> string \<Rightarrow> string list \<Rightarrow> 'f \<Rightarrow> error option \<times> 'f"
  be_read_file :: "string \<Rightarrow> 'f \<Rightarrow> bytes result"
  be_write_file :: "string \<Rightarrow> bytes \<Rightarrow> 'f \<Rightarrow> error option \<times> 'f"

definition build_tag :: bytes where
  "build_tag = ''//go:build !codegen'' @ [CHR 0x0A, CHR 0x0A]"

definition gen_output :: string where
  "gen_output = ''../json_gen.go''"

text \<open>The error the program panics with, if it does, and the files it leaves.\<close>

definition gen_main :: "'f build_env \<Rightarrow> 'f \<Rightarrow> error option \<times> 'f" where
  "gen_main be f =
     (case be_write_encoders be gen_output ''api'' [''Revocation'', ''FirehoseRevocation''] f of
        (Some e, f) \<Rightarrow> (Some e, f)
      | (None, f) \<Rightarrow>
          (case be_read_file be gen_output f of
             Inl e \<Rightarrow> (Some e, f)
           | Inr data \<Rightarrow> be_write_file be gen_output (build_tag @ data) f))"

text \<open>
  A run that ends leaves the generated code below one build tag, whatever the file held
  before, also the output of an earlier run: the generator writes the file anew, and what
  was written is what is read.
\<close>

lemma gen_main_output:
  assumes generated: "\<And>f f'. be_write_encoders be gen_output ''api'' [''Revocation'', ''FirehoseRevocation''] f =
      (None, f') \<Longrightarrow> be_read_file be gen_output f' = Inr code"
    and written: "\<And>data f f'. be_write_file be gen_output data f = (None, f') \<Longrightarrow>
      be_read_file be gen_output f' = Inr data"
    and "gen_main be f = (None, f')"
  shows "be_read_file be gen_output f' = Inr (build_tag @ code)"
proof -
  obtain g data where g: "be_write_encoders be gen_output ''api'' [''Revocation'', ''FirehoseRevocation''] f = (None, g)"
    "be_read_file be gen_output g = Inr data" "be_write_file be gen_output (build_tag @ data) g = (None, f')"
    using assms(3) by (auto simp: gen_main_def split: prod.splits option.splits sum.splits)
  have "data = code" using generated [OF g(1)] g(2) by simp
  with written [OF g(3)] show ?thesis by simp
qed

lemma gen_main_again:
  assumes "\<And>f f'. be_write_encoders be gen_output ''api'' [''Revocation'', ''FirehoseRevocation''] f =
      (None, f') \<Longrightarrow> be_read_file be gen_output f' = Inr code"
    and "\<And>data f f'. be_write_file be gen_output data f = (None, f') \<Longrightarrow>
      be_read_file be gen_output f' = Inr data"
    and "gen_main be f = (None, f1)" "gen_main be f1 = (None, f2)"
  shows "be_read_file be gen_output f2 = be_read_file be gen_output f1"
  using gen_main_output [OF assms(1,2,3)] gen_main_output [OF assms(1,2,4)] by simp

end
