(* ===== verification/Spec2Isabelle.thy ===== *)
theory Spec2Isabelle
  imports Memory_Delivery Backoff Commands Generator
begin

text \<open>
  A model of swarf, a revocation service for UCAN delegations written in Go, and its
  correctness. A principal revokes a delegation by sending a signed \<^verbatim>\<open>/ucan/revoke\<close>
  invocation; the service validates it, stores a record, answers lookups and streams all
  records to subscribers; the client library and the command publish, look up and follow
  revocations.

  \<^bold>\<open>Parts and theories.\<close> In the order of the data flow:

  \<^item> \<^verbatim>\<open>Prelude\<close>: Go's strings, errors and string functions, loops that return at the first
    error. Times are nanoseconds since Go's zero time.
  \<^item> \<^verbatim>\<open>Ucan\<close>: tokens, records and the interface of \<^verbatim>\<open>pkg/store/store.go\<close>; the contract of a
    store is the locale \<open>revocation_store\<close>, of one whose failed writes change nothing
    \<open>atomic_store\<close>, of one with a log of its records \<open>logged_store\<close>. \<^verbatim>\<open>Codec\<close>: the token
    and CID codecs of ucantone and go-cid, a record of functions with the locale \<open>ucan_codec\<close>, and a concrete codec that meets it.
  \<^item> \<^verbatim>\<open>Validation\<close>: \<open>revocationPath\<close>, \<open>validateRevocationPath\<close>, the recovery boundary and the
    bounded worker pool of \<^verbatim>\<open>pkg/fx/app.go\<close>; \<^verbatim>\<open>Service\<close>: the revoke route over any store.
  \<^item> \<^verbatim>\<open>Memory_Store\<close>, \<^verbatim>\<open>Memory_Stream\<close>: \<^verbatim>\<open>pkg/store/memory/store.go\<close>; its operations as functions
    on a record of the map, the subscribers and the two counters, and its streams interleaved
    with writers as a step relation. It is an interpretation of \<open>atomic_store\<close> and of \<open>logged_store\<close>.
  \<^item> \<^verbatim>\<open>Postgres_Store\<close>, \<^verbatim>\<open>Postgres_Stream\<close>: \<^verbatim>\<open>pkg/store/postgres/store.go\<close>; the table is a list
    of rows, a statement is a function on it; what the context, the clock and the driver
    answer to a turn of the polling stream is a record, so each way it can fail is a branch.
    With any \<open>ucan_codec\<close> it is a \<open>revocation_store\<close> and a \<open>logged_store\<close> (sublocales).
  \<^item> \<^verbatim>\<open>Dag_Json\<close>: \<^verbatim>\<open>pkg/api/json_gen.go\<close> over a token writer and reader (locale \<open>dag_json\<close>);
    \<^verbatim>\<open>Sse\<close>: \<^verbatim>\<open>internal/sse/scanner.go\<close> with the \<open>bufio.Scanner\<close> below it; \<^verbatim>\<open>Rfc3339\<close>: the
    formatting and parsing of the cursor; \<^verbatim>\<open>Http\<close>: the lookup and firehose handlers.
  \<^item> \<^verbatim>\<open>Client\<close>: \<open>Get\<close>, \<open>streamConn\<close> and \<open>Stream\<close> of \<^verbatim>\<open>pkg/client/client.go\<close>; \<^verbatim>\<open>Publish\<close>: \<open>Publish\<close>
    and \<open>PublishBatch\<close>; \<^verbatim>\<open>Backoff\<close>: the waits between the connections of \<open>Stream\<close>; \<^verbatim>\<open>Cli\<close>: the commands of \<^verbatim>\<open>cmd/swarf\<close>.
  \<^item> \<^verbatim>\<open>Delivery\<close>: from a publisher to a subscriber, over any \<open>logged_store\<close>, and what the
    PostgreSQL streams bring of their log; \<^verbatim>\<open>Memory_Delivery\<close>: what a stream of the in-memory
    store has yielded at any moment beside the writers, as a part of the final log.
  \<^item> \<^verbatim>\<open>App\<close>: version, configuration, the choice of the store and its pool, and the handlers
    that serve constants; \<^verbatim>\<open>Migrations\<close>: \<^verbatim>\<open>pkg/store/postgres/migrations\<close>; \<^verbatim>\<open>Wiring\<close>: the
    constructors and routes of \<^verbatim>\<open>pkg/fx/app.go\<close>, the lifecycle hooks and the serve command.
  \<^item> \<^verbatim>\<open>Commands\<close>: \<open>main\<close> of \<^verbatim>\<open>cmd/swarf/main.go\<close> with the flags, arguments and exit status of all
    commands; \<^verbatim>\<open>Generator\<close>: the build step of \<^verbatim>\<open>pkg/api/gen\<close>.
  \<^item> This theory: properties of several of them together.

  \<^bold>\<open>What is shown.\<close>
  Authorisation: the service accepts exactly the authorised revocations, however the workers
  interleave, and the publisher and the command send what it asks for; only the chain's
  issuers can revoke; the command finds the chain whenever its input determines it.
  Storage: both stores keep a delegation revoked for ever once a request was answered with
  success; the in-memory store answers from the history of what was first stored, unless a replaced
  revocation is written again; the flattened
  arguments of the SQL statement are the rows of the batch; the table stays well typed, so
  that what was written always decodes; a retry changes nothing.
  Streams: no lost wake-up, no duplicate and no gap in the in-memory streams; the settle
  window makes the polling stream complete, and rows that become visible in order make it
  a prefix of the log whatever fails. Wire: encoders and decoders are inverse within
  the limits, the scanner meets the event stream format with an exact size bound, a body cut
  at any byte decodes to complete records only. Client: \<open>Get\<close> is the store's \<open>Get\<close>; a stream
  that reconnects yields the records of a log in the order of its times and once, ends only
  for a reason, paces its reconnections, and does not loop on an oversized event. End to end:
  a revocation whose publication succeeded reaches every subscriber whose cursor is not past
  it, on either store while it is being written to; a consumer has the log of either store
  once and in order, provided writers commit, or rows become visible, in the order of their
  times; and \<^verbatim>\<open>swarf get\<close> shows what \<^verbatim>\<open>swarf revoke\<close> confirmed. Start and stop: the service
  accepts no connection before its database has answered and is migrated, and the pool is
  closed only after the shutdown of the server, which may fail.
  Where the code falls short, a theorem shows how: timestamps can reach a stream out of
  order, and then a reconnecting client loses one record and repeats another; a repeat of a
  replaced revocation is stored anew (\<open>mem_alternating_restores\<close>).

  \<^bold>\<open>Parameters.\<close> Libraries the repository only calls are arguments: token validation
  (\<open>env_validate\<close>), signing and executing invocations (\<open>executor\<close>), codecs (\<open>ucan_lib\<close>,
  \<open>json_lib\<close>), the HTTP transport, the database's answers, the clock, files and parsers of the
  command, cobra, fx (\<open>fx_rules\<close>), goose and the code generator. The laws a property needs of them are locales or named hypotheses, each with a
  concrete instance in a witness. The validator of tokens is a function of the delegation: the
  context and the DID documents its verification may also depend on are the same for all
  checks of one request. The query of the polling stream orders rows by time in nanoseconds
  and by the bytes of the id; PostgreSQL keeps microseconds and orders text by its collation.
  A write of a handler that fails leaves nothing of its block: the part of a block that may
  still reach the client is a body cut within the block. An error in reading the body of a
  lookup is seen as the end of the body.

  \<^bold>\<open>Bounds.\<close> The 64-bit sequence numbers and subscriber numbers of the in-memory store are words;
  steps that would wrap them are excluded by an explicit bound. Array bounds in the SQL
  statement are 32-bit words, and a batch has fewer than \<open>2^31\<close> witnesses. Loops over input
  are total functions with a measure (bytes left, delegations not yet visited); nothing
  uses fuel. A stream that never ends is a list of its turns of any length; a consumer that
  stops is a prefix of what the stream yields.

  \<^bold>\<open>Not modelled.\<close> What fx, echo, zap, goose and the DID resolvers do with what the constructors
  give them (the SQL migration itself is the database's; that a constructor runs once, after
  those of its parameters and in their order, is taken from the documentation of fx); what
  cobra and fx print; which
  source of a setting wins, since viper decides it; logging
  other than in the revoke route; the sharing of slices, since the code copies
  records at its boundaries and never changes them afterwards.
\<close>

section \<open>The service on PostgreSQL\<close>

context ucan_codec
begin

lemma pg_route_success:
  assumes "pg_invar ul s" "pg_admissible ul (request_batch env items) s" "i < length items"
    and "route_replies (revoke_route env (pg_add_batch ul net) ctx now items s) ! i = Success"
    and "admissible_all (pg_admissible ul) (pg_add_batch ul net) ws
      (route_store (revoke_route env (pg_add_batch ul net) ctx now items s))"
  shows "\<exists>x. pg_get ul None (arg_revoke (rq_args (items ! i)))
     (write_all (pg_add_batch ul net) ws
        (route_store (revoke_route env (pg_add_batch ul net) ctx now items s))) = Inr x"
  using assms by (rule pg.route_success_revoked)

lemma pg_route_invar:
  assumes "pg_invar ul s" "pg_admissible ul (request_batch env items) s"
  shows "pg_invar ul (route_store (revoke_route env (pg_add_batch ul net) ctx now items s))"
  using assms by (rule pg.route_invar)

lemmas pg_published_logged = pglog.published_logged

end

text \<open>C12: A success reply is a promise that holds for good on PostgreSQL too: once the handler
  answers an invocation with success, looking its delegation up finds a revocation, after any
  number of later writes, also of ones that fail or whose answer is lost.\<close>

theorem pg_success_is_permanent:
  assumes "ucan_codec ul" and "pg_invar ul s"
    and "pg_admissible ul (request_batch env items) s" and "i < length items"
    and "route_replies (revoke_route env (pg_add_batch ul net) ctx now items s) ! i = Success"
    and "admissible_all (pg_admissible ul) (pg_add_batch ul net) ws
      (route_store (revoke_route env (pg_add_batch ul net) ctx now items s))"
  shows "\<exists>x. pg_get ul None (arg_revoke (rq_args (items ! i)))
     (write_all (pg_add_batch ul net) ws
        (route_store (revoke_route env (pg_add_batch ul net) ctx now items s))) = Inr x"
  using assms by (rule ucan_codec.pg_route_success)

lemma sample_request_batch:
  "request_batch sample_env one_request =
     [\<lparr>rv_cause = rq_invocation (hd one_request), rv_path = [root_delegation, leaf_delegation]\<rparr>]"
  using sample_validated by (simp add: request_batch_def one_request_def)

lemma sample_pg_add:
  "fst (pg_add_batch sample_ucan (\<lambda>_. Applied) None 5 (request_batch sample_env one_request) []) = None"
  by (simp add: sample_request_batch pg_add_batch_def)

lemma sample_pg_route:
  "route_replies (revoke_route sample_env (pg_add_batch sample_ucan (\<lambda>_. Applied)) None 5 one_request []) =
     [Success]"
proof -
  have "revocation_paths (env_cid_string sample_env) (env_validate sample_env) one_request =
      [Inr [root_delegation, leaf_delegation]]"
    using upstream_accepted by (simp add: revocation_paths_def one_request_def sample_env_def)
  moreover have "env_set_success sample_env req = None" for req by (simp add: sample_env_def)
  ultimately show ?thesis
    using sample_pg_add unfolding sample_request_batch
    by (auto simp: revoke_route_def route_replies_def one_request_def store_revocations_def
        split: prod.split)
qed

theorem pg_success_is_permanent_witness:
  "\<exists>x. pg_get sample_ucan None (Cid ''leaf'')
     (write_all (pg_add_batch sample_ucan (\<lambda>_. Applied)) []
        (route_store (revoke_route sample_env (pg_add_batch sample_ucan (\<lambda>_. Applied)) None 5 one_request [])))
     = Inr x"
proof -
  have "pg_admissible sample_ucan (request_batch sample_env one_request) []"
    by (simp add: sample_request_batch pg_admissible_def witness_count_def revoked_link_def undef_cid_def
        leaf_delegation_def)
  moreover have "pg_invar sample_ucan []" by (simp add: pg_invar_def)
  ultimately have "\<exists>x. pg_get sample_ucan None (arg_revoke (rq_args (one_request ! 0)))
     (write_all (pg_add_batch sample_ucan (\<lambda>_. Applied)) []
        (route_store (revoke_route sample_env (pg_add_batch sample_ucan (\<lambda>_. Applied)) None 5 one_request [])))
     = Inr x"
    using sample_pg_route
    by (intro pg_success_is_permanent [OF sample_ucan.ucan_codec_axioms])
      (simp_all, simp add: one_request_def)
  then show ?thesis by (simp add: one_request_def revoke_request_def)
qed

section \<open>From a publisher to a subscriber\<close>

text \<open>The store after a batch of one, and a server that streams it.\<close>

definition after_batch :: mem_store where
  "after_batch =
     route_store (revoke_route sample_env mem_add_batch None 5 (batch_items [bob_revokes] [leaf_delegation])
       new_store)"

definition leaf_record :: revocation_record where
  "leaf_record = record_of 5 \<lparr>rv_cause = bob_revokes, rv_path = [leaf_delegation]\<rparr>"

lemma after_batch_write:
  "after_batch = snd (mem_add_batch None 5 [\<lparr>rv_cause = bob_revokes, rv_path = [leaf_delegation]\<rparr>] new_store)"
proof -
  have paths: "revocation_paths cid_bytes (\<lambda>_. TokenValid) (batch_items [bob_revokes] [leaf_delegation]) =
      [Inr [leaf_delegation]]"
    by (simp add: revocation_paths_def batch_items_def recover_revocation_path_def revocation_path_def
        witness_map_def batch_args_of_def bob_revokes_def leaf_delegation_def)
  then show ?thesis
    by (simp add: after_batch_def revoke_route_def route_store_def sample_env_def batch_items_def
        store_revocations_def mem_add_batch_ok split: prod.split option.split)
qed

lemma after_batch_records:
  "ms_records after_batch = [(Cid ''leaf'', \<lparr>mr_record = leaf_record, mr_seq = 1\<rparr>)]"
  unfolding after_batch_write
  by (simp add: mem_add_batch_def store_one_def put_record_def notify_all_def new_store_def
      leaf_record_def revoked_link_def leaf_delegation_def)

lemma after_batch_snapshot: "snapshot t after_batch = (if t \<le> 5 then [leaf_record] else [])"
  by (simp add: snapshot_def records_from_locked_def after_batch_records entry_matches_def
      leaf_record_def record_of_def)

lemma leaf_simps:
  "rr_recorded_at leaf_record = 5" "dlg_link leaf_delegation = Cid ''leaf''"
  "rr_revoke leaf_record = Cid ''leaf''"
  by (simp_all add: leaf_record_def record_of_def revoked_link_def leaf_delegation_def)

lemma leaf_record_member: "leaf_record \<in> web_records"
  by (simp add: web_records_def web_block_def leaf_record_def record_of_def bob_revokes_def
      leaf_delegation_def object_toks_def written_order_def path_toks_def tally_def hex_char_def
      firehose_value_of_def max_key_def revoked_link_def)

lemma leaf_loop:
  "firehose_loop sample_http (\<lambda>_ _. None) (map Inr (snapshot t after_batch)) [] =
     (None, record_blocks (map web_block (snapshot t after_batch)))"
  "length (record_blocks (map web_block (snapshot t after_batch))) \<le> 10000"
proof -
  have "set (snapshot t after_batch) \<subseteq> web_records" "length (snapshot t after_batch) \<le> 1"
    using leaf_record_member by (auto simp: after_batch_snapshot)
  with web_loop_blocks [of "snapshot t after_batch"] show
    "firehose_loop sample_http (\<lambda>_ _. None) (map Inr (snapshot t after_batch)) [] =
       (None, record_blocks (map web_block (snapshot t after_batch)))"
    "length (record_blocks (map web_block (snapshot t after_batch))) \<le> 10000"
    by auto
qed

text \<open>A subscriber that first meets an empty stream, is then refused, and then connects again.\<close>

definition subscriber_turns :: "attempt list" where
  "subscriber_turns = [web_server (\<lambda>_. []), refused]"

lemma subscriber_runs:
  "fst (stream_from sample_client (\<lambda>_ _. True)
     (subscriber_turns @ [web_server (\<lambda>t. snapshot t after_batch)]) 0) = Retrying"
  using leaf_record_member
  by (simp add: subscriber_turns_def stream_from_start web_turn refused_turn after_batch_snapshot
      year_10000_def del: client_stream.simps(2))

lemma publisher_published:
  "publish_batch sample_client sample_executor (Some (Did ''bob'')) [Some leaf_delegation] = None"
  "content_addressed sample_executor"
  using calling_publishes(2) [where service = sample_replies, OF sample_batch_replies] calling_content_addressed
  by (simp_all add: sample_executor_def)

text \<open>What the theorems on delivery ask of the service, its log and the publisher.\<close>

lemma after_batch_route:
  "after_batch = route_store (revoke_route sample_env mem_add_batch None 5
     (batch_items [bob_revokes] (map the [Some leaf_delegation])) new_store)"
  "unat (ms_next_seq new_store) + length (request_batch sample_env
     (batch_items [bob_revokes] (map the [Some leaf_delegation]))) < 2 ^ 64"
proof -
  show "after_batch = route_store (revoke_route sample_env mem_add_batch None 5
      (batch_items [bob_revokes] (map the [Some leaf_delegation])) new_store)"
    by (simp add: after_batch_def)
  have "length (request_batch sample_env (batch_items [bob_revokes] [leaf_delegation])) \<le> 1"
    unfolding request_batch_def by (rule order_trans [OF length_valid_batch]) (simp add: batch_items_def)
  then show "unat (ms_next_seq new_store) + length (request_batch sample_env
      (batch_items [bob_revokes] (map the [Some leaf_delegation]))) < 2 ^ 64"
    by (simp add: new_store_def)
qed

lemma after_batch_log:
  "list_all (sendable sample_http (\<lambda>_. True)) (snapshot 0 after_batch)"
  "instants (events_of (snapshot 0 after_batch))"
  "distinct (map (\<lambda>r. inv_link (rr_cause r)) (snapshot 0 after_batch))"
  "commit_order after_batch"
  using web_block_ok(4) [OF leaf_record_member]
  by (simp_all add: after_batch_snapshot after_batch_records commit_order_def instants_def
      year_10000_def leaf_record_def record_of_def)

text \<open>C3: A published revocation reaches a subscriber of the in-memory service that has not gone past
  it. PublishBatch returned no error; the service went on working, its writers committing in
  any order, and whatever became of the subscriber's earlier connections, the last one is
  served by a stream that came to rest, and is not cut off. Then the service holds a record
  about each delegation of the batch, and the subscriber has been given that record, if its
  time is not before that of the last record the subscriber had been given when it connected
  last. An invocation, named by its CID, revokes one delegation.\<close>

theorem live_published_reaches_subscriber:
  assumes "batch_invocations cl ex issuer revoked = Inr invs"
    and "items = batch_items invs (map the revoked)" and "mem_invar s" and "seq_invar s"
    and "unat (ms_next_seq s) + length (request_batch env items) < 2 ^ 64"
    and "relays ex (\<lambda>items. route_replies (revoke_route env mem_add_batch ctx now items s))"
    and "content_addressed ex"
    and "publish_batch cl ex (Some issuer) revoked = None" and "Some d \<in> set revoked"
    and "mem_reachable c0"
    and "sys_store c0 = route_store (revoke_route env mem_add_batch ctx now items s)"
    and "rtranclp mem_step c0 c" and "idle c i st"
    and "before = snd (stream_from sub accept earlier from)" and "sm_from st = ss_resume before"
    and "0 \<le> ss_resume before" and "ss_resume before < year_10000"
    and "dag_json (he_json henv) accepts holds"
    and "list_all (sendable henv accepts) (map mr_record (sm_out st))"
    and "cl_json sub = he_json henv" and "\<And>url. cl_new_request sub url = None"
    and "at_transport final = firehose_transport henv net (\<lambda>_. mem_stream_items st None) n e"
    and "fst (firehose_loop henv net (mem_stream_items st None) []) = None"
    and "length (snd (firehose_loop henv net (mem_stream_items st None) [])) \<le> n"
    and "fst (stream_from sub accept (earlier @ [final]) from) = Retrying"
    and "\<forall>r \<in> set (ss_out before). af_revoke r = revokes (af_cause r)"
    and "\<forall>r \<in> set (map mr_record (sm_out st)). rr_revoke r = revokes (inv_link (rr_cause r))"
  shows "\<exists>x. mem_get None (dlg_link d) (sys_store c) = Inr x \<and>
    (ss_resume before \<le> rr_recorded_at x \<longrightarrow>
      (\<exists>r \<in> set (ss_out (snd (stream_from sub accept (earlier @ [final]) from))).
         af_revoke r = dlg_link d \<and> af_cause r = inv_link (rr_cause x) \<and>
         af_recorded_at r = rr_recorded_at x))"
proof -
  have "\<exists>x. mem_get None (dlg_link d) (sys_store c0) = Inr x"
    using memlog.published_logged [OF assms(1,2) _ assms(5-9,11)] assms(3,4) by blast
  moreover have invar: "mem_invar (sys_store c0)"
    unfolding assms(11) using mem.route_invar [OF assms(3)] by simp
  ultimately have "\<exists>x. mem_get None (dlg_link d) (sys_store c) = Inr x"
    using mem_steps_keep [OF assms(12) invar, of "dlg_link d"] unfolding mem_get_ex by blast
  then obtain x where x: "mem_get None (dlg_link d) (sys_store c) = Inr x" by blast
  have "mem_reachable c"
    using assms(10,12) unfolding mem_reachable_def by (blast intro: rtranclp_trans)
  note yielded = idle_yielded [OF this assms(13) x, unfolded assms(15)]
  have "rr_revoke x = dlg_link d"
    using mem.get_about [OF conjunct1 [OF mem_steps_keep [OF assms(12) invar]] x] by blast
  moreover note subscriber_about [OF assms(18-22,25,14,16,17) _ _ _ assms(26,27) yielded]
  ultimately show ?thesis
    using x assms(23,24) by (auto simp: mem_stream_items_running)
qed

text \<open>
  The service of the witness: one writer has committed, then a stream is opened and comes to
  rest.
\<close>

lemma leaf_service:
  obtains c0 c st where "mem_reachable c0" "sys_store c0 = after_batch" "rtranclp mem_step c0 c"
    "idle c 1 st" "sm_from st = 0" "map mr_record (sm_out st) = [leaf_record]"
    "mem_get None (Cid ''leaf'') (sys_store c) = Inr leaf_record"
proof -
  let ?commits = "[Begin [\<lparr>rv_cause = bob_revokes, rv_path = [leaf_delegation]\<rparr>], Commit 0]"
  let ?opened = "[Open 0, Yield 1, Yield 1]"
  have "\<exists>c0 c st. run_schedule ?commits (init_sys 5) = Some c0 \<and> sys_store c0 = after_batch \<and>
      run_schedule ?opened c0 = Some c \<and> idle c 1 st \<and> sm_from st = 0 \<and>
      map mr_record (sm_out st) = [leaf_record] \<and>
      mem_get None (Cid ''leaf'') (sys_store c) = Inr leaf_record"
    by (simp add: after_batch_write schedule_defs idle_def leaf_record_def leaf_delegation_def mem_get_def)
  then obtain c0 c st where run: "run_schedule ?commits (init_sys 5) = Some c0" "run_schedule ?opened c0 = Some c"
    and "sys_store c0 = after_batch" "idle c 1 st" "sm_from st = 0"
      "map mr_record (sm_out st) = [leaf_record]"
      "mem_get None (Cid ''leaf'') (sys_store c) = Inr leaf_record"
    by (elim exE conjE) (rule that)
  moreover have "mem_reachable c0" using run(1) by (rule run_schedule_reachable) simp
  moreover have "rtranclp mem_step c0 c" using run(2) by (rule run_schedule_steps)
  ultimately show thesis by (intro that)
qed

lemma leaf_server_runs:
  "fst (stream_from sample_client (\<lambda>_ _. True) (subscriber_turns @ [web_server (\<lambda>_. [leaf_record])]) 0) = Retrying"
  "ss_resume (snd (stream_from sample_client (\<lambda>_ _. True) subscriber_turns 0)) = 0"
  "ss_out (snd (stream_from sample_client (\<lambda>_ _. True) subscriber_turns 0)) = []"
  using leaf_record_member
  by (simp_all add: subscriber_turns_def stream_from_start web_turn refused_turn year_10000_def
      del: client_stream.simps(2))

theorem live_published_reaches_subscriber_witness:
  "\<exists>r \<in> set (ss_out (snd (stream_from sample_client (\<lambda>_ _. True)
      (subscriber_turns @ [web_server (\<lambda>_. [leaf_record])]) 0))).
    af_revoke r = Cid ''leaf'' \<and> af_recorded_at r = 5"
proof -
  obtain c0 c st where c: "mem_reachable c0" "sys_store c0 = after_batch" "rtranclp mem_step c0 c"
    "idle c 1 st" "sm_from st = 0" "map mr_record (sm_out st) = [leaf_record]"
    "mem_get None (Cid ''leaf'') (sys_store c) = Inr leaf_record"
    by (rule leaf_service)
  have items: "mem_stream_items st None = map Inr [leaf_record]"
    by (simp only: mem_stream_items_running c(6))
  note loop = web_loop_blocks [of "[leaf_record]"]
  have "\<exists>x. mem_get None (dlg_link leaf_delegation) (sys_store c) = Inr x \<and>
    (ss_resume (snd (stream_from sample_client (\<lambda>_ _. True) subscriber_turns 0)) \<le> rr_recorded_at x \<longrightarrow>
      (\<exists>r \<in> set (ss_out (snd (stream_from sample_client (\<lambda>_ _. True)
          (subscriber_turns @ [web_server (\<lambda>_. [leaf_record])]) 0))).
         af_revoke r = dlg_link leaf_delegation \<and> af_cause r = inv_link (rr_cause x) \<and>
         af_recorded_at r = rr_recorded_at x))"
  proof (rule live_published_reaches_subscriber [OF sample_invocations refl mem_invar_new seq_invar_new
        after_batch_route(2) sample_relays publisher_published(2,1) _ c(1) _ c(3,4) refl,
        where henv = sample_http and accepts = "\<lambda>_. True" and holds = sample_holds and n = 10000 and e = None
          and revokes = "\<lambda>_. Cid ''leaf''"])
    show "sys_store c0 = route_store (revoke_route sample_env mem_add_batch None 5
        (batch_items [bob_revokes] (map the [Some leaf_delegation])) new_store)"
      using c(2) after_batch_route(1) by simp
    show "list_all (sendable sample_http (\<lambda>_. True)) (map mr_record (sm_out st))"
      using web_block_ok(4) [OF leaf_record_member] by (simp add: c(6))
    show "at_transport (web_server (\<lambda>_. [leaf_record])) =
        firehose_transport sample_http (\<lambda>_ _. None) (\<lambda>_. mem_stream_items st None) 10000 None"
      by (simp add: web_server_def items)
    show "fst (firehose_loop sample_http (\<lambda>_ _. None) (mem_stream_items st None) []) = None"
      "length (snd (firehose_loop sample_http (\<lambda>_ _. None) (mem_stream_items st None) [])) \<le> 10000"
      using loop leaf_record_member by (simp_all only: items, simp_all)
    show "\<forall>r \<in> set (map mr_record (sm_out st)). rr_revoke r = Cid ''leaf''"
      by (simp add: c(6) leaf_simps)
  qed (use sample_json.dag_json_axioms leaf_server_runs c(5) in \<open>simp_all add: year_10000_def\<close>)
  then show ?thesis
    using c(7) leaf_server_runs(2) by (auto simp: leaf_simps)
qed

text \<open>C4: From the in-memory store at work to the client's consumer, each record exactly once, under
  three conditions: writers commit in the order of their clock readings, so that what the store
  numbers later has no earlier time; no record a stream has yielded is replaced in the store
  by a later revocation of its delegation; and no two records have the same invocation as
  their cause. Then a consumer of Stream gets a first part
  of the store's log from its starting time on, in order and none twice, although its
  connections reach streams at any moment of their life beside the writers, and streams,
  writes and connections may fail or be cut anywhere; and it has the whole log once a
  connection met streams that have caught up and the stream goes on. Interleavings in which
  a writer overtakes another are not covered: there records may be lost or repeated.\<close>

theorem mem_log_to_consumer_exactly_once:
  assumes "dag_json (he_json env) accepts holds" and "list_all (sendable env accepts) (snapshot 0 s)"
    and "cl_json cl = he_json env" and "instants (events_of (snapshot 0 s))"
    and "distinct (map (\<lambda>r. inv_link (rr_cause r)) (snapshot 0 s))"
    and "commit_order s" and "\<forall>st \<in> L. kept s st"
    and "0 \<le> from" and "from < year_10000"
    and "list_all (\<lambda>a. mem_connects env s L (at_transport a)) attempts"
  shows "(\<exists>n. ss_out (snd (stream_from cl accept attempts from)) =
      events_of (take n (filter (\<lambda>r. from \<le> rr_recorded_at r) (snapshot 0 s)))) \<and>
    (attempts \<noteq> [] \<and> mem_connects_whole env s L (at_transport (last attempts)) \<and>
     (\<forall>url. cl_new_request cl url = None) \<and>
     fst (stream_from cl accept attempts from) = Retrying \<longrightarrow>
       ss_out (snd (stream_from cl accept attempts from)) =
         events_of (filter (\<lambda>r. from \<le> rr_recorded_at r) (snapshot 0 s)))"
proof -
  have order: "in_time_order (events_of (snapshot 0 s))"
    by (rule log_in_time_order [OF sorted_snapshot_times assms(5)])
  have conns: "list_all (\<lambda>a. connects env (snapshot 0 s) (at_transport a)) attempts"
    using assms(10) mem_connects_log [OF assms(6) instants_times [OF assms(4)] assms(7)]
    by (auto simp: list_all_iff)
  show ?thesis
    using consumer_gets_log [OF assms(1-3) order assms(4,8,9) conns]
      mem_connects_whole_log [OF assms(6) instants_times [OF assms(4)] assms(7)] by blast
qed

text \<open>A service without subscribers, and its streams.\<close>

lemma leaf_history:
  obtains c where "mem_reachable c" "Suc (unat (ms_next_subscriber (sys_store c))) < 2 ^ 64"
    "ms_records after_batch = ms_records (sys_store c)"
proof -
  obtain c0 :: mem_sys where c0: "mem_reachable c0" "sys_store c0 = after_batch" by (rule leaf_service)
  then show ?thesis
    by (intro that [OF c0(1)]) (simp_all add: after_batch_write mem_add_batch_effect new_store_def)
qed

lemma subscriber_live:
  "list_all (\<lambda>a. mem_connects sample_http after_batch {st. kept after_batch st} (at_transport a)) subscriber_turns"
  "mem_connects_whole sample_http after_batch {st. kept after_batch st}
     (at_transport (web_server (\<lambda>t. snapshot t after_batch)))"
proof -
  obtain c where c: "mem_reachable c" "Suc (unat (ms_next_subscriber (sys_store c))) < 2 ^ 64"
    "ms_records after_batch = ms_records (sys_store c)" by (rule leaf_history)
  have "mem_connects sample_http after_batch {st. kept after_batch st} (at_transport (web_server (\<lambda>_. [])))"
    using mem_connects_now [OF c] by (simp add: web_server_def)
  moreover have "mem_connects sample_http after_batch {st. kept after_batch st} (at_transport refused)"
    by (simp add: mem_connects_def refused_def)
  ultimately show "list_all (\<lambda>a. mem_connects sample_http after_batch {st. kept after_batch st}
      (at_transport a)) subscriber_turns"
    by (simp add: subscriber_turns_def)
  show "mem_connects_whole sample_http after_batch {st. kept after_batch st}
      (at_transport (web_server (\<lambda>t. snapshot t after_batch)))"
    unfolding web_server_def attempt.simps
    by (rule mem_connects_whole_now [OF c]) (simp_all add: leaf_loop)
qed

theorem mem_log_to_consumer_exactly_once_witness:
  "ss_out (snd (stream_from sample_client (\<lambda>_ _. True)
     (subscriber_turns @ [web_server (\<lambda>t. snapshot t after_batch)]) 0)) =
   events_of (filter (\<lambda>r. 0 \<le> rr_recorded_at r) (snapshot 0 after_batch))"
proof -
  let ?attempts = "subscriber_turns @ [web_server (\<lambda>t. snapshot t after_batch)]"
  have "list_all (\<lambda>a. mem_connects sample_http after_batch {st. kept after_batch st} (at_transport a)) ?attempts"
    using subscriber_live mem_connects_whole_part by simp
  note log = mem_log_to_consumer_exactly_once [OF _ after_batch_log(1) _ after_batch_log(2-4) _ _ _ this,
      where cl = sample_client and holds = sample_holds]
  show ?thesis
    by (rule mp [OF conjunct2 [OF log]])
      (use sample_json.dag_json_axioms subscriber_live(2) subscriber_runs in
        \<open>simp_all add: year_10000_def\<close>)
qed

section \<open>From the PostgreSQL store to a subscriber\<close>

text \<open>C7: From the PostgreSQL table to the client's consumer, each record exactly once, under two
  conditions on how rows become visible to the turns of a stream: none later than the settle
  window allows, and each after all rows with a smaller key (time and id). Then a consumer of
  Stream gets a first part of the log of the table from its starting time on, in order and
  none twice, although the context, the clock or the driver of any stream, the handler's
  writes and the connections may fail anywhere; and it has the whole log once a connection
  met streams that have seen the table and the stream goes on. Rows that become visible
  behind others are not covered: a client that reconnects in between may lose them.\<close>

theorem pg_log_to_consumer_exactly_once:
  assumes "ucan_codec ul" and "pg_invar ul T"
    and "dag_json (he_json env) accepts holds" and "list_all (sendable env accepts) (pg_log ul T)"
    and "cl_json cl = he_json env" and "instants (events_of (pg_log ul T))"
    and "0 \<le> from" and "from < year_10000"
    and "\<forall>h \<in> H. growing ul h \<and> (\<forall>q \<in> set h. set (fst q) \<subseteq> set T)"
    and "\<forall>h \<in> H. settled h"
    and "\<forall>h \<in> H. in_commit_order h \<and>
      (\<forall>q \<in> set h. \<forall>row \<in> set (fst q). \<forall>row' \<in> set T - set (fst q). row_key row < row_key row')"
    and "list_all (\<lambda>a. pg_connects env ul H (at_transport a)) attempts"
  shows "(\<exists>n. ss_out (snd (stream_from cl accept attempts from)) =
      events_of (take n (filter (\<lambda>r. from \<le> rr_recorded_at r) (pg_log ul T)))) \<and>
    (attempts \<noteq> [] \<and> pg_connects_whole env ul T H (at_transport (last attempts)) \<and>
     (\<forall>url. cl_new_request cl url = None) \<and>
     fst (stream_from cl accept attempts from) = Retrying \<longrightarrow>
       ss_out (snd (stream_from cl accept attempts from)) =
         events_of (filter (\<lambda>r. from \<le> rr_recorded_at r) (pg_log ul T)))"
proof -
  have order: "in_time_order (events_of (pg_log ul T))"
    by (rule log_in_time_order [OF ucan_codec.pg_log_ordered [OF assms(1,2)]])
  have watches: "\<forall>h \<in> H. watches ul T h" using assms(9-11) unfolding watches_def by blast
  have conns: "list_all (\<lambda>a. connects env (pg_log ul T) (at_transport a)) attempts"
    using assms(12) ucan_codec.pg_connects_log [OF assms(1,2) watches] by (auto simp: list_all_iff)
  show ?thesis
    using consumer_gets_log [OF assms(3-5) order assms(6-8) conns]
      ucan_codec.pg_connects_whole_log [OF assms(1,2) watches] by blast
qed

text \<open>Two rows, a stream that sees one after the other and then breaks, and one that does not.\<close>

definition sample_table :: table where
  "sample_table = [sample_row 5 ''c'' ''d'', sample_row 7 ''b'' ''d'']"

definition whole_history :: "(table \<times> pg_turn) list" where
  "whole_history = [healthy_turn 20 [sample_row 5 ''c'' ''d''], healthy_turn 21 sample_table]"

definition cut_history :: "(table \<times> pg_turn) list" where
  "cut_history = whole_history @ [broken_turn 0 (Foreign ''connection lost'') 22 sample_table]"

definition pg_attempt :: "(table \<times> pg_turn) list \<Rightarrow> attempt" where
  "pg_attempt hist =
     \<lparr>at_transport = firehose_transport sample_http (\<lambda>_ _. None)
        (\<lambda>t. pg_stream_items sample_ucan (map snd hist) t) 10000 None,
      at_ctx = None, at_wait = None\<rparr>"

lemma sample_table_invar: "pg_invar sample_ucan sample_table"
  by (simp add: sample_table_def sample_rows_ok)

lemma sample_log:
  "pg_log sample_ucan sample_table =
     [record_of 5 (pg_sample ''c'' ''d''), record_of 7 (pg_sample ''b'' ''d'')]"
proof -
  have "sort_key row_key sample_table = sample_table"
    by (simp add: sample_table_def sample_row_def row_key_def)
  then show ?thesis by (simp add: pg_log_def sample_table_def row_record_def decode_sample_row)
qed

lemma pg_sample_web:
  "record_of 5 (pg_sample ''c'' ''d'') \<in> web_records" "record_of 7 (pg_sample ''b'' ''d'') \<in> web_records"
  by (simp_all add: web_records_def web_block_def record_of_def pg_sample_def
      object_toks_def written_order_def path_toks_def tally_def hex_char_def
      firehose_value_of_def max_key_def revoked_link_def)

lemma sample_row_simps [simp]:
  "row_recorded_at (sample_row t c d) = t" "row_key (sample_row t c d) = (t, c)"
  by (simp_all add: sample_row_def row_key_def)

lemma sample_watches: "watches sample_ucan sample_table whole_history" "watches sample_ucan sample_table cut_history"
proof -
  have "growing sample_ucan whole_history" "growing sample_ucan cut_history"
    by (simp_all add: growing_turns whole_history_def cut_history_def sample_table_def sample_rows_ok)
  then show "watches sample_ucan sample_table whole_history" "watches sample_ucan sample_table cut_history"
    by (auto simp: watches_def whole_history_def cut_history_def sample_table_def
        settled_def in_commit_order_def stream_settle_window_def)
qed

lemma broken_turn_error:
  "turn_error (snd (broken_turn n e now T)) x \<Longrightarrow> x = Wrap ''iterating revocations'' e"
  by (auto simp: turn_error_def broken_turn_def)

lemma lost_reportable: "reportable sample_http (Wrap ''iterating revocations'' (Foreign ''connection lost''))"
proof -
  let ?m = "error_text (\<lambda>_. ''error'') (Wrap ''iterating revocations'' (Foreign ''connection lost''))"
  have "32 \<le> (of_char c :: nat)" if "c \<in> set (CHR ''e'' # hex ?m)" for c
    using that hex_plain [of c ?m] by (auto simp del: hex.simps error_text.simps)
  then have "one_line (CHR ''e'' # hex ?m)" by (intro one_line_plain) blast
  then show ?thesis
    by (simp add: reportable_def sample_http_def hex_char_def max_event_bytes_def)
qed

definition sample_histories :: "(table \<times> pg_turn) list set" where
  "sample_histories = {[], whole_history, cut_history}"

lemma sample_pg_connects:
  "pg_connects sample_http sample_ucan sample_histories (at_transport (pg_attempt cut_history))"
  "pg_connects sample_http sample_ucan sample_histories (at_transport (pg_attempt whole_history))"
  "pg_connects sample_http sample_ucan sample_histories (at_transport (pg_attempt []))"
  "pg_connects sample_http sample_ucan sample_histories (at_transport refused)"
proof -
  show "pg_connects sample_http sample_ucan sample_histories (at_transport (pg_attempt []))"
    unfolding pg_attempt_def attempt.simps by (intro pg_connects_history) (simp_all add: sample_histories_def)
  have errors: "reportable sample_http x" if "p \<in> set cut_history" "turn_error (snd p) x" for p x
    using that lost_reportable
    by (auto simp: cut_history_def whole_history_def dest: broken_turn_error)
  then show "pg_connects sample_http sample_ucan sample_histories (at_transport (pg_attempt cut_history))"
    unfolding pg_attempt_def attempt.simps by (intro pg_connects_history) (simp_all add: sample_histories_def)
  have "reportable sample_http x" if "p \<in> set whole_history" "turn_error (snd p) x" for p x
    using that errors [of p x] by (auto simp: cut_history_def)
  then show "pg_connects sample_http sample_ucan sample_histories (at_transport (pg_attempt whole_history))"
    unfolding pg_attempt_def attempt.simps by (intro pg_connects_history) (simp_all add: sample_histories_def)
  show "pg_connects sample_http sample_ucan sample_histories (at_transport refused)"
    by (simp add: pg_connects_def refused_def)
qed

lemma sample_whole_items:
  "pg_stream_items sample_ucan (map snd whole_history) t =
     map Inr (log_server (pg_log sample_ucan sample_table) t)"
  unfolding log_server_def
  by (rule sample_ucan.pg_items_whole [OF sample_table_invar sample_watches(1)])
    (auto simp: last_table_def whole_history_def)

lemma sample_pg_log: "set (pg_log sample_ucan sample_table) \<subseteq> web_records" "length (pg_log sample_ucan sample_table) = 2"
  using pg_sample_web by (simp_all add: sample_log)

lemma sample_server: "pg_attempt whole_history = web_server (log_server (pg_log sample_ucan sample_table))"
  by (simp add: pg_attempt_def web_server_def sample_whole_items)

lemma sample_pg_whole:
  "pg_connects_whole sample_http sample_ucan sample_table sample_histories (at_transport (pg_attempt whole_history))"
proof -
  have loop: "fst (firehose_loop sample_http (\<lambda>_ _. None) (map Inr (log_server (pg_log sample_ucan sample_table) t)) []) = None \<and>
      length (snd (firehose_loop sample_http (\<lambda>_ _. None) (map Inr (log_server (pg_log sample_ucan sample_table) t)) [])) \<le> 10000"
    for t
  proof -
    let ?rs = "log_server (pg_log sample_ucan sample_table) t"
    have "set ?rs \<subseteq> web_records" using sample_pg_log(1) by (auto simp: log_server_def)
    note blocks = web_loop_blocks [OF this]
    have "length ?rs \<le> 2" unfolding log_server_def using length_filter_le sample_pg_log(2) by metis
    then have "300 * length ?rs \<le> 10000" by linarith
    with blocks(2) show ?thesis unfolding blocks(1) fst_conv snd_conv by (auto intro: order_trans)
  qed
  have whole: "whole_history \<in> sample_histories" "set sample_table \<subseteq> set (last_table whole_history)"
    "\<And>p x. p \<in> set whole_history \<Longrightarrow> \<not> turn_error (snd p) x"
    by (auto simp: sample_histories_def last_table_def whole_history_def)
  show ?thesis
    unfolding pg_attempt_def attempt.simps
    by (rule pg_connects_whole_history [OF whole]) (simp_all only: sample_whole_items loop)
qed

lemma sample_stream_runs:
  "fst (stream_from sample_client (\<lambda>_ _. True) [pg_attempt [], refused, pg_attempt whole_history] 5) = Retrying"
proof -
  have empty: "pg_attempt [] = web_server (\<lambda>_. [])"
    by (simp add: pg_attempt_def web_server_def fun_eq_iff pg_stream_items_def pg_open_def)
  have "set (log_server (pg_log sample_ucan sample_table) 5) \<subseteq> web_records"
    "length (log_server (pg_log sample_ucan sample_table) 5) \<le> 30"
    using sample_pg_log length_filter_le [of "\<lambda>r. 5 \<le> rr_recorded_at r" "pg_log sample_ucan sample_table"]
    by (auto simp: log_server_def)
  then show ?thesis
    by (simp add: empty sample_server stream_from_start web_turn refused_turn year_10000_def
        del: client_stream.simps(2))
qed

theorem pg_log_to_consumer_exactly_once_witness:
  "(\<exists>n. ss_out (snd (stream_from sample_client (\<lambda>_ _. True)
      [pg_attempt cut_history, refused, pg_attempt whole_history] 5)) =
    events_of (take n (filter (\<lambda>r. 5 \<le> rr_recorded_at r) (pg_log sample_ucan sample_table)))) \<and>
   ss_out (snd (stream_from sample_client (\<lambda>_ _. True)
      [pg_attempt [], refused, pg_attempt whole_history] 5)) =
    events_of (filter (\<lambda>r. 5 \<le> rr_recorded_at r) (pg_log sample_ucan sample_table))"
proof -
  have sendable: "list_all (sendable sample_http (\<lambda>_. True)) (pg_log sample_ucan sample_table)"
    using web_block_ok(4) sample_pg_log(1) by (auto simp: list_all_iff)
  have times: "instants (events_of (pg_log sample_ucan sample_table))"
    by (simp add: sample_log instants_def year_10000_def record_of_def)
  have "watches sample_ucan sample_table []"
    by (simp add: watches_def growing_turns settled_def in_commit_order_def)
  then have histories: "\<forall>h \<in> sample_histories. watches sample_ucan sample_table h"
    using sample_watches by (simp add: sample_histories_def)
  note log = pg_log_to_consumer_exactly_once [OF sample_ucan.ucan_codec_axioms
      sample_table_invar _ sendable _ times, where H = sample_histories and holds = sample_holds]
  show ?thesis
  proof
    show "\<exists>n. ss_out (snd (stream_from sample_client (\<lambda>_ _. True)
        [pg_attempt cut_history, refused, pg_attempt whole_history] 5)) =
      events_of (take n (filter (\<lambda>r. 5 \<le> rr_recorded_at r) (pg_log sample_ucan sample_table)))"
      by (rule conjunct1 [OF log])
        (use sample_json.dag_json_axioms sample_pg_connects histories in
          \<open>auto simp: year_10000_def watches_def\<close>)
    show "ss_out (snd (stream_from sample_client (\<lambda>_ _. True)
        [pg_attempt [], refused, pg_attempt whole_history] 5)) =
      events_of (filter (\<lambda>r. 5 \<le> rr_recorded_at r) (pg_log sample_ucan sample_table))"
      by (rule mp [OF conjunct2 [OF log]])
        (use sample_json.dag_json_axioms sample_pg_connects sample_pg_whole sample_stream_runs histories in
          \<open>auto simp: year_10000_def watches_def\<close>)
  qed
qed

text \<open>C6: A revocation published to a service on PostgreSQL reaches a subscriber that has not gone
  past it. PublishBatch returned no error; rows become visible in any order, none later than
  the settle window allows; and whatever became of the subscriber's earlier connections, the
  last one is served by a stream that has not failed and has seen the rows of the batch, and
  is not cut off. Then the table holds a record about each delegation of the batch, and the
  subscriber has been given that record, if its time is not before that of the last record
  the subscriber had been given when it connected last. An invocation, named by its CID,
  revokes one delegation.\<close>

theorem pg_published_reaches_subscriber:
  assumes "ucan_codec ul" and "batch_invocations cl ex issuer revoked = Inr invs"
    and "items = batch_items invs (map the revoked)" and "pg_invar ul s"
    and "pg_admissible ul (request_batch env items) s"
    and "relays ex (\<lambda>items. route_replies (revoke_route env (pg_add_batch ul net) ctx now items s))"
    and "content_addressed ex"
    and "publish_batch cl ex (Some issuer) revoked = None" and "Some d \<in> set revoked"
    and "s' = route_store (revoke_route env (pg_add_batch ul net) ctx now items s)"
    and "growing ul ps" and "settled ps" and "set s' \<subseteq> set (last_table ps)"
    and "before = snd (stream_from sub accept earlier from)"
    and "pg_polls ul (map snd ps) (pg_open (ss_resume before)) = (None, st)"
    and "0 \<le> ss_resume before" and "ss_resume before < year_10000"
    and "dag_json (he_json henv) accepts holds" and "list_all (sendable henv accepts) (ps_out st)"
    and "cl_json sub = he_json henv" and "\<And>url. cl_new_request sub url = None"
    and "at_transport final = firehose_transport henv conn (pg_stream_items ul (map snd ps)) n e"
    and "fst (firehose_loop henv conn (map Inr (ps_out st)) []) = None"
    and "length (snd (firehose_loop henv conn (map Inr (ps_out st)) [])) \<le> n"
    and "fst (stream_from sub accept (earlier @ [final]) from) = Retrying"
    and "\<forall>r \<in> set (ss_out before). af_revoke r = revokes (af_cause r)"
    and "\<forall>r \<in> set (ps_out st). rr_revoke r = revokes (inv_link (rr_cause r))"
  shows "\<exists>x. pg_get ul None (dlg_link d) s' = Inr x \<and>
    (ss_resume before \<le> rr_recorded_at x \<longrightarrow>
      (\<exists>r \<in> set (ss_out (snd (stream_from sub accept (earlier @ [final]) from))).
         af_revoke r = dlg_link d \<and> af_cause r = inv_link (rr_cause x) \<and>
         af_recorded_at r = rr_recorded_at x))"
proof -
  note codec = assms(1)
  obtain x where x: "pg_get ul None (dlg_link d) s' = Inr x" "x \<in> set (pg_log ul s')"
    "rr_revoke x = dlg_link d"
    using ucan_codec.pg_published_logged [OF codec assms(2-10)] by blast
  have inv: "pg_invar ul s'"
    unfolding assms(10) by (rule ucan_codec.pg_route_invar [OF codec assms(4,5)])
  note yielded = ucan_codec.settled_stream_brings [OF codec assms(11,12,15,13) inv x(2)]
  note subscriber_about [OF assms(18-22,25,14,16,17)
      ucan_codec.pg_stream_items_running [OF codec assms(15)] assms(23,24,26,27) yielded]
  with x show ?thesis by auto
qed

text \<open>The service of the witness on PostgreSQL, and its table after the batch.\<close>

definition pg_service :: "request list \<Rightarrow> reply list" where
  "pg_service items =
     route_replies (revoke_route sample_env (pg_add_batch sample_ucan (\<lambda>_. Applied)) None 5 items [])"

definition leaf_revocation :: revocation where
  "leaf_revocation = \<lparr>rv_cause = bob_revokes, rv_path = [leaf_delegation]\<rparr>"

definition leaf_row :: row where
  "leaf_row = \<lparr>row_id = ''leaf'', row_cause = invocation_text bob_revokes, row_revoked = ''leaf'',
     row_witness = [delegation_text leaf_delegation], row_recorded_at = 5\<rparr>"

lemma leaf_add: "pg_add_batch sample_ucan (\<lambda>_. Applied) None 5 [leaf_revocation] [] = (None, [leaf_row])"
proof -
  have rows: "batch_rows sample_ucan 5 0 [] [leaf_revocation] = Inr [leaf_row]"
    by (simp add: leaf_revocation_def leaf_row_def bob_revokes_def leaf_delegation_def revoked_link_def
        cause_link_def)
  have "witness_count [leaf_revocation] < 2 ^ 31" by (simp add: witness_count_def leaf_revocation_def)
  from prepare_batch [OF this, of 5 sample_ucan] show ?thesis
    unfolding rows
    by (simp add: pg_add_batch_def insert_rows_def insert_row_def split: sum.splits del: prepare.simps)
qed

lemma leaf_route:
  "pg_service (batch_items [bob_revokes] [leaf_delegation]) = [Success]"
  "route_store (revoke_route sample_env (pg_add_batch sample_ucan (\<lambda>_. Applied)) None 5
     (batch_items [bob_revokes] [leaf_delegation]) []) = [leaf_row]"
  "request_batch sample_env (batch_items [bob_revokes] [leaf_delegation]) = [leaf_revocation]"
proof -
  have paths: "revocation_paths cid_bytes (\<lambda>_. TokenValid) (batch_items [bob_revokes] [leaf_delegation]) =
      [Inr [leaf_delegation]]"
    by (simp add: revocation_paths_def batch_items_def recover_revocation_path_def revocation_path_def
        witness_map_def batch_args_of_def bob_revokes_def leaf_delegation_def)
  have items: "batch_items [bob_revokes] [leaf_delegation] =
      [\<lparr>rq_invocation = bob_revokes, rq_args = batch_args_of leaf_delegation,
        rq_delegations = [leaf_delegation]\<rparr>]"
    by (simp add: batch_items_def)
  show "pg_service (batch_items [bob_revokes] [leaf_delegation]) = [Success]"
    "route_store (revoke_route sample_env (pg_add_batch sample_ucan (\<lambda>_. Applied)) None 5
       (batch_items [bob_revokes] [leaf_delegation]) []) = [leaf_row]"
    using paths leaf_add
    by (simp_all add: pg_service_def revoke_route_def route_replies_def route_store_def sample_env_def
        store_revocations_def items leaf_revocation_def)
  show "request_batch sample_env (batch_items [bob_revokes] [leaf_delegation]) = [leaf_revocation]"
    using paths by (simp add: request_batch_def items validate_item_def revocation_paths_def sample_env_def
        leaf_revocation_def)
qed

lemma leaf_row_ok: "pg_invar sample_ucan [leaf_row]" "pg_log sample_ucan [leaf_row] = [leaf_record]"
proof -
  have row: "row_of sample_ucan leaf_revocation leaf_row"
    by (simp add: row_of_def leaf_row_def leaf_revocation_def bob_revokes_def leaf_delegation_def
        revoked_link_def cause_link_def undef_cid_def)
  then show "pg_invar sample_ucan [leaf_row]" by (auto simp: pg_invar_def)
  show "pg_log sample_ucan [leaf_row] = [leaf_record]"
    using sample_ucan.decode_row_of [OF row]
    by (simp add: pg_log_def row_record_def leaf_record_def leaf_revocation_def leaf_row_def)
qed

lemma leaf_growing:
  "growing sample_ucan [healthy_turn 20 [leaf_row]]" "settled [healthy_turn 20 [leaf_row]]"
  by (simp_all add: growing_turns settled_def leaf_row_ok)

lemma leaf_polls:
  "\<exists>st. pg_polls sample_ucan (map snd [healthy_turn 20 [leaf_row]]) (pg_open 0) = (None, st) \<and>
     ps_out st = [leaf_record]"
proof -
  obtain st where st: "pg_polls sample_ucan (map snd [healthy_turn 20 [leaf_row]]) (pg_open 0) = (None, st)"
    by (rule healthy_stream_runs [OF sample_ucan.ucan_codec_axioms leaf_growing(1)]) simp
  have "watches sample_ucan [leaf_row] [healthy_turn 20 [leaf_row]]"
    by (simp add: watches_def leaf_growing in_commit_order_def)
  from sample_ucan.pg_items_whole [OF leaf_row_ok(1) this, of 0]
  have "pg_stream_items sample_ucan (map snd [healthy_turn 20 [leaf_row]]) 0 = map Inr [leaf_record]"
    by (simp add: last_table_def leaf_row_ok(2) leaf_record_def record_of_def)
  with st show ?thesis by (auto simp: pg_stream_items_def)
qed

lemma leaf_answer:
  "pg_attempt [healthy_turn 20 [leaf_row]] = web_server (\<lambda>t. if t \<le> 5 then [leaf_record] else [])"
proof -
  have "watches sample_ucan [leaf_row] [healthy_turn 20 [leaf_row]]"
    by (simp add: watches_def leaf_growing in_commit_order_def)
  from sample_ucan.pg_items_whole [OF leaf_row_ok(1) this]
  have "pg_stream_items sample_ucan (map snd [healthy_turn 20 [leaf_row]]) t =
      map Inr (if t \<le> 5 then [leaf_record] else [])" for t
    by (simp add: last_table_def leaf_row_ok(2) leaf_record_def record_of_def)
  then show ?thesis by (simp only: pg_attempt_def web_server_def)
qed

lemma leaf_run:
  "fst (stream_from sample_client (\<lambda>_ _. True)
     (subscriber_turns @ [pg_attempt [healthy_turn 20 [leaf_row]]]) 0) = Retrying"
  using leaf_record_member
  by (simp add: subscriber_turns_def stream_from_start web_turn refused_turn leaf_answer
      year_10000_def del: client_stream.simps(2))

theorem pg_published_reaches_subscriber_witness:
  "\<exists>r \<in> set (ss_out (snd (stream_from sample_client (\<lambda>_ _. True)
      (subscriber_turns @ [pg_attempt [healthy_turn 20 [leaf_row]]]) 0))).
    af_revoke r = Cid ''leaf''"
proof -
  let ?ps = "[healthy_turn 20 [leaf_row]]"
  obtain st where st: "pg_polls sample_ucan (map snd ?ps) (pg_open 0) = (None, st)" "ps_out st = [leaf_record]"
    using leaf_polls by blast
  note loop = web_loop_blocks [of "[leaf_record]"]
  have "\<exists>x. pg_get sample_ucan None (dlg_link leaf_delegation) [leaf_row] = Inr x \<and>
    (ss_resume (snd (stream_from sample_client (\<lambda>_ _. True) subscriber_turns 0)) \<le> rr_recorded_at x \<longrightarrow>
      (\<exists>r \<in> set (ss_out (snd (stream_from sample_client (\<lambda>_ _. True)
          (subscriber_turns @ [pg_attempt ?ps]) 0))).
         af_revoke r = dlg_link leaf_delegation \<and> af_cause r = inv_link (rr_cause x) \<and>
         af_recorded_at r = rr_recorded_at x))"
  proof (rule pg_published_reaches_subscriber [where s = "[]" and
        net = "\<lambda>_. Applied" and ex = "calling pg_service" and env = sample_env and ctx = None and now = 5 and
        invs = "[bob_revokes]" and revoked = "[Some leaf_delegation]" and issuer = "Did ''bob''" and
        cl = sample_client and henv = sample_http and accepts = "\<lambda>_. True" and holds = sample_holds and
        st = st and ps = ?ps and n = 10000 and e = None and conn = "\<lambda>_ _. None" and
        revokes = "\<lambda>_. Cid ''leaf''"])
    show "ucan_codec sample_ucan" by (rule sample_ucan.ucan_codec_axioms)
    show "batch_invocations sample_client (calling pg_service) (Did ''bob'') [Some leaf_delegation] = Inr [bob_revokes]"
      "publish_batch sample_client (calling pg_service) (Some (Did ''bob'')) [Some leaf_delegation] = None"
      by (rule calling_publishes [where service = pg_service, OF leaf_route(1)])+
    show "relays (calling pg_service) (\<lambda>items. route_replies
        (revoke_route sample_env (pg_add_batch sample_ucan (\<lambda>_. Applied)) None 5 items []))"
      using calling_relays [of pg_service] unfolding pg_service_def .
    show "pg_admissible sample_ucan (request_batch sample_env
        (batch_items [bob_revokes] (map the [Some leaf_delegation]))) []"
      unfolding list.map option.sel leaf_route(3)
      by (simp add: pg_admissible_def witness_count_def leaf_revocation_def revoked_link_def
          undef_cid_def leaf_delegation_def)
    show "list_all (sendable sample_http (\<lambda>_. True)) (ps_out st)"
      using web_block_ok(4) [OF leaf_record_member] by (simp add: st(2))
    show "fst (firehose_loop sample_http (\<lambda>_ _. None) (map Inr (ps_out st)) []) = None"
      "length (snd (firehose_loop sample_http (\<lambda>_ _. None) (map Inr (ps_out st)) [])) \<le> 10000"
      using loop leaf_record_member by (simp_all only: st(2), simp_all)
    show "fst (stream_from sample_client (\<lambda>_ _. True) (subscriber_turns @ [pg_attempt ?ps]) 0) = Retrying"
      by (rule leaf_run)
    show "at_transport (pg_attempt ?ps) =
        firehose_transport sample_http (\<lambda>_ _. None) (pg_stream_items sample_ucan (map snd ?ps)) 10000 None"
      by (simp add: pg_attempt_def)
    show "\<forall>r \<in> set (ps_out st). rr_revoke r = Cid ''leaf''"
      by (simp add: st(2) leaf_simps)
    show "pg_polls sample_ucan (map snd ?ps)
        (pg_open (ss_resume (snd (stream_from sample_client (\<lambda>_ _. True) subscriber_turns 0)))) = (None, st)"
      using st(1) by (simp only: leaf_server_runs(2))
    show "[leaf_row] = route_store (revoke_route sample_env (pg_add_batch sample_ucan (\<lambda>_. Applied)) None 5
        (batch_items [bob_revokes] (map the [Some leaf_delegation])) [])"
      unfolding list.map option.sel leaf_route(2) ..
  qed (use leaf_growing leaf_server_runs sample_json.dag_json_axioms calling_content_addressed in
      \<open>simp_all add: pg_invar_def last_table_def year_10000_def\<close>)
  moreover have "pg_get sample_ucan None (dlg_link leaf_delegation) [leaf_row] = Inr leaf_record"
    using sample_ucan.pg_get_in_log [OF leaf_row_ok(1)] calculation by (auto simp: leaf_row_ok(2))
  ultimately show ?thesis
    using leaf_server_runs(2) by (auto simp: leaf_simps)
qed

end
